(* ===== verification/Prelude.thy ===== *)
theory Prelude
  imports Main "HOL-Library.Word"
begin

text \<open>
  Shared material of the development: the machine types of the Rust source, the result
  type of fallible operations (with a panic as an error value of its own), slices and
  in-place writes of byte buffers, and the big-endian codec of unsigned integers that the
  file format uses everywhere.
\<close>

unbundle bit_operations_syntax

section \<open>Machine types\<close>

type_synonym byte = "8 word"
type_synonym u32 = "32 word"
type_synonym u64 = "64 word"
type_synonym i64 = "64 word" \<comment> \<open>two's complement, read with \<open>sint\<close>\<close>

named_theorems codec_simps \<open>equations of the byte codecs\<close>
named_theorems page_simps \<open>in-bounds equations of page accessors\<close>

section \<open>Results\<close>

text \<open>
  The variants of \<open>LimboError\<close> that the modelled code constructs, without their message
  strings. \<open>Panic\<close> is not a \<open>LimboError\<close>: it stands for a Rust panic (an
  out-of-bounds index, a failed assertion, \<open>unreachable!\<close>), so that a theorem about an
  operation also says that it does not panic.
\<close>

datatype limbo_error =
    Corrupt
  | InternalError
  | TooBig
  | Busy
  | BusySnapshot
  | WriteWriteConflict
  | CommitDependencyAborted
  | TxTerminated
  | NoSuchTransactionID
  | InvalidArgument
  | IntegerOverflow
  | Panic

type_synonym 'a result = "limbo_error + 'a"

text \<open>The \<open>?\<close> operator: pass an error on, go on with the value otherwise.\<close>

fun and_then :: "'a result \<Rightarrow> ('a \<Rightarrow> 'b result) \<Rightarrow> 'b result" where
  "and_then (Inl e) f = Inl e"
| "and_then (Inr x) f = f x"

lemma and_then_cong [fundef_cong]:
  "m = m' \<Longrightarrow> (\<And>x. m' = Inr x \<Longrightarrow> f x = g x) \<Longrightarrow> and_then m f = and_then m' g"
  by (cases m') auto

lemma and_then_split:
  "P (and_then m f) = ((\<forall>e. m = Inl e \<longrightarrow> P (Inl e)) \<and> (\<forall>x. m = Inr x \<longrightarrow> P (f x)))"
  by (cases m) auto

lemma and_then_split_asm:
  "P (and_then m f) = (\<not> ((\<exists>e. m = Inl e \<and> \<not> P (Inl e)) \<or> (\<exists>x. m = Inr x \<and> \<not> P (f x))))"
  by (cases m) auto

lemmas and_then_splits = and_then_split and_then_split_asm

lemma and_then_Inr_iff [simp]:
  "and_then m f = Inr y \<longleftrightarrow> (\<exists>x. m = Inr x \<and> f x = Inr y)"
  by (cases m) auto

lemma and_then_Inl_iff:
  "and_then m f = Inl e \<longleftrightarrow> m = Inl e \<or> (\<exists>x. m = Inr x \<and> f x = Inl e)"
  by (cases m) auto

lemma and_then_assoc: "and_then (and_then m f) g = and_then m (\<lambda>x. and_then (f x) g)"
  by (cases m) auto

text \<open>\<open>assert!\<close>-style guards: \<open>ensure\<close> bails with the given error.\<close>

definition ensure :: "bool \<Rightarrow> limbo_error \<Rightarrow> unit result" where
  "ensure c e = (if c then Inr () else Inl e)"

lemma ensure_True [simp]: "ensure True e = Inr ()"
  by (simp add: ensure_def)

lemma ensure_Inr_iff [simp]: "ensure c e = Inr u \<longleftrightarrow> c"
  by (simp add: ensure_def)

lemma ensure_Inl_iff [simp]: "ensure c e = Inl e' \<longleftrightarrow> \<not> c \<and> e' = e"
  by (auto simp: ensure_def)

section \<open>Slices and in-place writes\<close>

definition slice :: "'a list \<Rightarrow> nat \<Rightarrow> nat \<Rightarrow> 'a list" where
  "slice xs i n = take n (drop i xs)"

definition put :: "'a list \<Rightarrow> nat \<Rightarrow> 'a list \<Rightarrow> 'a list" where
  "put xs i ys = take i xs @ ys @ drop (i + length ys) xs"

lemma length_slice [simp]: "length (slice xs i n) = min n (length xs - i)"
  by (simp add: slice_def)

lemma length_put [simp]: "i + length ys \<le> length xs \<Longrightarrow> length (put xs i ys) = length xs"
  by (simp add: put_def)

lemma nth_slice [simp]: "k < n \<Longrightarrow> i + k < length xs \<Longrightarrow> slice xs i n ! k = xs ! (i + k)"
  by (simp add: slice_def)

lemma nth_put:
  assumes "i + length ys \<le> length xs" "k < length xs"
  shows "put xs i ys ! k = (if i \<le> k \<and> k < i + length ys then ys ! (k - i) else xs ! k)"
  using assms by (auto simp: put_def nth_append min_def)

lemma slice_eq_iff:
  assumes "i + n \<le> length xs" "j + n \<le> length ys"
  shows "slice xs i n = slice ys j n \<longleftrightarrow> (\<forall>k<n. xs ! (i + k) = ys ! (j + k))"
  using assms by (auto simp: list_eq_iff_nth_eq)

lemma slice_put_same [simp]:
  "i + length ys \<le> length xs \<Longrightarrow> n = length ys \<Longrightarrow> slice (put xs i ys) i n = ys"
  by (simp add: slice_def put_def)

lemma slice_put_disjoint:
  assumes "i + length ys \<le> length xs" "j + n \<le> i \<or> i + length ys \<le> j" "j + n \<le> length xs"
  shows "slice (put xs i ys) j n = slice xs j n"
  using assms by (auto simp: list_eq_iff_nth_eq nth_put)

lemma slice_put_inside:
  assumes "i + length ys \<le> length xs" "i \<le> j" "j + n \<le> i + length ys"
  shows "slice (put xs i ys) j n = slice ys (j - i) n"
  using assms by (auto simp: list_eq_iff_nth_eq nth_put)

lemma slice_slice:
  "j + m \<le> n \<Longrightarrow> slice (slice xs i n) j m = slice xs (i + j) m"
  by (simp add: slice_def drop_take min_def add.commute)

lemma slice_0_all [simp]: "length xs \<le> n \<Longrightarrow> slice xs 0 n = xs"
  by (simp add: slice_def)

lemma slice_append_left: "i + n \<le> length xs \<Longrightarrow> slice (xs @ ys) i n = slice xs i n"
  by (simp add: slice_def)

lemma slice_append_right:
  "i = length xs \<Longrightarrow> slice (xs @ ys) i n = slice ys 0 n"
  by (simp add: slice_def)

lemma slice_append: "slice xs i (m + n) = slice xs i m @ slice xs (i + m) n"
  by (simp add: slice_def take_add add.commute)

section \<open>Big-endian integers\<close>

text \<open>
  \<open>from_be_bytes\<close> and \<open>to_be_bytes\<close> of the unsigned integer types, on natural numbers:
  the value of a byte string of length \<open>n\<close> is below \<open>256 ^ n\<close>, and writing takes the
  value modulo \<open>256 ^ n\<close>, which is what an \<open>as u16\<close> or \<open>as u32\<close> cast does.
\<close>

fun be_to_nat :: "byte list \<Rightarrow> nat" where
  "be_to_nat [] = 0"
| "be_to_nat (b # bs) = unat b * 256 ^ length bs + be_to_nat bs"

fun nat_to_be :: "nat \<Rightarrow> nat \<Rightarrow> byte list" where
  "nat_to_be 0 x = []"
| "nat_to_be (Suc n) x = of_nat (x div 256 ^ n) # nat_to_be n x"

lemma length_nat_to_be [simp]: "length (nat_to_be n x) = n"
  by (induction n) auto

lemma unat_byte_bound [simp]: "unat (b :: byte) < 256"
  using unsigned_less[of b] by simp

lemma unat_u32_bound: "unat (v :: u32) < 2 ^ 32"
  using unsigned_less[of v, where 'a = nat] by simp

lemma unat_u64_bound: "unat (v :: u64) < 2 ^ 64"
  using unsigned_less[of v, where 'a = nat] by simp

lemma be_to_nat_bound: "be_to_nat bs < 256 ^ length bs"
proof (induction bs)
  case (Cons b bs)
  have "unat b * 256 ^ length bs + be_to_nat bs < (unat b + 1) * 256 ^ length bs"
    using Cons by simp
  also have "\<dots> \<le> 256 * 256 ^ length bs"
    using unat_byte_bound[of b] by (intro mult_le_mono1) linarith
  finally show ?case by simp
qed simp

lemma be_to_nat_append:
  "be_to_nat (xs @ ys) = be_to_nat xs * 256 ^ length ys + be_to_nat ys"
  by (induction xs) (auto simp: power_add algebra_simps)

lemma unat_of_nat_byte [simp]: "unat (of_nat x :: byte) = x mod 256"
  by (simp add: unat_of_nat)

lemma be_to_nat_nat_to_be [simp]: "be_to_nat (nat_to_be n x) = x mod 256 ^ n"
proof (induction n)
  case (Suc n)
  have "x mod (256 ^ n * 256) = 256 ^ n * (x div 256 ^ n mod 256) + x mod 256 ^ n"
    by (rule mod_mult2_eq)
  with Suc show ?case by (simp add: mult.commute)
qed simp

lemma nat_to_be_mod: "nat_to_be n (a * 256 ^ n + x) = nat_to_be n x"
proof (induction n arbitrary: a)
  case (Suc n)
  have "(x + (a * 256) * 256 ^ n) div 256 ^ n = a * 256 + x div 256 ^ n"
    by (rule div_mult_self1) simp
  then have "(a * 256 ^ Suc n + x) div 256 ^ n = a * 256 + x div 256 ^ n"
    by (simp add: ac_simps)
  moreover have "nat_to_be n (a * 256 ^ Suc n + x) = nat_to_be n x"
    using Suc[of "a * 256"] by (simp add: mult.assoc)
  moreover have "(of_nat (a * 256 + y) :: byte) = of_nat y" for y
    by (simp add: word_unat_eq_iff del: of_nat_add)
  ultimately show ?case by (simp del: of_nat_add)
qed simp

lemma nat_to_be_be_to_nat: "nat_to_be (length bs) (be_to_nat bs) = bs"
proof (induction bs)
  case (Cons b bs)
  have "be_to_nat bs div 256 ^ length bs = 0"
    using be_to_nat_bound by simp
  then show ?case
    using Cons nat_to_be_mod[of "length bs" "unat b" "be_to_nat bs"] by simp
qed simp

lemma be_to_nat_inject: "length xs = length ys \<Longrightarrow> be_to_nat xs = be_to_nat ys \<Longrightarrow> xs = ys"
  by (metis nat_to_be_be_to_nat)

end
