(* ===== verification/Varint.thy ===== *)
theory Varint
  imports Prelude
begin

text \<open>
  The variable-length integers of the file format, from \<open>core/storage/sqlite3_ondisk.rs\<close>:
  one to nine bytes, seven payload bits in each of the first eight bytes and eight bits in
  the ninth. The reader has three unrolled fast paths in front of its loop, a splitting
  variant, a length-only variant and a variant for partial input; the writer has its own
  fast paths. The lemmas relate all of them to the plain loop and to each other.
\<close>

section \<open>Reading\<close>

text \<open>
  The loop \<open>for i in 0..8\<close> followed by the ninth byte: \<open>k\<close> iterations are left, \<open>buf\<close>
  is the input from index \<open>i\<close> on, \<open>v\<close> the value so far.
\<close>

fun read_varint_loop :: "nat \<Rightarrow> byte list \<Rightarrow> nat \<Rightarrow> u64 \<Rightarrow> (u64 \<times> nat) result" where
  "read_varint_loop 0 buf i v =
     (case buf of
        [] \<Rightarrow> Inl Corrupt
      | c # _ \<Rightarrow> if drop_bit 48 v = 0 then Inl Corrupt
                 else Inr (push_bit 8 v + ucast c, i + 1))"
| "read_varint_loop (Suc k) buf i v =
     (case buf of
        [] \<Rightarrow> Inl Corrupt
      | c # bs \<Rightarrow>
          let v' = push_bit 7 v + ucast (c AND 0x7f)
          in if c AND 0x80 = 0 then Inr (v', i + 1) else read_varint_loop k bs (i + 1) v')"

definition read_varint :: "byte list \<Rightarrow> (u64 \<times> nat) result" where
  "read_varint buf =
     (if 1 \<le> length buf \<and> buf ! 0 < 0x80 then Inr (ucast (buf ! 0), 1)
      else if 2 \<le> length buf \<and> buf ! 1 < 0x80 then
        Inr (push_bit 7 (ucast (buf ! 0 AND 0x7f)) OR ucast (buf ! 1), 2)
      else if 3 \<le> length buf \<and> buf ! 2 < 0x80 then
        Inr ((push_bit 14 (ucast (buf ! 0 AND 0x7f)) OR push_bit 7 (ucast (buf ! 1 AND 0x7f)))
             OR ucast (buf ! 2), 3)
      else read_varint_loop 8 buf 0 0)"

definition split_varint :: "byte list \<Rightarrow> (u64 \<times> byte list) result" where
  "split_varint buf =
     (if 1 \<le> length buf \<and> buf ! 0 < 0x80 then Inr (ucast (buf ! 0), drop 1 buf)
      else if 2 \<le> length buf \<and> buf ! 1 < 0x80 then
        Inr (push_bit 7 (ucast (buf ! 0 AND 0x7f)) OR ucast (buf ! 1), drop 2 buf)
      else and_then (read_varint buf) (\<lambda>(value, len). Inr (value, drop len buf)))"

definition read_varint_len_long :: "byte list \<Rightarrow> nat result" where
  "read_varint_len_long buf = and_then (read_varint buf) (\<lambda>(_, len). Inr len)"

definition read_varint_len :: "byte list \<Rightarrow> nat result" where
  "read_varint_len buf =
     (if 1 \<le> length buf \<and> buf ! 0 < 0x80 then Inr 1
      else if 2 \<le> length buf \<and> buf ! 1 < 0x80 then Inr 2
      else if 3 \<le> length buf \<and> buf ! 2 < 0x80 then Inr 3
      else read_varint_len_long buf)"

fun read_varint_partial_loop ::
    "nat \<Rightarrow> byte list \<Rightarrow> nat \<Rightarrow> u64 \<Rightarrow> (u64 \<times> nat) option result" where
  "read_varint_partial_loop 0 buf i v =
     (case buf of
        [] \<Rightarrow> Inr None
      | c # _ \<Rightarrow> if drop_bit 48 v = 0 then Inl Corrupt
                 else Inr (Some (push_bit 8 v + ucast c, i + 1)))"
| "read_varint_partial_loop (Suc k) buf i v =
     (case buf of
        [] \<Rightarrow> Inr None
      | c # bs \<Rightarrow>
          let v' = push_bit 7 v + ucast (c AND 0x7f)
          in if c AND 0x80 = 0 then Inr (Some (v', i + 1))
             else read_varint_partial_loop k bs (i + 1) v')"

definition read_varint_partial :: "byte list \<Rightarrow> (u64 \<times> nat) option result" where
  "read_varint_partial buf = read_varint_partial_loop 8 buf 0 0"

section \<open>Writing\<close>

text \<open>\<open>64 - value.leading_zeros()\<close> is the number of significant bits.\<close>

fun bit_width :: "nat \<Rightarrow> nat" where
  "bit_width n = (if n = 0 then 0 else Suc (bit_width (n div 2)))"

declare bit_width.simps [simp del]

definition leading_zeros :: "u64 \<Rightarrow> nat" where
  "leading_zeros v = 64 - bit_width (unat v)"

definition div_ceil :: "nat \<Rightarrow> nat \<Rightarrow> nat" where
  "div_ceil a b = (a + b - 1) div b"

definition varint_len :: "u64 \<Rightarrow> nat" where
  "varint_len v =
     (if v \<le> 0x7f then 1
      else if v > push_bit 56 1 - 1 then 9
      else let bits = 64 - leading_zeros v in div_ceil bits 7)"

text \<open>The groups of the general case, least significant first (the array \<open>encoded\<close>).\<close>

function varint_groups :: "u64 \<Rightarrow> byte list" where
  "varint_groups bytes =
     (if bytes = 0 then []
      else ucast (0x80 OR (bytes AND 0x7f)) # varint_groups (drop_bit 7 bytes))"
  by pat_completeness auto
termination
proof (relation "measure unat")
  fix v :: u64
  assume "v \<noteq> 0"
  then have "unat v \<noteq> 0" by (simp add: unat_eq_zero)
  moreover have "unat (drop_bit 7 v) = unat v div 128"
    by (simp only: unat_drop_bit_eq) (simp add: drop_bit_eq_div)
  ultimately show "(drop_bit 7 v, v) \<in> measure unat" by simp
qed simp

declare varint_groups.simps [simp del]

text \<open>The loop \<open>for i in (0..8).rev()\<close> of the nine-byte case.\<close>

fun write_nine_loop :: "nat \<Rightarrow> u64 \<Rightarrow> byte list" where
  "write_nine_loop 0 v = []"
| "write_nine_loop (Suc i) v =
     write_nine_loop i (drop_bit 7 v) @ [ucast ((v AND 0x7f) OR 0x80)]"

text \<open>The bytes that \<open>write_varint\<close> stores at the front of its buffer.\<close>

definition encode_varint :: "u64 \<Rightarrow> byte list" where
  "encode_varint v =
     (if v \<le> 0x7f then [ucast (v AND 0x7f)]
      else if v \<le> 0x3fff then
        [ucast ((drop_bit 7 v AND 0x7f) OR 0x80), ucast (v AND 0x7f)]
      else if v AND push_bit 32 0xff000000 > 0 then
        write_nine_loop 8 (drop_bit 8 v) @ [ucast v]
      else let encoded = varint_groups v
           in rev (encoded[0 := encoded ! 0 AND 0x7f]))"

definition write_varint :: "byte list \<Rightarrow> u64 \<Rightarrow> (byte list \<times> nat) result" where
  "write_varint buf v =
     (let enc = encode_varint v
      in if length enc \<le> length buf then Inr (put buf 0 enc, length enc) else Inl Panic)"

definition write_varint_to_vec :: "u64 \<Rightarrow> byte list \<Rightarrow> byte list result" where
  "write_varint_to_vec v payload =
     and_then (write_varint (replicate 9 0) v)
       (\<lambda>(varint, n). Inr (payload @ slice varint 0 n))"

section \<open>Bit-level facts\<close>

lemma byte_and_7f: "(c :: byte) AND 0x7f = take_bit 7 c"
  by (simp add: take_bit_eq_mask mask_eq_exp_minus_1)

lemma byte_and_80_iff: "(c :: byte) AND 0x80 = 0 \<longleftrightarrow> c < 0x80"
proof -
  have "c AND 2 ^ 7 = 0 \<longleftrightarrow> \<not> bit c 7"
    by (rule and_exp_eq_0_iff_not_bit)
  also have "bit c 7 \<longleftrightarrow> bit (unat c) 7"
    by (simp add: bit_unsigned_iff)
  also have "bit (unat c) 7 \<longleftrightarrow> odd (unat c div 2 ^ 7)"
    by (rule bit_iff_odd)
  also have "\<not> odd (unat c div 2 ^ 7) \<longleftrightarrow> unat c < 128"
    using unat_byte_bound[of c] div_nat_eqI[of 128 1 "unat c"] by (cases "unat c < 128") auto
  finally show ?thesis by (simp add: word_less_nat_alt)
qed

lemma u64_and_7f: "(v :: u64) AND 0x7f = take_bit 7 v"
  by (simp add: take_bit_eq_mask mask_eq_exp_minus_1)

lemma bit_byte_80: "bit (0x80 :: byte) k \<longleftrightarrow> k = 7"
proof -
  have "(0x80 :: byte) = 2 ^ 7" by simp
  then show ?thesis by (simp only: bit_exp_iff) (auto simp: possible_bit_def)
qed

lemma ucast_or_80: "ucast (0x80 OR w :: u64) = (0x80 OR ucast w :: byte)"
  by (simp add: unsigned_or_eq)

lemma ucast_take_bit_7: "ucast (take_bit 7 w :: u64) = (take_bit 7 (ucast w) :: byte)"
  by (rule bit_word_eqI) (auto simp: bit_simps)

lemma continuation_payload: "(0x80 OR take_bit 7 w) AND 0x7f = take_bit 7 (w :: byte)"
  unfolding byte_and_7f by (rule bit_word_eqI) (auto simp: bit_simps bit_byte_80 bit_or_iff)

lemma continuation_flag: "(0x80 OR w) AND 0x80 \<noteq> (0 :: byte)"
proof -
  have "bit ((0x80 OR w) AND 0x80) 7" by (simp add: bit_and_iff bit_or_iff bit_byte_80)
  then show ?thesis by (metis bit_0_eq bot_apply bot_bool_def)
qed

section \<open>The loop as a fold\<close>

definition varint_step :: "u64 \<Rightarrow> byte \<Rightarrow> u64" where
  "varint_step v c = push_bit 7 v + ucast (c AND 0x7f)"

lemma read_varint_loop_run:
  assumes "list_all (\<lambda>c. c AND 0x80 \<noteq> 0) cs" "l AND 0x80 = 0" "length cs < k"
  shows "read_varint_loop k (cs @ l # rest) i v =
           Inr (foldl varint_step v (cs @ [l]), i + length cs + 1)"
  using assms
proof (induction cs arbitrary: k i v)
  case Nil
  then obtain k' where "k = Suc k'" by (cases k) auto
  with Nil show ?case by (simp add: varint_step_def)
next
  case (Cons c cs)
  then obtain k' where "k = Suc k'" by (cases k) auto
  with Cons show ?case by (simp add: varint_step_def)
qed

lemma read_varint_loop_nine:
  assumes "list_all (\<lambda>c. c AND 0x80 \<noteq> 0) cs" "length cs = k"
  shows "read_varint_loop k (cs @ l # rest) i v =
           (if drop_bit 48 (foldl varint_step v cs) = 0 then Inl Corrupt
            else Inr (push_bit 8 (foldl varint_step v cs) + ucast l, i + k + 1))"
  using assms
  by (induction cs arbitrary: k i v) (auto simp: varint_step_def)

lemma varint_step_group:
  "varint_step (drop_bit 7 v) (ucast (0x80 OR (v AND 0x7f))) = v"
  "varint_step (drop_bit 7 v) (ucast (v AND 0x7f)) = v"
proof -
  have t: "ucast (take_bit 7 (ucast v :: byte)) = take_bit 7 v"
    by (rule bit_word_eqI) (auto simp: bit_simps)
  show "varint_step (drop_bit 7 v) (ucast (0x80 OR (v AND 0x7f))) = v"
    by (simp only: varint_step_def u64_and_7f ucast_or_80 ucast_take_bit_7 continuation_payload t
        bits_ident)
  have "take_bit 7 (take_bit 7 (ucast v :: byte)) = take_bit 7 (ucast v)" by simp
  then show "varint_step (drop_bit 7 v) (ucast (v AND 0x7f)) = v"
    by (simp only: varint_step_def u64_and_7f ucast_take_bit_7 byte_and_7f t bits_ident)
qed

lemma foldl_varint_groups: "foldl varint_step 0 (rev (varint_groups v)) = v"
proof (induction v rule: varint_groups.induct)
  case (1 v)
  show ?case
  proof (cases "v = 0")
    case False
    with 1 show ?thesis
      by (subst varint_groups.simps) (simp add: varint_step_group)
  qed (simp add: varint_groups.simps)
qed

lemma foldl_write_nine_loop:
  "unat v < 2 ^ (7 * n) \<Longrightarrow> foldl varint_step 0 (write_nine_loop n v) = v"
proof (induction n arbitrary: v)
  case 0
  then show ?case by (simp add: unat_eq_zero)
next
  case (Suc n)
  have "unat (drop_bit 7 v) = unat v div 128"
    by (simp only: unat_drop_bit_eq) (simp add: drop_bit_eq_div)
  also have "\<dots> < 2 ^ (7 * n)"
    using Suc.prems by (simp add: less_mult_imp_div_less power_add mult.commute)
  finally show ?case
    using Suc.IH[of "drop_bit 7 v"] varint_step_group(1)[of v] by (simp add: or.commute)
qed

lemma write_nine_loop_continues: "list_all (\<lambda>c. c AND 0x80 \<noteq> 0) (write_nine_loop n v)"
  by (induction n arbitrary: v) (auto simp: or.commute[of _ "0x80"] ucast_or_80 continuation_flag)

lemma varint_groups_continue: "list_all (\<lambda>c. c AND 0x80 \<noteq> 0) (varint_groups v)"
proof (induction v rule: varint_groups.induct)
  case (1 v)
  then show ?case by (subst varint_groups.simps) (simp add: ucast_or_80 continuation_flag)
qed

section \<open>Lengths\<close>

lemma bit_width_div2: "bit_width (n div 2) = bit_width n - 1"
  by (simp add: bit_width.simps[of n]) (simp add: bit_width.simps[of 0])

lemma bit_width_div128: "bit_width (n div 128) = bit_width n - 7"
proof -
  have "n div 128 = n div 2 div 2 div 2 div 2 div 2 div 2 div 2"
    by (simp add: div_mult2_eq[symmetric])
  then show ?thesis by (simp add: bit_width_div2, arith)
qed

lemma bit_width_le: "n < 2 ^ k \<Longrightarrow> bit_width n \<le> k"
proof (induction k arbitrary: n)
  case 0
  then show ?case by (simp add: bit_width.simps)
next
  case (Suc k)
  then have "bit_width (n div 2) \<le> k" by auto
  then show ?case by (simp add: bit_width_div2)
qed

lemma bit_width_gt: "2 ^ k \<le> n \<Longrightarrow> k < bit_width n"
proof (induction k arbitrary: n)
  case 0
  then show ?case by (simp add: bit_width.simps[of n])
next
  case (Suc k)
  then have "k < bit_width (n div 2)" by auto
  then show ?case by (simp add: bit_width_div2)
qed

lemma unat_drop_bit_7: "unat (drop_bit 7 (v :: u64)) = unat v div 128"
  by (simp only: unat_drop_bit_eq) (simp add: drop_bit_eq_div)

lemma length_varint_groups: "length (varint_groups v) = div_ceil (bit_width (unat v)) 7"
proof (induction v rule: varint_groups.induct)
  case (1 v)
  show ?case
  proof (cases "v = 0")
    case True
    then show ?thesis by (simp add: varint_groups.simps bit_width.simps div_ceil_def)
  next
    case False
    then have "0 < bit_width (unat v)"
      by (simp add: bit_width.simps[of "unat v"] unat_eq_zero)
    then have "Suc ((bit_width (unat v) - 7 + 7 - 1) div 7) = (bit_width (unat v) + 7 - 1) div 7"
      by (cases "bit_width (unat v) < 7") (auto simp: div_nat_eqI le_div_geq)
    with False 1 show ?thesis
      by (subst varint_groups.simps) (simp add: unat_drop_bit_7 bit_width_div128 div_ceil_def)
  qed
qed

lemma nine_byte_mask: "(v :: u64) AND push_bit 32 0xff000000 > 0 \<longleftrightarrow> 2 ^ 56 \<le> unat v"
proof -
  have m: "push_bit 32 0xff000000 = (push_bit 56 (mask 8) :: u64)"
    by (simp add: mask_eq_exp_minus_1 push_bit_eq_mult)
  have e: "v AND push_bit 56 (mask 8) = push_bit 56 (drop_bit 56 v)"
    by (rule bit_word_eqI) (auto simp: bit_simps dest: bit_imp_le_length)
  have d: "drop_bit 56 (push_bit 56 (drop_bit 56 v)) = drop_bit 56 v"
    by (rule bit_word_eqI) (auto simp: bit_simps dest: bit_imp_le_length)
  have "v AND push_bit 32 0xff000000 > 0 \<longleftrightarrow> drop_bit 56 v \<noteq> 0"
    unfolding m e using d by (metis drop_bit_of_0 push_bit_of_0 word_neq_0_conv)
  also have "\<dots> \<longleftrightarrow> unat v div 2 ^ 56 \<noteq> 0"
    by (simp only: unat_drop_bit_eq word_unat_eq_iff) (simp add: drop_bit_eq_div)
  also have "\<dots> \<longleftrightarrow> 2 ^ 56 \<le> unat v"
    by (simp add: div_eq_0_iff not_less)
  finally show ?thesis .
qed

section \<open>The reader against the loop, the writer against the reader\<close>

lemma take_bit_7_final: "take_bit 7 (w :: byte) AND 0x80 = 0"
proof (rule bit_word_eqI)
  fix n
  show "bit (take_bit 7 w AND 0x80) n = bit 0 n"
    by (simp only: bit_and_iff bit_take_bit_iff bit_byte_80) simp
qed

lemma take_bit_7_self: "(b::byte) < 0x80 \<Longrightarrow> take_bit 7 b = b"
  by (simp add: word_less_nat_alt word_unat_eq_iff unsigned_take_bit_eq take_bit_nat_eq_self)
lemma or_eq_plus_7: "(b::byte) < 0x80 \<Longrightarrow> push_bit 7 (v::u64) OR ucast b = push_bit 7 v + ucast b"
proof (rule disjunctive_add_eq_or[symmetric])
  assume "b < 0x80"
  then have "take_bit 7 b = b" by (rule take_bit_7_self)
  then have "\<not> bit b n" if "n \<ge> 7" for n using that by (metis bit_take_bit_iff not_le)
  then show "push_bit 7 v AND ucast b = 0"
    by (intro bit_word_eqI) (auto simp: bit_simps not_le)
qed
lemma or_eq_plus_14: "push_bit 14 (ucast (b0 AND 0x7f)) OR push_bit 7 (ucast (b1 AND 0x7f :: byte) :: u64)
   = push_bit 7 (push_bit 7 (ucast (b0 AND 0x7f)) + ucast (b1 AND 0x7f))"
proof -
  have "(b1 AND 0x7f) < 0x80" 
    by (simp add: byte_and_7f take_bit_7_final flip: byte_and_80_iff)
  from or_eq_plus_7[OF this, symmetric] show ?thesis by (simp add: push_bit_or push_bit_push_bit)
qed

lemma read_varint_is_loop: "read_varint buf = read_varint_loop 8 buf 0 0"
proof -
  have two: "varint_step (varint_step 0 b0) b1 = push_bit 7 (ucast (b0 AND 0x7f)) OR ucast b1"
    if "b1 < 0x80" for b0 b1
    using that by (simp add: varint_step_def or_eq_plus_7 byte_and_7f take_bit_7_self)
  have three: "varint_step (varint_step (varint_step 0 b0) b1) b2 =
      (push_bit 14 (ucast (b0 AND 0x7f)) OR push_bit 7 (ucast (b1 AND 0x7f))) OR ucast b2"
    if "b2 < 0x80" for b0 b1 b2
    unfolding or_eq_plus_14 using that by (simp add: varint_step_def or_eq_plus_7 byte_and_7f take_bit_7_self)
  show ?thesis
  proof (cases "1 \<le> length buf \<and> buf ! 0 < 0x80")
    case True
    then obtain b bs where "buf = b # bs" by (cases buf) auto
    with True show ?thesis
      using read_varint_loop_run[of "[]" b 8 bs 0 0]
      by (simp add: read_varint_def byte_and_80_iff varint_step_def byte_and_7f take_bit_7_self)
  next
    case n1: False
    show ?thesis
    proof (cases "2 \<le> length buf \<and> buf ! 1 < 0x80")
      case True
      then obtain b0 b1 bs where "buf = b0 # b1 # bs"
        by (cases buf; cases "tl buf") auto
      with True n1 show ?thesis
        using read_varint_loop_run[of "[b0]" b1 8 bs 0 0] two[of b1 b0]
        by (simp add: read_varint_def byte_and_80_iff)
    next
      case n2: False
      show ?thesis
      proof (cases "3 \<le> length buf \<and> buf ! 2 < 0x80")
        case True
        then obtain b0 b1 b2 bs where "buf = b0 # b1 # b2 # bs"
          by (cases buf; cases "tl buf"; cases "tl (tl buf)") auto
        with True n1 n2 show ?thesis
          using read_varint_loop_run[of "[b0, b1]" b2 8 bs 0 0] three[of b2 b0 b1]
          by (simp add: read_varint_def byte_and_80_iff)
      next
        case False
        with n1 n2 show ?thesis by (auto simp: read_varint_def)
      qed
    qed
  qed
qed

lemma encode_varint_short:
  assumes "unat v < 2 ^ 56"
  shows "\<exists>cs l. encode_varint v = cs @ [l] \<and> list_all (\<lambda>c. c AND 0x80 \<noteq> 0) cs \<and> l AND 0x80 = 0
           \<and> length cs < 8 \<and> foldl varint_step 0 (cs @ [l]) = v"
proof -
  have d7: "drop_bit 7 w = 0" if "unat w < 128" for w :: u64
    using that by (simp add: word_unat_eq_iff unat_drop_bit_7)
  have fin: "ucast (w AND 0x7f) AND (0x80 :: byte) = 0" for w :: u64
    by (simp add: u64_and_7f ucast_take_bit_7 take_bit_7_final)
  consider "v \<le> 0x7f" | "\<not> v \<le> 0x7f" "v \<le> 0x3fff" | "\<not> v \<le> 0x3fff" by blast
  then show ?thesis
  proof cases
    case 1
    then have "drop_bit 7 v = 0" by (intro d7) (simp add: word_le_nat_alt)
    then show ?thesis
      using 1 varint_step_group(2)[of v] fin by (intro exI[of _ "[]"]) (simp add: encode_varint_def)
  next
    case 2
    have z: "drop_bit 7 (drop_bit 7 v) = 0"
      using 2(2) by (intro d7) (simp add: word_le_nat_alt unat_drop_bit_7 less_mult_imp_div_less)
    have "varint_step 0 (ucast ((drop_bit 7 v AND 0x7f) OR 0x80)) = drop_bit 7 v"
      using varint_step_group(1)[of "drop_bit 7 v"] z by (simp add: or.commute)
    then show ?thesis
      using 2 varint_step_group(2)[of v] fin
      by (intro exI[of _ "[ucast ((drop_bit 7 v AND 0x7f) OR 0x80)]"])
        (simp add: encode_varint_def or.commute[of _ "0x80"] ucast_or_80 continuation_flag)
  next
    case 3
    have nz: "v \<noteq> 0" using 3 by auto
    have "\<not> v \<le> 0x7f" using 3 by (auto simp: word_le_nat_alt)
    let ?l = "ucast (0x80 OR (v AND 0x7f)) AND 0x7f :: byte"
    have g: "varint_groups v = ucast (0x80 OR (v AND 0x7f)) # varint_groups (drop_bit 7 v)"
      using nz by (subst varint_groups.simps) simp
    have enc: "encode_varint v = rev (varint_groups (drop_bit 7 v)) @ [?l]"
      using 3 \<open>\<not> v \<le> 0x7f\<close> assms nine_byte_mask[of v] by (simp add: encode_varint_def g)
    have "length (varint_groups v) \<le> 8"
      using bit_width_le[OF assms] by (simp add: length_varint_groups div_ceil_def) 
    then have len: "length (varint_groups (drop_bit 7 v)) < 8" by (simp add: g)
    have "varint_step w ?l = varint_step w (ucast (0x80 OR (v AND 0x7f)))" for w
      by (simp add: varint_step_def byte_and_7f)
    then have "foldl varint_step 0 (rev (varint_groups (drop_bit 7 v)) @ [?l]) = v"
      using foldl_varint_groups[of v] by (simp add: g)
    moreover have "?l AND 0x80 = 0" by (simp add: byte_and_7f take_bit_7_final)
    ultimately show ?thesis
      using enc len varint_groups_continue[of "drop_bit 7 v"]
      by (intro exI[of _ "rev (varint_groups (drop_bit 7 v))"] exI[of _ ?l]) (simp add: list_all_iff)
  qed
qed

lemma encode_varint_long:
  assumes "2 ^ 56 \<le> unat v"
  shows "encode_varint v = write_nine_loop 8 (drop_bit 8 v) @ [ucast v]"
proof -
  have "\<not> v \<le> 0x7f" "\<not> v \<le> 0x3fff" using assms by (auto simp: word_le_nat_alt)
  with assms show ?thesis using nine_byte_mask[of v] by (simp add: encode_varint_def)
qed

lemma length_write_nine_loop [simp]: "length (write_nine_loop n v) = n"
  by (induction n arbitrary: v) auto

lemma read_encode_varint:
  "read_varint (encode_varint v @ rest) = Inr (v, length (encode_varint v))"
proof (cases "unat v < 2 ^ 56")
  case True
  then obtain cs l where "encode_varint v = cs @ [l]" "list_all (\<lambda>c. c AND 0x80 \<noteq> 0) cs"
    "l AND 0x80 = 0" "length cs < 8" "foldl varint_step 0 (cs @ [l]) = v"
    using encode_varint_short by blast
  then show ?thesis
    using read_varint_loop_run[of cs l 8 rest 0 0] by (simp add: read_varint_is_loop)
next
  case False
  have u: "unat (drop_bit 8 v) = unat v div 2 ^ 8"
    by (simp only: unat_drop_bit_eq) (simp add: drop_bit_eq_div)
  have f: "foldl varint_step 0 (write_nine_loop 8 (drop_bit 8 v)) = drop_bit 8 v"
    using unat_u64_bound[of v] u by (intro foldl_write_nine_loop) (simp add: less_mult_imp_div_less)
  have "unat (drop_bit 48 (drop_bit 8 v)) = unat v div 2 ^ 8 div 2 ^ 48"
    by (simp only: unat_drop_bit_eq) (simp add: drop_bit_eq_div)
  also have "\<dots> \<noteq> 0"
    using False by (simp add: div_mult2_eq[symmetric] div_eq_0_iff)
  finally have nz: "drop_bit 48 (drop_bit 8 v) \<noteq> 0" by (auto simp: word_unat_eq_iff)
  have "ucast (ucast v :: byte) = take_bit 8 v"
    by (rule bit_word_eqI) (auto simp: bit_simps)
  then have "push_bit 8 (drop_bit 8 v) + ucast (ucast v :: byte) = v"
    by (simp add: bits_ident)
  then show ?thesis
    using False f nz encode_varint_long[of v] write_nine_loop_continues
      read_varint_loop_nine[of "write_nine_loop 8 (drop_bit 8 v)" 8 "ucast v" rest 0 0]
    by (simp add: read_varint_is_loop del: write_nine_loop.simps)
qed

lemma varint_len_cases:
  "varint_len v = (if unat v < 128 then 1 else if 2 ^ 56 \<le> unat v then 9
                   else div_ceil (bit_width (unat v)) 7)"
proof -
  have "64 - leading_zeros v = bit_width (unat v)"
    using bit_width_le[of "unat v" 64] unat_u64_bound[of v] by (simp add: leading_zeros_def)
  moreover have "v > push_bit 56 1 - 1 \<longleftrightarrow> 2 ^ 56 \<le> unat v"
    by (simp add: word_less_nat_alt, arith)
  moreover have "v \<le> 0x7f \<longleftrightarrow> unat v < 128"
    by (simp add: word_le_nat_alt, arith)
  ultimately show ?thesis by (simp add: varint_len_def)
qed

lemma length_encode_varint: "length (encode_varint v) = varint_len v"
proof -
  show ?thesis
  proof (cases "unat v < 2 ^ 56")
    case False
    then show ?thesis
      using encode_varint_long[of v] by (simp add: varint_len_cases)
  next
    case small: True
    consider "v \<le> 0x7f" | "\<not> v \<le> 0x7f" "v \<le> 0x3fff" | "\<not> v \<le> 0x3fff" by blast
    then show ?thesis
    proof cases
      case 1
      then show ?thesis by (simp add: encode_varint_def varint_len_cases word_le_nat_alt)
    next
      case 2
      have "7 < bit_width (unat v)" "bit_width (unat v) \<le> 14"
        using 2 bit_width_gt[of 7 "unat v"] bit_width_le[of "unat v" 14]
        by (auto simp: word_le_nat_alt)
      then have "div_ceil (bit_width (unat v)) 7 = 2"
        by (auto simp: div_ceil_def intro!: div_nat_eqI)
      with 2 small show ?thesis by (simp add: encode_varint_def varint_len_cases word_le_nat_alt)
    next
      case 3
      moreover have "\<not> v \<le> 0x7f" using 3 by (auto simp: word_le_nat_alt)
      ultimately show ?thesis
        using small nine_byte_mask[of v]
        by (simp add: encode_varint_def varint_len_cases length_varint_groups word_le_nat_alt Let_def)
    qed
  qed
qed
lemma split_varint_eq:
  "split_varint buf = and_then (read_varint buf) (\<lambda>(v, n). Inr (v, drop n buf))"
  by (auto simp: split_varint_def read_varint_def)

lemma read_varint_len_eq:
  "read_varint_len buf = and_then (read_varint buf) (\<lambda>(v, n). Inr n)"
  by (auto simp: read_varint_len_def read_varint_len_long_def read_varint_def)

lemma read_varint_partial_loop_eq:
  "case read_varint_partial_loop k buf i v of
     Inl e \<Rightarrow> read_varint_loop k buf i v = Inl e
   | Inr None \<Rightarrow> read_varint_loop k buf i v = Inl Corrupt \<and> length buf \<le> k
   | Inr (Some r) \<Rightarrow> read_varint_loop k buf i v = Inr r"
proof (induction k arbitrary: buf i v)
  case (Suc k)
  show ?case
  proof (cases buf)
    case (Cons c bs)
    then show ?thesis
      using Suc[of bs "i + 1" "push_bit 7 v + ucast (c AND 0x7f)"]
      by (auto simp: Let_def split: sum.splits option.splits)
  qed auto
qed (auto split: list.splits)

lemma varint_step_bound:
  assumes "unat v < 2 ^ m"
  shows "unat (varint_step v c) < 2 ^ (m + 7)"
proof -
  have "unat (ucast (c AND 0x7f) :: u64) \<le> 127"
    by (simp add: byte_and_7f unsigned_ucast_eq unsigned_take_bit_eq)
       (simp add: take_bit_eq_mod)
  moreover have "unat (push_bit 7 v) \<le> unat v * 128"
    by (simp add: push_bit_eq_mult unat_word_ariths)
  moreover have "unat (varint_step v c) \<le> unat (push_bit 7 v) + unat (ucast (c AND 0x7f) :: u64)"
    by (simp add: varint_step_def unat_word_ariths)
  moreover have "unat v * 128 + 128 \<le> 2 ^ m * 128" using assms by linarith
  ultimately show ?thesis by (simp add: power_add)
qed

lemma read_varint_loop_bound:
  "read_varint_loop k buf i v = Inr (w, n) \<Longrightarrow> i + k = 8 \<Longrightarrow> unat v < 2 ^ (7 * i) \<Longrightarrow>
     n \<le> i + length buf \<and> n \<le> 9 \<and> i < n \<and> (n < 9 \<longrightarrow> unat w < 2 ^ (7 * n))"
proof (induction k arbitrary: buf i v)
  case 0
  then show ?case by (auto split: list.splits if_splits)
next
  case (Suc k)
  then obtain c bs where buf: "buf = c # bs" by (cases buf) auto
  have b: "unat (varint_step v c) < 2 ^ (7 * (i + 1))"
    using varint_step_bound[OF Suc.prems(3), of c] by (simp add: add.commute)
  show ?case
  proof (cases "c AND 0x80 = 0")
    case True
    with Suc.prems buf b show ?thesis by (auto simp: varint_step_def)
  next
    case False
    with Suc.prems(1) buf have "read_varint_loop k bs (i + 1) (varint_step v c) = Inr (w, n)"
      by (simp add: varint_step_def)
    from Suc.IH[OF this _ b] Suc.prems(2) buf show ?thesis by auto
  qed
qed

lemma varint_len_le:
  assumes "unat w < 2 ^ (7 * n)" "0 < n" "n \<le> 8"
  shows "varint_len w \<le> n"
proof -
  have "(2 :: nat) ^ (7 * n) \<le> 2 ^ 56" using assms(3) by (intro power_increasing) auto
  moreover have "bit_width (unat w) \<le> 7 * n" using assms(1) by (rule bit_width_le)
  then have "div_ceil (bit_width (unat w)) 7 \<le> n" by (simp add: div_ceil_def)
  ultimately show ?thesis using assms by (simp add: varint_len_cases)
qed

lemma read_varint_errors: "read_varint buf = Inl e \<Longrightarrow> e = Corrupt"
proof -
  have "read_varint_loop k bs i v = Inl e \<Longrightarrow> e = Corrupt" for k bs i v
    by (induction k arbitrary: bs i v) (auto simp: Let_def split: list.splits if_splits)
  then show "read_varint buf = Inl e \<Longrightarrow> e = Corrupt" by (auto simp: read_varint_is_loop)
qed

lemma read_varint_bounds:
  assumes "read_varint buf = Inr (w, n)"
  shows "0 < n" "n \<le> 9" "n \<le> length buf" "varint_len w \<le> n"
proof -
  have *: "n \<le> length buf \<and> n \<le> 9 \<and> 0 < n \<and> (n < 9 \<longrightarrow> unat w < 2 ^ (7 * n))"
    using read_varint_loop_bound[of 8 buf 0 0 w n] assms by (simp add: read_varint_is_loop)
  then show "0 < n" "n \<le> 9" "n \<le> length buf" by auto
  have "varint_len w \<le> 9"
    using varint_len_le[of w 8] by (cases "unat w < 2 ^ 56") (auto simp: varint_len_cases)
  then show "varint_len w \<le> n"
    using * varint_len_le[of w n] by (cases "n < 9") auto
qed

section \<open>Properties\<close>

text \<open>
  C10. What \<open>write_varint\<close> stores in a buffer of at least nine bytes, \<open>read_varint\<close> reads
  back with the same length, which is \<open>varint_len\<close>; the bytes behind the varint are
  untouched.
\<close>

theorem varint_roundtrip:
  assumes "9 \<le> length buf"
  shows "\<exists>buf'. write_varint buf v = Inr (buf', varint_len v) \<and>
           read_varint buf' = Inr (v, varint_len v) \<and>
           length buf' = length buf \<and> drop (varint_len v) buf' = drop (varint_len v) buf"
proof -
  have "varint_len v \<le> 9"
    using read_varint_bounds(2)[OF read_encode_varint[of v "[]"]] by (simp add: length_encode_varint)
  with assms have le: "length (encode_varint v) \<le> length buf" by (simp add: length_encode_varint)
  let ?buf = "put buf 0 (encode_varint v)"
  have "write_varint buf v = Inr (?buf, varint_len v)"
    using le by (simp add: write_varint_def Let_def length_encode_varint)
  moreover have "read_varint ?buf = Inr (v, varint_len v)"
    using read_encode_varint by (simp add: put_def length_encode_varint)
  moreover have "drop (varint_len v) ?buf = drop (varint_len v) buf"
    by (simp add: put_def flip: length_encode_varint)
  ultimately show ?thesis using le by simp
qed

theorem varint_roundtrip_witness:
  "\<exists>buf'. write_varint (replicate 9 0) 300 = Inr (buf', varint_len 300) \<and>
     read_varint buf' = Inr (300, varint_len 300) \<and>
     length buf' = length (replicate 9 (0 :: byte)) \<and>
     drop (varint_len 300) buf' = drop (varint_len 300) (replicate 9 0)"
  by (rule varint_roundtrip) simp

text \<open>
  C21. The specialised readers agree with \<open>read_varint\<close>: \<open>split_varint\<close> returns the rest
  of the input, \<open>read_varint_len\<close> the length alone, and \<open>read_varint_partial\<close> asks for
  more input only when the nine-byte bound is not reached and \<open>read_varint\<close> fails.
\<close>

theorem varint_readers_agree:
  "split_varint buf = and_then (read_varint buf) (\<lambda>(v, n). Inr (v, drop n buf)) \<and>
   read_varint_len buf = and_then (read_varint buf) (\<lambda>(v, n). Inr n) \<and>
   (case read_varint_partial buf of
      Inl e \<Rightarrow> read_varint buf = Inl e
    | Inr None \<Rightarrow> read_varint buf = Inl Corrupt \<and> length buf \<le> 8
    | Inr (Some r) \<Rightarrow> read_varint buf = Inr r)"
  by (intro conjI split_varint_eq read_varint_len_eq)
    (unfold read_varint_partial_def read_varint_is_loop, rule read_varint_partial_loop_eq)

text \<open>
  C25. A successful read consumes between one and nine bytes of the input, and the writer's
  encoding of the value is never longer than what was read: \<open>write_varint\<close> is a shortest
  encoding.
\<close>

theorem read_varint_shortest:
  assumes "read_varint buf = Inr (v, n)"
  shows "0 < n \<and> n \<le> 9 \<and> n \<le> length buf \<and> length (encode_varint v) \<le> n"
  using read_varint_bounds[OF assms] by (simp add: length_encode_varint)

theorem read_varint_shortest_witness:
  "read_varint [0x80, 0x80, 0x05] = Inr (5, 3) \<and>
   0 < (3 :: nat) \<and> (3 :: nat) \<le> 9 \<and> 3 \<le> length [0x80, 0x80, 0x05 :: byte] \<and>
   length (encode_varint 5) \<le> 3"
proof -
  have r: "read_varint [0x80, 0x80, 0x05] = Inr (5, 3)"
    by (simp add: read_varint_def)
  show ?thesis using r read_varint_shortest[OF r] by simp
qed

end
