(* ===== verification/SerialType.thy ===== *)
theory SerialType
  imports Varint
begin

text \<open>
  Values and their on-disk encoding: the serial types of \<open>core/types.rs\<close>, the value
  readers of \<open>core/storage/sqlite3_ondisk.rs\<close>, the value writer \<open>write_value\<close> and the
  UTF-8 validation in front of every TEXT value. A double is its 64-bit pattern; the full
  UTF-8 validator is the crate \<open>simdutf8\<close> and appears as the parameter \<open>from_utf8\<close>.
\<close>

section \<open>Values\<close>

text \<open>\<open>Numeric::Float\<close> holds a \<open>NonNan\<close>: the bit pattern of a double that is not a NaN.\<close>

datatype numeric = Integer i64 | Float u64

datatype val = Null | Numeric numeric | Text "byte list" | Blob "byte list"

definition is_nan :: "u64 \<Rightarrow> bool" where
  "is_nan f \<longleftrightarrow>
     f AND 0x7ff0000000000000 = 0x7ff0000000000000 \<and> f AND 0x000fffffffffffff \<noteq> 0"

definition NonNan_new :: "u64 \<Rightarrow> u64 option" where
  "NonNan_new f = (if is_nan f then None else Some f)"

definition from_f64 :: "u64 \<Rightarrow> val" where
  "from_f64 f = (case NonNan_new f of Some nn \<Rightarrow> Numeric (Float nn) | None \<Rightarrow> Null)"

section \<open>UTF-8 validation\<close>

text \<open>
  \<open>from_ne_bytes\<close> reads in the byte order of the machine, which is the parameter \<open>be\<close>
  (true for big endian).
\<close>

definition from_ne_bytes :: "bool \<Rightarrow> byte list \<Rightarrow> 'a::len word" where
  "from_ne_bytes be bs = of_nat (be_to_nat (if be then bs else rev bs))"

fun fold_chunks :: "bool \<Rightarrow> byte list \<Rightarrow> u64 \<Rightarrow> u64" where
  "fold_chunks be data folded =
     (if length data < 8 then folded
      else fold_chunks be (drop 8 data) (folded OR from_ne_bytes be (take 8 data)))"

declare fold_chunks.simps [simp del]

definition is_ascii :: "bool \<Rightarrow> byte list \<Rightarrow> bool" where
  "is_ascii be data =
     (let n = length data;
          high_bits = from_ne_bytes be (replicate 8 0x80) :: u64
      in if n > 2 * 8 then
           (fold_chunks be data 0 OR from_ne_bytes be (drop (n - 8) data)) AND high_bits = 0
         else if n \<ge> 8 then
           (from_ne_bytes be (take 8 data) OR from_ne_bytes be (drop (n - 8) data))
             AND high_bits = 0
         else if n \<ge> 4 then
           (from_ne_bytes be (take 4 data) OR from_ne_bytes be (drop (n - 4) data))
             AND (0x80808080 :: 32 word) = 0
         else if n \<ge> 2 then
           (from_ne_bytes be (take 2 data) OR from_ne_bytes be (drop (n - 2) data))
             AND (0x8080 :: 16 word) = 0
         else (case data of [] \<Rightarrow> True | b # _ \<Rightarrow> b < 0x80))"

definition validate_utf8 ::
    "bool \<Rightarrow> (byte list \<Rightarrow> bool) \<Rightarrow> byte list \<Rightarrow> byte list option" where
  "validate_utf8 be from_utf8 data =
     (if length data \<le> 512 \<and> is_ascii be data then Some data
      else if from_utf8 data then Some data else None)"

section \<open>Serial types\<close>

type_synonym serial_type = u64

datatype serial_type_kind =
  NullKind | I8 | I16 | I24 | I32 | I48 | I64 | F64 | ConstInt0 | ConstInt1 | TextKind | BlobKind

definition u64_is_valid_serial_type :: "u64 \<Rightarrow> bool" where
  "u64_is_valid_serial_type n \<longleftrightarrow> n \<noteq> 10 \<and> n \<noteq> 11"

definition serial_blob :: "u64 \<Rightarrow> serial_type" where
  "serial_blob sz = 12 + sz * 2"

definition serial_text :: "u64 \<Rightarrow> serial_type" where
  "serial_text sz = 13 + sz * 2"

definition kind :: "serial_type \<Rightarrow> serial_type_kind result" where
  "kind st =
     (if st = 0 then Inr NullKind
      else if st = 1 then Inr I8
      else if st = 2 then Inr I16
      else if st = 3 then Inr I24
      else if st = 4 then Inr I32
      else if st = 5 then Inr I48
      else if st = 6 then Inr I64
      else if st = 7 then Inr F64
      else if st = 8 then Inr ConstInt0
      else if st = 9 then Inr ConstInt1
      else if st \<ge> 12 then (if st mod 2 = 0 then Inr BlobKind else Inr TextKind)
      else Inl Panic)"

definition kind_size :: "serial_type_kind \<Rightarrow> serial_type \<Rightarrow> nat" where
  "kind_size k st =
     (case k of
        NullKind \<Rightarrow> 0 | I8 \<Rightarrow> 1 | I16 \<Rightarrow> 2 | I24 \<Rightarrow> 3 | I32 \<Rightarrow> 4 | I48 \<Rightarrow> 6 | I64 \<Rightarrow> 8
      | F64 \<Rightarrow> 8 | ConstInt0 \<Rightarrow> 0 | ConstInt1 \<Rightarrow> 0
      | TextKind \<Rightarrow> (unat st - 13) div 2
      | BlobKind \<Rightarrow> (unat st - 12) div 2)"

definition serial_size :: "serial_type \<Rightarrow> nat result" where
  "serial_size st = and_then (kind st) (\<lambda>k. Inr (kind_size k st))"

definition get_serial_type_size :: "u64 \<Rightarrow> nat result" where
  "get_serial_type_size serial =
     (if serial = 0 \<or> serial = 8 \<or> serial = 9 then Inr 0
      else if serial = 1 then Inr 1
      else if serial = 2 then Inr 2
      else if serial = 3 then Inr 3
      else if serial = 4 then Inr 4
      else if serial = 5 then Inr 6
      else if serial = 6 \<or> serial = 7 then Inr 8
      else if serial \<ge> 12 then
        (if serial mod 2 = 0 then Inr (unat ((serial - 12) div 2))
         else Inr (unat ((serial - 13) div 2)))
      else Inl Corrupt)"

definition serial_type_of :: "val \<Rightarrow> serial_type" where
  "serial_type_of v =
     (case v of
        Null \<Rightarrow> 0
      | Numeric (Integer i) \<Rightarrow>
          if i = 0 then 8
          else if i = 1 then 9
          else if -128 \<le> sint i \<and> sint i \<le> 127 then 1
          else if -32768 \<le> sint i \<and> sint i \<le> 32767 then 2
          else if -8388608 \<le> sint i \<and> sint i \<le> 8388607 then 3
          else if -2147483648 \<le> sint i \<and> sint i \<le> 2147483647 then 4
          else if -140737488355328 \<le> sint i \<and> sint i \<le> 140737488355327 then 5
          else 6
      | Numeric (Float _) \<Rightarrow> 7
      | Text t \<Rightarrow> serial_text (of_nat (length t))
      | Blob b \<Rightarrow> serial_blob (of_nat (length b)))"

definition serial_try_from :: "u64 \<Rightarrow> serial_type result" where
  "serial_try_from u = (if u = 10 \<or> u = 11 then Inl Corrupt else Inr u)"

definition validate_serial_type :: "u64 \<Rightarrow> unit result" where
  "validate_serial_type v = ensure (u64_is_valid_serial_type v) Corrupt"

section \<open>Reading values\<close>

text \<open>\<open>i16::from_be_bytes(..) as i64\<close> and its companions for the other widths.\<close>

definition i16_from_be :: "byte list \<Rightarrow> i64" where
  "i16_from_be bs = scast (of_nat (be_to_nat bs) :: 16 word)"

definition i32_from_be :: "byte list \<Rightarrow> i64" where
  "i32_from_be bs = scast (of_nat (be_to_nat bs) :: 32 word)"

definition i64_from_be :: "byte list \<Rightarrow> i64" where
  "i64_from_be bs = of_nat (be_to_nat bs)"

definition get_front :: "byte list \<Rightarrow> nat \<Rightarrow> byte list result" where
  "get_front buf n = (if n \<le> length buf then Inr (take n buf) else Inl Corrupt)"

definition read_text :: "bool \<Rightarrow> (byte list \<Rightarrow> bool) \<Rightarrow> byte list \<Rightarrow> byte list result" where
  "read_text be from_utf8 payload =
     (case validate_utf8 be from_utf8 payload of Some s \<Rightarrow> Inr s | None \<Rightarrow> Inl Corrupt)"

definition read_value ::
    "bool \<Rightarrow> (byte list \<Rightarrow> bool) \<Rightarrow> byte list \<Rightarrow> serial_type \<Rightarrow> (val \<times> nat) result" where
  "read_value be from_utf8 buf st =
     and_then (kind st) (\<lambda>k. case k of
        NullKind \<Rightarrow> Inr (Null, 0)
      | I8 \<Rightarrow> (case buf of [] \<Rightarrow> Inl Corrupt | b # _ \<Rightarrow> Inr (Numeric (Integer (scast b)), 1))
      | I16 \<Rightarrow> and_then (get_front buf 2) (\<lambda>bytes. Inr (Numeric (Integer (i16_from_be bytes)), 2))
      | I24 \<Rightarrow> and_then (get_front buf 3) (\<lambda>bytes.
          let sign_extension = signed_drop_bit 7 (bytes ! 0)
          in Inr (Numeric (Integer (i32_from_be (sign_extension # bytes))), 3))
      | I32 \<Rightarrow> and_then (get_front buf 4) (\<lambda>bytes. Inr (Numeric (Integer (i32_from_be bytes)), 4))
      | I48 \<Rightarrow> and_then (get_front buf 6) (\<lambda>bytes.
          let sign_extension = signed_drop_bit 7 (bytes ! 0)
          in Inr (Numeric (Integer (i64_from_be (sign_extension # sign_extension # bytes))), 6))
      | I64 \<Rightarrow> and_then (get_front buf 8) (\<lambda>bytes. Inr (Numeric (Integer (i64_from_be bytes)), 8))
      | F64 \<Rightarrow> and_then (get_front buf 8) (\<lambda>bytes. Inr (from_f64 (of_nat (be_to_nat bytes)), 8))
      | ConstInt0 \<Rightarrow> Inr (Numeric (Integer 0), 0)
      | ConstInt1 \<Rightarrow> Inr (Numeric (Integer 1), 0)
      | BlobKind \<Rightarrow> and_then (serial_size st) (\<lambda>content_size.
          and_then (get_front buf content_size) (\<lambda>data. Inr (Blob data, content_size)))
      | TextKind \<Rightarrow> and_then (serial_size st) (\<lambda>content_size.
          and_then (get_front buf content_size) (\<lambda>data.
          and_then (read_text be from_utf8 data) (\<lambda>s. Inr (Text s, content_size)))))"

definition sign_byte :: "byte \<Rightarrow> byte" where
  "sign_byte b = (if b \<le> 0x7F then 0 else 0xFF)"

definition read_value_serial_type ::
    "bool \<Rightarrow> (byte list \<Rightarrow> bool) \<Rightarrow> byte list \<Rightarrow> u64 \<Rightarrow> (val \<times> nat) result" where
  "read_value_serial_type be from_utf8 buf st =
     (if st = 0 then Inr (Null, 0)
      else if st = 1 then
        (if buf = [] then Inl Corrupt else Inr (Numeric (Integer (scast (buf ! 0))), 1))
      else if st = 2 then
        (if length buf < 2 then Inl Corrupt
         else Inr (Numeric (Integer (i16_from_be [buf ! 0, buf ! 1])), 2))
      else if st = 3 then
        (if length buf < 3 then Inl Corrupt
         else Inr (Numeric (Integer (i32_from_be
                [sign_byte (buf ! 0), buf ! 0, buf ! 1, buf ! 2])), 3))
      else if st = 4 then
        (if length buf < 4 then Inl Corrupt
         else Inr (Numeric (Integer (i32_from_be [buf ! 0, buf ! 1, buf ! 2, buf ! 3])), 4))
      else if st = 5 then
        (if length buf < 6 then Inl Corrupt
         else Inr (Numeric (Integer (i64_from_be
                [sign_byte (buf ! 0), sign_byte (buf ! 0),
                 buf ! 0, buf ! 1, buf ! 2, buf ! 3, buf ! 4, buf ! 5])), 6))
      else if st = 6 then
        (if length buf < 8 then Inl Corrupt
         else Inr (Numeric (Integer (i64_from_be
                [buf ! 0, buf ! 1, buf ! 2, buf ! 3, buf ! 4, buf ! 5, buf ! 6, buf ! 7])), 8))
      else if st = 7 then
        (if length buf < 8 then Inl Corrupt
         else Inr (from_f64 (of_nat (be_to_nat
                [buf ! 0, buf ! 1, buf ! 2, buf ! 3, buf ! 4, buf ! 5, buf ! 6, buf ! 7])), 8))
      else if st = 8 then Inr (Numeric (Integer 0), 0)
      else if st = 9 then Inr (Numeric (Integer 1), 0)
      else if st \<ge> 12 then
        (if st mod 2 = 0 then
           let content_size = unat ((st - 12) div 2)
           in and_then (get_front buf content_size) (\<lambda>data. Inr (Blob data, content_size))
         else
           let content_size = unat ((st - 13) div 2)
           in and_then (get_front buf content_size) (\<lambda>data.
              and_then (read_text be from_utf8 data) (\<lambda>s. Inr (Text s, content_size))))
      else Inl Corrupt)"

definition read_integer :: "byte list \<Rightarrow> byte \<Rightarrow> i64 result" where
  "read_integer buf st =
     (if st = 1 then (if buf = [] then Inl Corrupt else Inr (scast (buf ! 0)))
      else if st = 2 then
        (if length buf < 2 then Inl Corrupt else Inr (i16_from_be [buf ! 0, buf ! 1]))
      else if st = 3 then
        (if length buf < 3 then Inl Corrupt
         else Inr (i32_from_be [sign_byte (buf ! 0), buf ! 0, buf ! 1, buf ! 2]))
      else if st = 4 then
        (if length buf < 4 then Inl Corrupt
         else Inr (i32_from_be [buf ! 0, buf ! 1, buf ! 2, buf ! 3]))
      else if st = 5 then
        (if length buf < 6 then Inl Corrupt
         else Inr (i64_from_be
                [sign_byte (buf ! 0), sign_byte (buf ! 0),
                 buf ! 0, buf ! 1, buf ! 2, buf ! 3, buf ! 4, buf ! 5]))
      else if st = 6 then
        (if length buf < 8 then Inl Corrupt
         else Inr (i64_from_be
                [buf ! 0, buf ! 1, buf ! 2, buf ! 3, buf ! 4, buf ! 5, buf ! 6, buf ! 7]))
      else if st = 8 then Inr 0
      else if st = 9 then Inr 1
      else Inl Corrupt)"

section \<open>Writing values\<close>

text \<open>\<open>out[..n].copy_from_slice(bytes)\<close>, which panics when \<open>out\<close> is too short.\<close>

definition copy_front :: "byte list \<Rightarrow> byte list \<Rightarrow> (byte list \<times> nat) result" where
  "copy_front out bytes =
     (if length bytes \<le> length out then Inr (put out 0 bytes, length bytes) else Inl Panic)"

definition i16_to_be :: "i64 \<Rightarrow> byte list" where
  "i16_to_be i = nat_to_be 2 (unat (ucast i :: 16 word))"

definition i32_to_be :: "i64 \<Rightarrow> byte list" where
  "i32_to_be i = nat_to_be 4 (unat (ucast i :: 32 word))"

definition i64_to_be :: "i64 \<Rightarrow> byte list" where
  "i64_to_be i = nat_to_be 8 (unat i)"

definition write_value ::
    "byte list \<Rightarrow> val \<Rightarrow> serial_type \<Rightarrow> (byte list \<times> nat) result" where
  "write_value out v st =
     (case v of
        Null \<Rightarrow> Inr (out, 0)
      | Numeric (Integer i) \<Rightarrow>
          and_then (kind st) (\<lambda>k. case k of
             ConstInt0 \<Rightarrow> Inr (out, 0)
           | ConstInt1 \<Rightarrow> Inr (out, 0)
           | I8 \<Rightarrow> copy_front out [ucast i]
           | I16 \<Rightarrow> copy_front out (i16_to_be i)
           | I24 \<Rightarrow> copy_front out (drop 1 (i32_to_be i))
           | I32 \<Rightarrow> copy_front out (i32_to_be i)
           | I48 \<Rightarrow> copy_front out (drop 2 (i64_to_be i))
           | I64 \<Rightarrow> copy_front out (i64_to_be i)
           | _ \<Rightarrow> Inl Panic)
      | Numeric (Float f) \<Rightarrow> copy_front out (nat_to_be 8 (unat f))
      | Text t \<Rightarrow> copy_front out t
      | Blob b \<Rightarrow> copy_front out b)"

text \<open>\<open>Value::serialize_serial\<close>, which appends to a vector.\<close>

definition serialize_serial :: "byte list \<Rightarrow> val \<Rightarrow> byte list result" where
  "serialize_serial out v =
     (case v of
        Null \<Rightarrow> Inr out
      | Numeric (Integer i) \<Rightarrow>
          and_then (kind (serial_type_of v)) (\<lambda>k. case k of
             I8 \<Rightarrow> Inr (out @ [ucast i])
           | I16 \<Rightarrow> Inr (out @ i16_to_be i)
           | I24 \<Rightarrow> Inr (out @ drop 1 (i32_to_be i))
           | I32 \<Rightarrow> Inr (out @ i32_to_be i)
           | I48 \<Rightarrow> Inr (out @ drop 2 (i64_to_be i))
           | I64 \<Rightarrow> Inr (out @ i64_to_be i)
           | _ \<Rightarrow> Inl Panic)
      | Numeric (Float f) \<Rightarrow> Inr (out @ nat_to_be 8 (unat f))
      | Text t \<Rightarrow> Inr (out @ t)
      | Blob b \<Rightarrow> Inr (out @ b))"

section \<open>The ASCII test\<close>

lemma be_to_nat_snoc: "be_to_nat (xs @ [b]) = be_to_nat xs * 256 + unat b"
  by (simp add: be_to_nat_append)

lemma bit_be_to_nat:
  "bit (be_to_nat bs) k \<longleftrightarrow> k < 8 * length bs \<and> bit (rev bs ! (k div 8)) (k mod 8)"
proof (induction bs arbitrary: k rule: rev_induct)
  case (snoc b bs)
  have or: "be_to_nat bs * 256 + unat b = push_bit 8 (be_to_nat bs) OR unat b"
  proof -
    have "push_bit 8 (be_to_nat bs) + unat b = push_bit 8 (be_to_nat bs) OR unat b"
      by (rule disjunctive_add_eq_or)
        (auto simp: bit_eq_iff bit_simps dest: bit_imp_le_length)
    then show ?thesis by (simp add: push_bit_eq_mult)
  qed
  show ?case
  proof (cases "k < 8")
    case True
    then show ?thesis by (simp add: be_to_nat_snoc or bit_simps)
  next
    case False
    then have "k div 8 = Suc ((k - 8) div 8)" "k mod 8 = (k - 8) mod 8"
      by (simp_all add: le_div_geq le_mod_geq)
    then show ?thesis using False
      by (auto simp: be_to_nat_snoc or bit_simps snoc dest: bit_imp_le_length)
  qed
qed simp

lemma byte_lt_80_iff: "(b :: byte) < 0x80 \<longleftrightarrow> \<not> bit b 7"
proof -
  have "b AND 2 ^ 7 = 0 \<longleftrightarrow> \<not> bit b 7"
    by (rule and_exp_eq_0_iff_not_bit)
  then show ?thesis by (simp add: byte_and_80_iff)
qed

text \<open>A word read from bytes has no high bit of a byte set iff no byte has.\<close>

lemma bit_from_ne_bytes:
  "bit (from_ne_bytes be bs :: 'a::len word) k \<longleftrightarrow>
     k < LENGTH('a) \<and> k < 8 * length bs \<and>
     bit ((if be then rev bs else bs) ! (k div 8)) (k mod 8)"
  by (auto simp: from_ne_bytes_def bit_of_nat_iff bit_be_to_nat)

lemma high_bits_iff:
  fixes w :: "'a::len word"
  assumes "LENGTH('a) = 8 * n"
  shows "w AND from_ne_bytes be (replicate n 0x80) = 0 \<longleftrightarrow> (\<forall>j<n. \<not> bit w (8 * j + 7))"
proof -
  have bit80: "bit (0x80 :: byte) m \<longleftrightarrow> m = 7" for m
    using bit_exp_iff[of 7 m, where 'a = byte] by auto
  have mask: "bit (from_ne_bytes be (replicate n 0x80) :: 'a word) k \<longleftrightarrow> k < 8 * n \<and> k mod 8 = 7" for k
    using assms by (cases "k < 8 * n")
      (simp_all only: bit_from_ne_bytes length_replicate rev_replicate if_cancel
        nth_replicate[OF less_mult_imp_div_less] bit80 mult.commute[of 8 n], simp_all)
  have "w AND from_ne_bytes be (replicate n 0x80) = 0 \<longleftrightarrow>
        (\<forall>k<8 * n. k mod 8 = 7 \<longrightarrow> \<not> bit w k)"
    using assms by (auto simp: bit_eq_iff[of "w AND _"] bit_and_iff mask)
  also have "\<dots> \<longleftrightarrow> (\<forall>j<n. \<not> bit w (8 * j + 7))"
  proof (intro iffI allI impI)
    fix j assume *: "\<forall>k<8 * n. k mod 8 = 7 \<longrightarrow> \<not> bit w k" "j < n"
    have "(8 * j + 7) mod 8 = 7" by presburger
    then show "\<not> bit w (8 * j + 7)" using * by auto
  next
    fix k assume *: "\<forall>j<n. \<not> bit w (8 * j + 7)" "k < 8 * n" "k mod 8 = 7"
    then have "k div 8 < n" by simp
    then have "\<not> bit w (8 * (k div 8) + k mod 8)" using *(1,3) by simp
    then show "\<not> bit w k" by simp
  qed
  finally show ?thesis .
qed

lemma bit_high_from_ne_bytes:
  assumes "LENGTH('a) = 8 * n" "length bs = n"
  shows "(\<forall>j<n. \<not> bit (from_ne_bytes be bs :: 'a::len word) (8 * j + 7)) \<longleftrightarrow>
         (\<forall>b\<in>set bs. b < 0x80)"
proof -
  let ?bs = "if be then rev bs else bs"
  have "(8 * j + 7) mod 8 = 7" "(8 * j + 7) div 8 = j" for j :: nat by presburger+
  then have "(\<forall>j<n. \<not> bit (from_ne_bytes be bs :: 'a word) (8 * j + 7)) \<longleftrightarrow> (\<forall>j<n. ?bs ! j < 0x80)"
    using assms by (auto simp: bit_from_ne_bytes byte_lt_80_iff)
  also have "\<dots> \<longleftrightarrow> (\<forall>b\<in>set ?bs. b < 0x80)"
    using assms(2) all_set_conv_all_nth[of ?bs "\<lambda>b. b < 0x80"] by simp
  finally show ?thesis by simp
qed

lemma or_high_bits:
  assumes "LENGTH('a) = 8 * n" "length xs = n" "length ys = n"
  shows "(from_ne_bytes be xs OR from_ne_bytes be ys) AND from_ne_bytes be (replicate n 0x80)
           = (0 :: 'a::len word) \<longleftrightarrow> (\<forall>b\<in>set xs \<union> set ys. b < 0x80)"
  unfolding high_bits_iff[OF assms(1)] bit_or_iff
  using bit_high_from_ne_bytes[OF assms(1,2), of be] bit_high_from_ne_bytes[OF assms(1,3), of be]
  by blast

lemma set_take_drop_overlap:
  assumes "m \<le> n"
  shows "set (take n xs) \<union> set (drop m xs) = set xs"
proof -
  have "set xs = set (take n xs) \<union> set (drop n xs)"
    by (metis append_take_drop_id set_append)
  then show ?thesis
    using set_drop_subset_set_drop[OF assms, of xs] set_drop_subset[of m xs] by auto
qed

lemma fold_chunks_high:
  "(\<forall>j<8. \<not> bit (fold_chunks be data folded) (8 * j + 7)) \<longleftrightarrow>
     (\<forall>j<8. \<not> bit folded (8 * j + 7)) \<and>
     (\<forall>b\<in>set (take (8 * (length data div 8)) data). b < 0x80)"
proof (induction be data folded rule: fold_chunks.induct)
  case (1 be data folded)
  show ?case
  proof (cases "length data < 8")
    case True
    then show ?thesis by (subst fold_chunks.simps) simp
  next
    case False
    then have div: "length data div 8 = Suc ((length data - 8) div 8)" by (simp add: le_div_geq)
    have take: "take (8 * (length data div 8)) data =
        take 8 data @ take (8 * ((length data - 8) div 8)) (drop 8 data)"
      by (simp add: div take_add)
    have high: "(\<forall>j<8. \<not> bit (folded OR from_ne_bytes be (take 8 data)) (8 * j + 7)) \<longleftrightarrow>
        (\<forall>j<8. \<not> bit folded (8 * j + 7)) \<and> (\<forall>b\<in>set (take 8 data). b < 0x80)"
      using bit_high_from_ne_bytes[of 8 "take 8 data" be, where 'a = 64] False
      by (auto simp: bit_or_iff)
    show ?thesis
      using 1[OF False] by (subst fold_chunks.simps) (simp only: False if_False high take length_drop
          set_append ball_Un conj_assoc)
  qed
qed

lemma replicate_numerals: "replicate 4 x = [x, x, x, x]" "replicate 2 x = [x, x]"
  by (simp_all add: numeral_eq_Suc)

lemma high_bits_numerals:
  "from_ne_bytes be (replicate 4 0x80) = (0x80808080 :: 32 word)"
  "from_ne_bytes be (replicate 2 0x80) = (0x8080 :: 16 word)"
  by (simp_all add: from_ne_bytes_def replicate_numerals)

lemma is_ascii_iff: "is_ascii be data \<longleftrightarrow> (\<forall>b\<in>set data. b < 0x80)"
proof -
  let ?n = "length data"
  have overlap: "(\<forall>b\<in>set (take m data) \<union> set (drop (?n - m) data). b < 0x80) \<longleftrightarrow>
      (\<forall>b\<in>set data. b < 0x80)" if "?n \<le> 2 * m" for m
    using that by (subst set_take_drop_overlap) simp_all
  consider "?n > 16" | "8 \<le> ?n" "?n \<le> 16" | "4 \<le> ?n" "?n < 8" | "2 \<le> ?n" "?n < 4" | "?n < 2"
    by linarith
  then show ?thesis
  proof cases
    case 1
    let ?m = "8 * (?n div 8)"
    have "?n - 8 \<le> ?m" by linarith
    then have "set (take ?m data) \<union> set (drop (?n - 8) data) = set data"
      by (rule set_take_drop_overlap)
    then have "(\<forall>b\<in>set data. b < 0x80) \<longleftrightarrow>
        (\<forall>b\<in>set (take ?m data). b < 0x80) \<and> (\<forall>b\<in>set (drop (?n - 8) data). b < 0x80)"
      by (simp only: ball_Un [symmetric])
    then show ?thesis
      using 1 fold_chunks_high[of be data 0]
        bit_high_from_ne_bytes[of 8 "drop (?n - 8) data" be, where 'a = 64]
      by (simp add: is_ascii_def Let_def high_bits_iff[of 8, where 'a = 64] bit_or_iff all_conj_distrib
          imp_conjR)
  next
    case 2
    then show ?thesis
      using or_high_bits[of 8 "take 8 data" "drop (?n - 8) data" be, where 'a = 64] overlap[of 8]
      by (simp add: is_ascii_def Let_def)
  next
    case 3
    then show ?thesis
      using or_high_bits[of 4 "take 4 data" "drop (?n - 4) data" be, where 'a = 32] overlap[of 4]
      by (simp add: is_ascii_def Let_def high_bits_numerals)
  next
    case 4
    then show ?thesis
      using or_high_bits[of 2 "take 2 data" "drop (?n - 2) data" be, where 'a = 16] overlap[of 2]
      by (simp add: is_ascii_def Let_def high_bits_numerals)
  next
    case 5
    then have "data = [] \<or> (\<exists>b. data = [b])" by (cases data rule: remdups_adj.cases) auto
    then show ?thesis by (auto simp: is_ascii_def Let_def)
  qed
qed

section \<open>Two's complement integers\<close>

text \<open>The value of a big-endian two's complement byte string.\<close>

definition be_to_int :: "byte list \<Rightarrow> int" where
  "be_to_int bs =
     (if hd bs \<le> 0x7f then int (be_to_nat bs) else int (be_to_nat bs) - 256 ^ length bs)"

lemma hd_le_7f_iff:
  assumes "bs \<noteq> []"
  shows "hd bs \<le> 0x7f \<longleftrightarrow> 2 * be_to_nat bs < 256 ^ length bs"
proof -
  obtain b cs where bs: "bs = b # cs" using assms by (cases bs) auto
  have le: "hd bs \<le> 0x7f \<longleftrightarrow> unat b < 128"
    by (simp add: bs word_le_nat_alt) linarith
  define p where "p = (256 :: nat) ^ length cs"
  define q where "q = unat b * p"
  have low: "be_to_nat cs < p" unfolding p_def by (rule be_to_nat_bound)
  have eq: "be_to_nat bs = q + be_to_nat cs" "256 ^ length bs = 256 * p"
    by (simp_all add: bs p_def q_def)
  show ?thesis
  proof (cases "unat b < 128")
    case True
    then have "q \<le> 127 * p" unfolding q_def by (intro mult_le_mono1) simp
    with low have "2 * be_to_nat bs < 256 ^ length bs" unfolding eq by (simp add: algebra_simps)
    with True le show ?thesis by simp
  next
    case False
    then have "128 * p \<le> q" unfolding q_def by (intro mult_le_mono1) simp
    then have "\<not> 2 * be_to_nat bs < 256 ^ length bs" unfolding eq by (simp add: algebra_simps)
    with False le show ?thesis by simp
  qed
qed

lemma sint_of_be:
  assumes "LENGTH('a) = 8 * length bs"
  shows "sint (of_nat (be_to_nat bs) :: 'a::len word) = be_to_int bs"
proof -
  let ?k = "int (be_to_nat bs)"
  have bs: "bs \<noteq> []" using assms len_gt_0[where 'a = 'a] by auto
  obtain n where n: "LENGTH('a) = Suc n" using len_gt_0[where 'a = 'a] not0_implies_Suc by blast
  have p: "256 ^ length bs = (2 :: 'b::comm_semiring_1) ^ Suc n"
    using assms n power_mult[of "2 :: 'b" 8 "length bs"] by simp
  have lt: "be_to_nat bs < 2 ^ Suc n" using be_to_nat_bound[of bs] p by metis
  have "bit (be_to_nat bs) n \<longleftrightarrow> odd (be_to_nat bs div 2 ^ n)" by (rule bit_iff_odd)
  also have "\<dots> \<longleftrightarrow> 2 ^ n \<le> be_to_nat bs"
    using lt div_nat_eqI[of "2 ^ n" 1 "be_to_nat bs"] by (cases "be_to_nat bs < 2 ^ n") auto
  finally have "bit ?k n \<longleftrightarrow> \<not> hd bs \<le> 0x7f"
    using hd_le_7f_iff[OF bs] by (auto simp: p bit_of_nat_iff_bit)
  moreover have "take_bit (Suc n) ?k = ?k"
    using lt by (simp only: take_bit_of_nat take_bit_nat_eq_self)
  moreover have "sint (of_nat (be_to_nat bs) :: 'a word) = signed_take_bit n ?k"
    using sint_sbintrunc'[of ?k, where 'a = 'a] by (simp add: n)
  ultimately show ?thesis
    by (simp add: be_to_int_def signed_take_bit_eq_take_bit_minus p)
qed

lemma be_to_int_sign_byte:
  assumes "bs \<noteq> []"
  shows "be_to_int (sign_byte (hd bs) # bs) = be_to_int bs"
  by (auto simp: be_to_int_def sign_byte_def)

lemma be_to_int_nat_to_be:
  assumes "0 < n" "n \<le> 8" "- (256 ^ n) \<le> 2 * sint i" "2 * sint i < 256 ^ n"
  shows "be_to_int (nat_to_be n (unat (i :: i64))) = sint i"
proof -
  let ?y = "unat i mod 256 ^ n"
  have dvd: "(256 :: int) ^ n dvd 2 ^ 64"
  proof -
    have "(256 :: int) ^ n = 2 ^ (8 * n)" by (simp add: power_mult)
    then show ?thesis using assms(2) le_imp_power_dvd[of "8 * n" 64 "2 :: int"] by simp
  qed
  have "sint i mod 2 ^ 64 = int (unat i)"
    using uint_sint[of i] by (simp add: take_bit_eq_mod)
  then have "int (unat i) mod 256 ^ n = sint i mod 256 ^ n"
    using mod_mod_cancel[OF dvd, of "sint i"] by simp
  then have y: "int ?y = sint i mod 256 ^ n" by (simp add: zmod_int)
  have "hd (nat_to_be n (unat i)) \<le> 0x7f \<longleftrightarrow> 2 * ?y < 256 ^ n"
    using hd_le_7f_iff[of "nat_to_be n (unat i)"] assms(1) by (metis be_to_nat_nat_to_be
        length_nat_to_be length_greater_0_conv)
  also have "\<dots> \<longleftrightarrow> int (2 * ?y) < int (256 ^ n)" by (simp only: of_nat_less_iff)
  finally have hd: "hd (nat_to_be n (unat i)) \<le> 0x7f \<longleftrightarrow> 2 * int ?y < 256 ^ n" by simp
  show ?thesis
  proof (cases "0 \<le> sint i")
    case True
    then have "int ?y = sint i" using y assms(4) by simp
    moreover from this have "2 * int ?y < 256 ^ n" using assms(4) by linarith
    ultimately show ?thesis using hd by (simp add: be_to_int_def)
  next
    case False
    have "sint i mod 256 ^ n = (sint i + 256 ^ n) mod 256 ^ n" by simp
    also have "\<dots> = sint i + 256 ^ n" using False assms(3) by (intro mod_pos_pos_trivial) linarith+
    finally have "int ?y = sint i + 256 ^ n" using y by simp
    moreover from this have "\<not> 2 * int ?y < 256 ^ n" using assms(3) by linarith
    ultimately show ?thesis using hd by (simp add: be_to_int_def)
  qed
qed

text \<open>The reads of the four native widths and the two sign-extended ones.\<close>

lemma int_from_be:
  "length bs = 1 \<Longrightarrow> scast (bs ! 0) = (word_of_int (be_to_int bs) :: i64)"
  "length bs = 2 \<Longrightarrow> i16_from_be bs = word_of_int (be_to_int bs)"
  "length bs = 4 \<Longrightarrow> i32_from_be bs = word_of_int (be_to_int bs)"
  "length bs = 8 \<Longrightarrow> i64_from_be bs = word_of_int (be_to_int bs)"
proof -
  show "scast (bs ! 0) = (word_of_int (be_to_int bs) :: i64)" if "length bs = 1"
  proof -
    have "of_nat (be_to_nat bs) = bs ! 0" using that by (auto simp: length_Suc_conv)
    then show ?thesis using that sint_of_be[of bs, where 'a = 8] of_int_sint[of "bs ! 0", where 'a = i64] by simp
  qed
  show "i16_from_be bs = word_of_int (be_to_int bs)" if "length bs = 2"
    using that by (simp add: i16_from_be_def flip: sint_of_be[of bs, where 'a = 16])
  show "i32_from_be bs = word_of_int (be_to_int bs)" if "length bs = 4"
    using that by (simp add: i32_from_be_def flip: sint_of_be[of bs, where 'a = 32])
  show "i64_from_be bs = word_of_int (be_to_int bs)" if "length bs = 8"
    using that by (simp add: i64_from_be_def flip: sint_of_be[of bs, where 'a = 64])
qed

lemma signed_drop_bit_7: "signed_drop_bit 7 (b :: byte) = sign_byte b"
proof -
  have eq: "b \<le> 0x7f \<longleftrightarrow> \<not> bit b 7"
    by (simp flip: byte_lt_80_iff add: word_le_nat_alt word_less_nat_alt) linarith
  show ?thesis
  proof (rule bit_word_eqI)
    fix n assume n: "n < LENGTH(8)"
    have "bit (0xFF :: byte) n"
      using n bit_mask_iff[of 8 n, where 'a = byte] by (simp add: mask_eq_exp_minus_1)
    moreover have "bit (signed_drop_bit 7 b) n \<longleftrightarrow> bit b 7"
      using n by (cases n) (simp_all add: bit_signed_drop_bit_iff)
    ultimately show "bit (signed_drop_bit 7 b) n \<longleftrightarrow> bit (sign_byte b) n"
      by (simp add: sign_byte_def eq)
  qed
qed

section \<open>Serial types\<close>

text \<open>The sizes that the two size functions compute for a text or a blob agree.\<close>

lemma unat_div_sub:
  fixes st :: u64
  assumes "12 \<le> st"
  shows "unat ((st - 12) div 2) = (unat st - 12) div 2"
    and "st mod 2 \<noteq> 0 \<Longrightarrow> unat ((st - 13) div 2) = (unat st - 13) div 2"
proof -
  show "unat ((st - 12) div 2) = (unat st - 12) div 2"
    using assms by (simp add: unat_div unat_sub)
  show "unat ((st - 13) div 2) = (unat st - 13) div 2" if "st mod 2 \<noteq> 0"
  proof -
    have "st \<noteq> 12" using that by auto
    then have "13 \<le> st" using assms by (simp add: word_le_nat_alt word_unat_eq_iff)
    then show ?thesis by (simp add: unat_div unat_sub)
  qed
qed

lemma serial_cases:
  fixes st :: u64
  obtains "st = 0" | "st = 1" | "st = 2" | "st = 3" | "st = 4" | "st = 5" | "st = 6" | "st = 7"
    | "st = 8" | "st = 9" | "st = 10" | "st = 11" | "12 \<le> st"
proof -
  have "unat st \<in> {0, 1, 2, 3, 4, 5, 6, 7, 8, 9, 10, 11} \<or> 12 \<le> unat st"
    unfolding insert_iff empty_iff by arith
  then have "st \<in> {0, 1, 2, 3, 4, 5, 6, 7, 8, 9, 10, 11} \<or> 12 \<le> st"
    by (simp add: word_unat_eq_iff word_le_nat_alt)
  then show thesis using that by blast
qed

lemma serial_size_eq:
  "serial_size st = (if st = 10 \<or> st = 11 then Inl Panic else get_serial_type_size st)"
proof (cases st rule: serial_cases)
  case 13
  then have "\<forall>n\<in>{0, 1, 2, 3, 4, 5, 6, 7, 8, 9, 10, 11}. st \<noteq> n"
    by (auto simp: word_le_nat_alt)
  then show ?thesis using 13
    by (simp add: serial_size_def kind_def kind_size_def get_serial_type_size_def unat_div_sub)
qed (simp_all add: serial_size_def kind_def kind_size_def get_serial_type_size_def)

lemma take_numerals:
  "2 \<le> length bs \<Longrightarrow> take 2 bs = [bs ! 0, bs ! 1]"
  "3 \<le> length bs \<Longrightarrow> take 3 bs = [bs ! 0, bs ! 1, bs ! 2]"
  "4 \<le> length bs \<Longrightarrow> take 4 bs = [bs ! 0, bs ! 1, bs ! 2, bs ! 3]"
  "6 \<le> length bs \<Longrightarrow> take 6 bs = [bs ! 0, bs ! 1, bs ! 2, bs ! 3, bs ! 4, bs ! 5]"
  "8 \<le> length bs \<Longrightarrow>
     take 8 bs = [bs ! 0, bs ! 1, bs ! 2, bs ! 3, bs ! 4, bs ! 5, bs ! 6, bs ! 7]"
  by (auto simp: list_eq_iff_nth_eq nth_Cons less_Suc_eq numeral_eq_Suc split: nat.splits)


lemma get_front_Inr_iff [simp]: "get_front buf n = Inr bs \<longleftrightarrow> n \<le> length buf \<and> bs = take n buf"
  by (auto simp: get_front_def)

text \<open>The two readers differ only on the reserved serial types.\<close>

lemma read_value_eq:
  "read_value be from_utf8 buf st =
     (if st = 10 \<or> st = 11 then Inl Panic else read_value_serial_type be from_utf8 buf st)"
proof (cases st rule: serial_cases)
  case 13
  then have "\<forall>n\<in>{0, 1, 2, 3, 4, 5, 6, 7, 8, 9, 10, 11}. st \<noteq> n"
    by (auto simp: word_le_nat_alt)
  then show ?thesis using 13
    by (simp add: read_value_def kind_def serial_size_eq get_serial_type_size_def
        read_value_serial_type_def Let_def)
qed (auto simp: read_value_def kind_def read_value_serial_type_def get_front_def take_numerals
      signed_drop_bit_7 Let_def split: list.splits)

section \<open>What a value is on disk\<close>

text \<open>
  The specification of the encoding: an integer takes the fewest of 0, 1, 2, 3, 4, 6 and 8
  bytes that hold it, in two's complement and big-endian.
\<close>

definition int_width :: "i64 \<Rightarrow> nat" where
  "int_width i =
     (if i = 0 \<or> i = 1 then 0
      else if -128 \<le> sint i \<and> sint i \<le> 127 then 1
      else if -32768 \<le> sint i \<and> sint i \<le> 32767 then 2
      else if -8388608 \<le> sint i \<and> sint i \<le> 8388607 then 3
      else if -2147483648 \<le> sint i \<and> sint i \<le> 2147483647 then 4
      else if -140737488355328 \<le> sint i \<and> sint i \<le> 140737488355327 then 6
      else 8)"

definition value_bytes :: "val \<Rightarrow> byte list" where
  "value_bytes v =
     (case v of
        Null \<Rightarrow> []
      | Numeric (Integer i) \<Rightarrow> nat_to_be (int_width i) (unat i)
      | Numeric (Float f) \<Rightarrow> nat_to_be 8 (unat f)
      | Text t \<Rightarrow> t
      | Blob b \<Rightarrow> b)"

text \<open>
  The invariants of the Rust types: a \<open>NonNan\<close> is not a NaN and a \<open>str\<close> is UTF-8; slice
  lengths are at most \<open>isize::MAX\<close>, and the sizes here stay below half of that.
\<close>

definition value_ok :: "(byte list \<Rightarrow> bool) \<Rightarrow> val \<Rightarrow> bool" where
  "value_ok from_utf8 v =
     (case v of
        Numeric (Float f) \<Rightarrow> \<not> is_nan f
      | Text t \<Rightarrow> from_utf8 t \<and> length t < 2 ^ 62
      | Blob b \<Rightarrow> length b < 2 ^ 62
      | _ \<Rightarrow> True)"

lemma nat_to_be_mod_le:
  assumes "n \<le> m"
  shows "nat_to_be n (x mod 256 ^ m) = nat_to_be n x"
proof -
  have "(x div 256 ^ m * 256 ^ (m - n)) * 256 ^ n + x mod 256 ^ m = x"
    using assms by (simp add: mult.assoc div_mult_mod_eq flip: power_add)
  then show ?thesis using nat_to_be_mod[of n "x div 256 ^ m * 256 ^ (m - n)" "x mod 256 ^ m"] by simp
qed

lemma drop_nat_to_be: "drop k (nat_to_be (k + n) x) = nat_to_be n x"
  by (induction k) simp_all

lemma int_to_be:
  "i16_to_be i = nat_to_be 2 (unat i)"
  "i32_to_be i = nat_to_be 4 (unat i)"
  "drop (Suc 0) (nat_to_be 4 x) = nat_to_be 3 x"
  "drop 2 (nat_to_be 8 x) = nat_to_be 6 x"
  using nat_to_be_mod_le[of 2 2 "unat i"] nat_to_be_mod_le[of 4 4 "unat i"]
    drop_nat_to_be[of 1 3 x] drop_nat_to_be[of 2 6 x]
  by (simp_all add: i16_to_be_def i32_to_be_def unsigned_ucast_eq take_bit_eq_mod)

lemma copy_front_Nil [simp]: "copy_front out [] = Inr (out, 0)"
  by (simp add: copy_front_def put_def)

lemma serial_int_cases:
  obtains "i = 0" "serial_type_of (Numeric (Integer i)) = 8" "int_width i = 0"
    | "i = 1" "serial_type_of (Numeric (Integer i)) = 9" "int_width i = 0"
    | n where "(serial_type_of (Numeric (Integer i)), n) \<in> {(1, 1), (2, 2), (3, 3), (4, 4), (5, 6), (6, 8)}"
        "int_width i = n" "- (256 ^ n) \<le> 2 * sint i" "2 * sint i < 256 ^ n"
proof -
  have sint: "- (2 ^ 63) \<le> sint i" "sint i < 2 ^ 63"
    using sint_greater_eq[of i] sint_less[of i] by simp_all
  have st: "serial_type_of (Numeric (Integer i)) =
     (if i = 0 then 8
      else if i = 1 then 9
      else if -128 \<le> sint i \<and> sint i \<le> 127 then 1
      else if -32768 \<le> sint i \<and> sint i \<le> 32767 then 2
      else if -8388608 \<le> sint i \<and> sint i \<le> 8388607 then 3
      else if -2147483648 \<le> sint i \<and> sint i \<le> 2147483647 then 4
      else if -140737488355328 \<le> sint i \<and> sint i \<le> 140737488355327 then 5
      else 6)" by (simp only: serial_type_of_def val.case numeric.case)
  let ?c1 = "-128 \<le> sint i \<and> sint i \<le> 127"
  let ?c2 = "-32768 \<le> sint i \<and> sint i \<le> 32767"
  let ?c3 = "-8388608 \<le> sint i \<and> sint i \<le> 8388607"
  let ?c4 = "-2147483648 \<le> sint i \<and> sint i \<le> 2147483647"
  let ?c5 = "-140737488355328 \<le> sint i \<and> sint i \<le> 140737488355327"
  consider (0) "i = 0" | (1) "i \<noteq> 0" "i = 1" | (2) "i \<noteq> 0" "i \<noteq> 1" ?c1
    | (3) "i \<noteq> 0" "i \<noteq> 1" "\<not> ?c1" ?c2
    | (4) "i \<noteq> 0" "i \<noteq> 1" "\<not> ?c1" "\<not> ?c2" ?c3
    | (5) "i \<noteq> 0" "i \<noteq> 1" "\<not> ?c1" "\<not> ?c2" "\<not> ?c3" ?c4
    | (6) "i \<noteq> 0" "i \<noteq> 1" "\<not> ?c1" "\<not> ?c2" "\<not> ?c3" "\<not> ?c4" ?c5
    | (7) "i \<noteq> 0" "i \<noteq> 1" "\<not> ?c1" "\<not> ?c2" "\<not> ?c3" "\<not> ?c4" "\<not> ?c5" by blast
  note cases = this
  note eval = st int_width_def simp_thms if_True if_False
  show thesis
  proof (cases rule: cases)
    case 0 show ?thesis using st by (intro that(1)[OF 0]) (simp_all only: 0 int_width_def simp_thms if_True)
  next
    case 1 show ?thesis using st 1(1) by (intro that(2)[OF 1(2)]) (simp_all only: 1(2) int_width_def simp_thms if_True if_False)
  next
    case 2
    then show ?thesis by (intro that(3)[of 1]) (simp_all only: eval, simp_all)
  next
    case 3
    then show ?thesis by (intro that(3)[of 2]) (simp_all only: eval, simp_all)
  next
    case 4
    then show ?thesis by (intro that(3)[of 3]) (simp_all only: eval, simp_all)
  next
    case 5
    then show ?thesis by (intro that(3)[of 4]) (simp_all only: eval, simp_all)
  next
    case 6
    then show ?thesis by (intro that(3)[of 6]) (simp_all only: eval, simp_all)
  next
    case 7
    then show ?thesis using sint by (intro that(3)[of 8]) (simp_all only: eval, simp_all)
  qed
qed

lemma kind_simps:
  "kind 0 = Inr NullKind" "kind 1 = Inr I8" "kind 2 = Inr I16" "kind 3 = Inr I24"
  "kind 4 = Inr I32" "kind 5 = Inr I48" "kind 6 = Inr I64" "kind 7 = Inr F64"
  "kind 8 = Inr ConstInt0" "kind 9 = Inr ConstInt1"
  by (simp_all add: kind_def)

lemma write_value_eq: "write_value out v (serial_type_of v) = copy_front out (value_bytes v)"
proof (cases v)
  case (Numeric x)
  then show ?thesis
  proof (cases x)
    case (Integer i)
    show ?thesis unfolding Numeric Integer
      by (cases i rule: serial_int_cases)
        (auto simp: write_value_def value_bytes_def kind_simps int_to_be i64_to_be_def)
  qed (simp add: write_value_def value_bytes_def)
qed (simp_all add: write_value_def value_bytes_def)

lemma serial_var_size:
  assumes "n < 2 ^ 62"
  shows "unat ((serial_text (of_nat n) - 13) div 2) = n"
    "unat ((serial_blob (of_nat n) - 12) div 2) = n"
    "12 \<le> serial_text (of_nat n)" "12 \<le> serial_blob (of_nat n)"
    "serial_text (of_nat n) mod 2 = 1" "serial_blob (of_nat n) mod 2 = 0"
proof -
  have "unat (of_nat n :: u64) = n" using assms by (simp add: unat_of_nat)
  then have m2: "unat ((of_nat n :: u64) * 2) = n * 2"
    using assms by (subst unat_mult_lem[THEN iffD1]) simp_all
  have t: "unat (serial_text (of_nat n)) = 13 + n * 2"
    using assms unat_add_lem[of 13 "(of_nat n :: u64) * 2"] by (simp add: serial_text_def m2)
  have b: "unat (serial_blob (of_nat n)) = 12 + n * 2"
    using assms unat_add_lem[of 12 "(of_nat n :: u64) * 2"] by (simp add: serial_blob_def m2)
  show "12 \<le> serial_text (of_nat n)" "12 \<le> serial_blob (of_nat n)"
    by (simp_all add: word_le_nat_alt t b)
  show "serial_text (of_nat n) mod 2 = 1" "serial_blob (of_nat n) mod 2 = 0"
    by (simp_all add: word_unat_eq_iff unat_mod t b mod_Suc)
  have "unat (serial_text (of_nat n) - 13) = n * 2"
    by (simp add: serial_text_def m2)
  then show "unat ((serial_text (of_nat n) - 13) div 2) = n" by (simp add: unat_div)
  have "unat (serial_blob (of_nat n) - 12) = n * 2"
    by (simp add: serial_blob_def m2)
  then show "unat ((serial_blob (of_nat n) - 12) div 2) = n" by (simp add: unat_div)
qed


lemma ge_12_ne:
  fixes st :: u64
  assumes "12 \<le> st"
  shows "st \<noteq> 0" "st \<noteq> 1" "st \<noteq> 2" "st \<noteq> 3" "st \<noteq> 4" "st \<noteq> 5" "st \<noteq> 6" "st \<noteq> 7"
    "st \<noteq> 8" "st \<noteq> 9" "st \<noteq> 10" "st \<noteq> 11"
  using assms by (auto simp: word_le_nat_alt)

lemma serial_size_of:
  assumes "value_ok from_utf8 v"
  shows "get_serial_type_size (serial_type_of v) = Inr (length (value_bytes v))"
    and "serial_type_of v \<noteq> 10" "serial_type_of v \<noteq> 11"
proof -
  have "get_serial_type_size (serial_type_of v) = Inr (length (value_bytes v)) \<and>
      serial_type_of v \<noteq> 10 \<and> serial_type_of v \<noteq> 11"
  proof (cases v)
    case (Numeric x)
    then show ?thesis
    proof (cases x)
      case (Integer i)
      show ?thesis unfolding Numeric Integer
        by (cases i rule: serial_int_cases) (auto simp: value_bytes_def get_serial_type_size_def)
    qed (simp add: serial_type_of_def value_bytes_def get_serial_type_size_def)
  next
    case (Text t)
    then have t: "length t < 2 ^ 62" using assms by (simp add: value_ok_def)
    show ?thesis
      using serial_var_size[OF t] ge_12_ne[OF serial_var_size(3)[OF t]]
      by (simp add: Text serial_type_of_def value_bytes_def get_serial_type_size_def)
  next
    case (Blob b)
    then have b: "length b < 2 ^ 62" using assms by (simp add: value_ok_def)
    show ?thesis
      using serial_var_size[OF b] ge_12_ne[OF serial_var_size(4)[OF b]]
      by (simp add: Blob serial_type_of_def value_bytes_def get_serial_type_size_def)
  qed (simp add: serial_type_of_def value_bytes_def get_serial_type_size_def)
  then show "get_serial_type_size (serial_type_of v) = Inr (length (value_bytes v))"
    "serial_type_of v \<noteq> 10" "serial_type_of v \<noteq> 11" by blast+
qed

lemma read_int_of_bytes:
  assumes "(st, n) \<in> {(1, 1), (2, 2), (3, 3), (4, 4), (5, 6), (6, 8)}" "length bs = n"
  shows "read_value_serial_type be from_utf8 (bs @ rest) st =
           Inr (Numeric (Integer (word_of_int (be_to_int bs))), n)"
proof -
  let ?r = "read_value be from_utf8 (bs @ rest) st"
  have ne: "bs \<noteq> []" using assms by auto
  then have hd: "bs ! 0 = hd bs" by (simp add: hd_conv_nth)
  have sign: "be_to_int (sign_byte (hd bs) # bs) = be_to_int bs"
    "be_to_int (sign_byte (hd bs) # sign_byte (hd bs) # bs) = be_to_int bs"
    using be_to_int_sign_byte[OF ne] by (auto simp: be_to_int_def sign_byte_def)
  have "?r = Inr (Numeric (Integer (word_of_int (be_to_int bs))), n)"
  proof (cases "n = 1")
    case True
    then obtain b where "bs = [b]" using assms(2) by (auto simp: length_Suc_conv)
    then show ?thesis using assms(1) True int_from_be(1)[of "[b]"]
      by (auto simp: read_value_def kind_simps)
  next
    case False
    then show ?thesis using assms
      by (auto simp: read_value_def kind_simps hd signed_drop_bit_7 int_from_be sign Let_def)
  qed
  then show ?thesis using assms(1) by (auto simp: read_value_eq)
qed

text \<open>Reading back the bytes of a value, followed by anything, gives the value and its size.\<close>

lemma read_value_bytes:
  assumes "value_ok from_utf8 v"
  shows "read_value_serial_type be from_utf8 (value_bytes v @ rest) (serial_type_of v) =
           Inr (v, length (value_bytes v))"
proof (cases v)
  case (Numeric x)
  show ?thesis
  proof (cases x)
    case (Integer i)
    show ?thesis
    proof (cases i rule: serial_int_cases)
      case (3 n)
      then have "0 < n" "n \<le> 8" by auto
      then have "be_to_int (nat_to_be n (unat i)) = sint i"
        using 3(3,4) by (rule be_to_int_nat_to_be)
      then show ?thesis
        using read_int_of_bytes[OF 3(1), of "nat_to_be n (unat i)" be from_utf8 rest] 3(2)
        by (simp add: Numeric Integer value_bytes_def)
    qed (simp_all add: Numeric Integer value_bytes_def read_value_serial_type_def)
  next
    case (Float f)
    have "be_to_nat (nat_to_be 8 (unat f)) = unat f"
      using unat_u64_bound[of f] by simp
    then have "read_value be from_utf8 (value_bytes v @ rest) 7 = Inr (from_f64 f, 8)"
      by (simp add: read_value_def kind_simps Numeric Float value_bytes_def get_front_def)
    then show ?thesis using assms
      by (simp add: read_value_eq Numeric Float serial_type_of_def value_bytes_def from_f64_def
          NonNan_new_def value_ok_def)
  qed
next
  case (Text t)
  then have t: "length t < 2 ^ 62" "from_utf8 t" using assms by (simp_all add: value_ok_def)
  have "validate_utf8 be from_utf8 t = Some t" using t by (simp add: validate_utf8_def)
  then show ?thesis
    using serial_var_size[OF t(1)] ge_12_ne[OF serial_var_size(3)[OF t(1)]]
    by (simp add: Text serial_type_of_def value_bytes_def read_value_serial_type_def get_front_def
        read_text_def)
next
  case (Blob b)
  then have b: "length b < 2 ^ 62" using assms by (simp_all add: value_ok_def)
  show ?thesis
    using serial_var_size[OF b] ge_12_ne[OF serial_var_size(4)[OF b]]
    by (simp add: Blob serial_type_of_def value_bytes_def read_value_serial_type_def get_front_def)
qed (simp add: serial_type_of_def value_bytes_def read_value_serial_type_def)

text \<open>A successful read consumes the size of the serial type and stays inside the buffer.\<close>

lemma read_value_consumes:
  assumes "read_value_serial_type be from_utf8 buf st = Inr (v, n)"
  shows "get_serial_type_size st = Inr n" "n \<le> length buf"
  using assms
  by (cases st rule: serial_cases;
      auto simp: read_value_serial_type_def get_serial_type_size_def ge_12_ne Let_def
        Suc_le_eq split: if_splits)+

lemma read_value_errors:
  assumes "read_value_serial_type be from_utf8 buf st = Inl e"
  shows "e = Corrupt"
  using assms
  by (auto simp: read_value_serial_type_def Let_def and_then_Inl_iff get_front_def read_text_def
      split: if_splits option.splits)

lemma get_serial_type_size_error: "get_serial_type_size st = Inl e \<longleftrightarrow> (st = 10 \<or> st = 11) \<and> e = Corrupt"
  by (cases st rule: serial_cases) (auto simp: get_serial_type_size_def ge_12_ne)

lemma unat_ucast_byte [simp]: "unat (ucast (b :: byte) :: u64) = unat b"
proof -
  have "unat b < 2 ^ 64" using less_le_trans[OF unat_byte_bound] by simp
  then show ?thesis by (simp add: unsigned_ucast_eq take_bit_nat_eq_self)
qed

lemma ucast_byteD:
  assumes "(ucast (b :: byte) :: u64) = w"
  shows "b = of_nat (unat w)"
proof -
  have "b = of_nat (unat (ucast b :: u64))" by (simp only: unat_ucast_byte) simp
  then show ?thesis by (simp only: assms)
qed

lemma read_integer_eq:
  "read_integer buf b =
     (case read_value_serial_type be from_utf8 buf (ucast b) of
        Inr (Numeric (Integer i), _) \<Rightarrow> Inr i
      | Inr _ \<Rightarrow> Inl Corrupt
      | Inl e \<Rightarrow> Inl e)"
proof (cases "ucast b :: u64" rule: serial_cases)
  case 13
  then have ge: "12 \<le> b" by (simp add: word_le_nat_alt)
  then have "b \<notin> {1, 2, 3, 4, 5, 6, 8, 9}" by (auto simp: word_le_nat_alt)
  then have "read_integer buf b = Inl Corrupt" by (simp add: read_integer_def)
  then show ?thesis using 13
    by (auto simp: read_value_serial_type_def ge_12_ne[OF 13] Let_def get_front_def read_text_def
        split: option.splits)
qed (drule ucast_byteD, simp add: read_value_serial_type_def read_integer_def from_f64_def
      split: option.splits; fail)+

section \<open>Properties\<close>

text \<open>
  C11. Round trip of a single value: with the serial type that \<open>SerialType::from\<close> chooses,
  \<open>write_value\<close> stores \<open>SerialType::size\<close> bytes at the front of the buffer, leaves the rest
  of the buffer alone, and \<open>read_value_serial_type\<close> reads the value back.
\<close>

theorem value_roundtrip:
  assumes "value_ok from_utf8 v" "length (value_bytes v) \<le> length out"
  shows "\<exists>out' n. write_value out v (serial_type_of v) = Inr (out', n) \<and>
           serial_size (serial_type_of v) = Inr n \<and>
           read_value_serial_type be from_utf8 out' (serial_type_of v) = Inr (v, n) \<and>
           length out' = length out \<and> drop n out' = drop n out"
proof -
  let ?n = "length (value_bytes v)" and ?out = "put out 0 (value_bytes v)"
  have "write_value out v (serial_type_of v) = Inr (?out, ?n)"
    using assms(2) by (simp add: write_value_eq copy_front_def)
  moreover have "serial_size (serial_type_of v) = Inr ?n"
    using serial_size_of[OF assms(1)] by (simp add: serial_size_eq)
  moreover have "read_value_serial_type be from_utf8 ?out (serial_type_of v) = Inr (v, ?n)"
    using read_value_bytes[OF assms(1)] by (simp add: put_def)
  moreover have "drop ?n ?out = drop ?n out" by (simp add: put_def)
  ultimately show ?thesis using assms(2) by auto
qed

theorem value_roundtrip_witness:
  "\<exists>out' n. write_value (replicate 4 0) (Numeric (Integer (- 300))) (serial_type_of (Numeric (Integer (- 300)))) =
       Inr (out', n) \<and>
     serial_size (serial_type_of (Numeric (Integer (- 300)))) = Inr n \<and>
     read_value_serial_type False (\<lambda>_. True) out' (serial_type_of (Numeric (Integer (- 300)))) =
       Inr (Numeric (Integer (- 300)), n) \<and>
     length out' = length (replicate 4 (0 :: byte)) \<and> drop n out' = drop n (replicate 4 0)"
  by (rule value_roundtrip) (simp_all add: value_ok_def value_bytes_def int_width_def)

text \<open>
  C22. The three readers agree. \<open>read_value\<close> differs from \<open>read_value_serial_type\<close> only on the
  reserved serial types 10 and 11, where it panics and the other reports corruption;
  \<open>read_integer\<close> returns what \<open>read_value_serial_type\<close> returns when that is an integer and
  reports corruption otherwise.
\<close>

theorem value_readers_agree:
  "read_value be from_utf8 buf st =
     (if st = 10 \<or> st = 11 then Inl Panic else read_value_serial_type be from_utf8 buf st) \<and>
   read_integer buf b =
     (case read_value_serial_type be from_utf8 buf (ucast b) of
        Inr (Numeric (Integer i), _) \<Rightarrow> Inr i
      | Inr _ \<Rightarrow> Inl Corrupt
      | Inl e \<Rightarrow> Inl e)"
proof -
  have "read_integer buf b =
     (case read_value_serial_type be from_utf8 buf (ucast b) of
        Inr (Numeric (Integer i), _) \<Rightarrow> Inr i | Inr _ \<Rightarrow> Inl Corrupt | Inl e \<Rightarrow> Inl e)"
    by (rule read_integer_eq)
  then show ?thesis by (simp add: read_value_eq)
qed

text \<open>
  C23. The ASCII fast path of \<open>validate_utf8\<close> is exact: if the full validator accepts every
  ASCII string, then \<open>validate_utf8\<close> accepts exactly what the full validator accepts, for
  either byte order of the machine.
\<close>

theorem validate_utf8_exact:
  assumes "\<And>bs. (\<forall>b\<in>set bs. b < 0x80) \<Longrightarrow> from_utf8 bs"
  shows "validate_utf8 be from_utf8 data = (if from_utf8 data then Some data else None)"
  using assms by (auto simp: validate_utf8_def is_ascii_iff)

theorem validate_utf8_exact_witness:
  "validate_utf8 False (\<lambda>bs. \<forall>b\<in>set bs. b < 0x80) [0x61, 0xc3] = None"
  using validate_utf8_exact[of "\<lambda>bs. \<forall>b\<in>set bs. b < 0x80" False "[0x61, 0xc3]"] by simp

text \<open>
  C26. \<open>serialize_serial\<close> appends the encoding of the value, except for the integers 0 and 1:
  their serial types carry no bytes, the match has no arm for them and the call panics.
\<close>

theorem serialize_serial_appends:
  "serialize_serial out v =
     (if v = Numeric (Integer 0) \<or> v = Numeric (Integer 1) then Inl Panic
      else Inr (out @ value_bytes v))"
proof (cases v)
  case (Numeric x)
  show ?thesis
  proof (cases x)
    case (Integer i)
    show ?thesis unfolding Numeric Integer
      by (cases i rule: serial_int_cases)
        (auto simp: serialize_serial_def value_bytes_def kind_simps int_to_be i64_to_be_def
          serial_type_of_def[of "Numeric (Integer 0)"] serial_type_of_def[of "Numeric (Integer 1)"])
  qed (simp add: Numeric serialize_serial_def value_bytes_def)
qed (simp_all add: serialize_serial_def value_bytes_def)

end
