(* ===== verification/RecordFormat.thy ===== *)
theory RecordFormat
  imports SerialType
begin

text \<open>
  Records: the serialised rows of tables and indexes, from \<open>core/types.rs\<close>. A record is a
  header (its own size and one serial type per column, all varints) followed by the bodies
  of the columns. Modelled are the two encoders (\<open>ImmutableRecord::build\<close>, which sizes and
  then writes in place, and \<open>Record::serialize\<close>, which appends), the iterator over the
  columns with its shortcuts \<open>nth\<close>, \<open>last\<close> and \<open>count\<close>, and the accessors built on it.
  Additions of \<open>usize\<close> offsets in the iterator wrap around, as in a build without overflow checks:
  they come from the bytes of the payload. The sizes the encoders add up are those of values in memory
  and are natural numbers.
\<close>

section \<open>Encoding\<close>

text \<open>
  The loop of \<open>calc_header_size\<close> has no bound of its own: \<open>None\<close> is a loop that does not end.
\<close>

partial_function (option) calc_header_loop :: "nat \<Rightarrow> nat \<Rightarrow> nat result option" where
  "calc_header_loop sizeof_serial_types header_size =
     (case write_varint (replicate 9 0) (of_nat header_size) of
        Inl e \<Rightarrow> Some (Inl e)
      | Inr (_, n) \<Rightarrow>
          if sizeof_serial_types + n = header_size then Some (Inr header_size)
          else calc_header_loop sizeof_serial_types (sizeof_serial_types + n))"

definition calc_header_size :: "nat \<Rightarrow> nat result option" where
  "calc_header_size sizeof_serial_types =
     (if sizeof_serial_types < 127 then Some (Inr (sizeof_serial_types + 1))
      else calc_header_loop sizeof_serial_types sizeof_serial_types)"

definition write_short_varint :: "byte list \<Rightarrow> u64 \<Rightarrow> (byte list \<times> nat) result" where
  "write_short_varint out v =
     (if v \<le> 0x7f then (if out = [] then Inl Panic else Inr (out[0 := ucast v], 1))
      else write_varint out v)"

text \<open>A callee that writes at the front of \<open>&mut buf[a..b]\<close>.\<close>

definition with_slice ::
    "byte list \<Rightarrow> nat \<Rightarrow> nat \<Rightarrow> (byte list \<Rightarrow> (byte list \<times> nat) result) \<Rightarrow> (byte list \<times> nat) result" where
  "with_slice buf a b f =
     (if a \<le> b \<and> b \<le> length buf then
        and_then (f (slice buf a (b - a))) (\<lambda>(s, n). Inr (put buf a s, n))
      else Inl Panic)"

fun size_pass :: "val list \<Rightarrow> nat \<Rightarrow> nat \<Rightarrow> (nat \<times> nat) result" where
  "size_pass [] size_header size_values = Inr (size_header, size_values)"
| "size_pass (v # vs) size_header size_values =
     and_then (serial_size (serial_type_of v)) (\<lambda>n.
       size_pass vs (size_header + varint_len (serial_type_of v)) (size_values + n))"

fun write_pass ::
    "val list \<Rightarrow> byte list \<Rightarrow> nat \<Rightarrow> nat \<Rightarrow> nat \<Rightarrow> (byte list \<times> nat \<times> nat) result" where
  "write_pass [] buf header_size header_pos value_pos = Inr (buf, header_pos, value_pos)"
| "write_pass (v # vs) buf header_size header_pos value_pos =
     (let st = serial_type_of v
      in and_then (with_slice buf header_pos header_size (\<lambda>out. write_short_varint out st)) (\<lambda>(buf, n).
         and_then (with_slice buf value_pos (length buf) (\<lambda>out. write_value out v st)) (\<lambda>(buf, m).
           write_pass vs buf header_size (header_pos + n) (value_pos + m))))"

definition max_blob_length :: nat where
  "max_blob_length = 1000000000"

text \<open>\<open>buf.resize(total_size, 0)\<close> keeps what a recycled buffer holds.\<close>

definition resize :: "byte list \<Rightarrow> nat \<Rightarrow> byte list" where
  "resize buf n = take n buf @ replicate (n - length buf) 0"

definition record_build :: "val list \<Rightarrow> byte list \<Rightarrow> byte list result option" where
  "record_build vs buf =
     (case size_pass vs 0 0 of
        Inl e \<Rightarrow> Some (Inl e)
      | Inr (size_header, size_values) \<Rightarrow>
          map_option (\<lambda>r. and_then r (\<lambda>header_size.
            let total_size = header_size + size_values
            in if total_size > max_blob_length then Inl TooBig
               else and_then (with_slice (resize buf total_size) 0 header_size
                        (\<lambda>out. write_short_varint out (of_nat header_size))) (\<lambda>(buf, header_pos).
                    and_then (write_pass vs buf header_size header_pos header_size)
                      (\<lambda>(buf, header_pos, value_pos).
                    and_then (ensure (header_pos = header_size \<and> value_pos = total_size) Panic) (\<lambda>_.
                      Inr buf)))))
            (calc_header_size size_header))"

text \<open>
  \<open>Record::serialize\<close>: each serial type is written into nine fresh zero bytes, of which the
  unused ones are cut off again.
\<close>

fun serialize_types :: "val list \<Rightarrow> byte list \<Rightarrow> byte list result" where
  "serialize_types [] buf = Inr buf"
| "serialize_types (v # vs) buf =
     and_then (write_varint (replicate 9 0) (serial_type_of v)) (\<lambda>(out, n).
       serialize_types vs (buf @ take n out))"

definition serialize_content :: "byte list \<Rightarrow> val \<Rightarrow> byte list result" where
  "serialize_content buf v =
     (case v of
        Null \<Rightarrow> Inr buf
      | Numeric (Integer i) \<Rightarrow>
          and_then (kind (serial_type_of v)) (\<lambda>k. case k of
             ConstInt0 \<Rightarrow> Inr buf
           | ConstInt1 \<Rightarrow> Inr buf
           | I8 \<Rightarrow> Inr (buf @ [ucast i])
           | I16 \<Rightarrow> Inr (buf @ i16_to_be i)
           | I24 \<Rightarrow> Inr (buf @ drop 1 (i32_to_be i))
           | I32 \<Rightarrow> Inr (buf @ i32_to_be i)
           | I48 \<Rightarrow> Inr (buf @ drop 2 (i64_to_be i))
           | I64 \<Rightarrow> Inr (buf @ i64_to_be i)
           | _ \<Rightarrow> Inl Panic)
      | Numeric (Float f) \<Rightarrow> Inr (buf @ nat_to_be 8 (unat f))
      | Text t \<Rightarrow> Inr (buf @ t)
      | Blob b \<Rightarrow> Inr (buf @ b))"

fun serialize_contents :: "val list \<Rightarrow> byte list \<Rightarrow> byte list result" where
  "serialize_contents [] buf = Inr buf"
| "serialize_contents (v # vs) buf =
     and_then (serialize_content buf v) (\<lambda>buf. serialize_contents vs buf)"

definition record_serialize :: "val list \<Rightarrow> byte list \<Rightarrow> byte list result option" where
  "record_serialize vs buf =
     (let initial_i = length buf
      in case serialize_types vs buf of
           Inl e \<Rightarrow> Some (Inl e)
         | Inr buf1 \<Rightarrow>
            (case serialize_contents vs buf1 of
               Inl e \<Rightarrow> Some (Inl e)
             | Inr buf2 \<Rightarrow>
                map_option (\<lambda>r. and_then r (\<lambda>header_size.
                  and_then (write_varint (replicate 9 0) (of_nat header_size)) (\<lambda>(out, n).
                    Inr (take initial_i buf2 @ take n out @ drop initial_i buf2))))
                  (calc_header_size (length buf1 - initial_i))))"

section \<open>The column iterator\<close>

record value_iterator =
  header_section :: "byte list"
  data_section :: "byte list"

definition value_iterator_new :: "byte list \<Rightarrow> value_iterator result" where
  "value_iterator_new payload =
     and_then (read_varint payload) (\<lambda>(hs, header_varint_len).
       let header_size = unat hs
       in if header_size > length payload \<or> header_varint_len > length payload
             \<or> header_varint_len > header_size
          then Inl Corrupt
          else Inr \<lparr>header_section = slice payload header_varint_len (header_size - header_varint_len),
                    data_section = drop header_size payload\<rparr>)"

definition iter_is_empty :: "value_iterator \<Rightarrow> bool" where
  "iter_is_empty it \<longleftrightarrow> header_section it = []"

function iter_count_loop :: "byte list \<Rightarrow> nat \<Rightarrow> nat" where
  "iter_count_loop header count =
     (if header = [] then count
      else case read_varint header of
             Inr (_, bytes_read) \<Rightarrow> iter_count_loop (drop bytes_read header) (count + 1)
           | Inl _ \<Rightarrow> count)"
  by pat_completeness auto
termination
  by (relation "measure (length \<circ> fst)") (auto dest: read_varint_bounds)

declare iter_count_loop.simps [simp del]

definition iter_count :: "value_iterator \<Rightarrow> nat" where
  "iter_count it = iter_count_loop (header_section it) 0"

type_synonym item = "val result option"

definition iter_next ::
    "bool \<Rightarrow> (byte list \<Rightarrow> bool) \<Rightarrow> value_iterator \<Rightarrow> item \<times> value_iterator" where
  "iter_next be from_utf8 it =
     (if header_section it = [] then (None, it)
      else case read_varint (header_section it) of
             Inl e \<Rightarrow> (Some (Inl e), it)
           | Inr (serial_type, bytes_read) \<Rightarrow>
               let it' = it\<lparr>header_section := drop bytes_read (header_section it)\<rparr>
               in (case read_value_serial_type be from_utf8 (data_section it) serial_type of
                     Inr (v, n) \<Rightarrow>
                       (Some (Inr v), it'\<lparr>data_section := drop n (data_section it)\<rparr>)
                   | Inl e \<Rightarrow> (Some (Inl e), it')))"

text \<open>
  The loop of \<open>nth\<close> over the skipped columns: \<open>Inl\<close> is an early return of an item, \<open>Inr\<close> the
  rest of the header and the sum of the skipped sizes.
\<close>

fun iter_skip :: "nat \<Rightarrow> byte list \<Rightarrow> nat \<Rightarrow> item + (byte list \<times> nat)" where
  "iter_skip 0 header data_sum = Inr (header, data_sum)"
| "iter_skip (Suc n) header data_sum =
     (if header = [] then Inl None
      else case read_varint header of
             Inl e \<Rightarrow> Inl (Some (Inl e))
           | Inr (serial_type, bytes_read) \<Rightarrow>
              (case get_serial_type_size serial_type of
                 Inl e \<Rightarrow> Inl (Some (Inl e))
               | Inr sz \<Rightarrow> iter_skip n (drop bytes_read header) ((data_sum + sz) mod 2 ^ 64)))"

definition iter_nth ::
    "bool \<Rightarrow> (byte list \<Rightarrow> bool) \<Rightarrow> value_iterator \<Rightarrow> nat \<Rightarrow> item \<times> value_iterator" where
  "iter_nth be from_utf8 it n =
     (case iter_skip n (header_section it) 0 of
        Inl r \<Rightarrow> (r, it)
      | Inr (header, data_sum) \<Rightarrow>
          if data_sum > length (data_section it) then (Some (Inl Corrupt), it)
          else iter_next be from_utf8
                 (it\<lparr>header_section := header, data_section := drop data_sum (data_section it)\<rparr>))"

function iter_last_loop :: "byte list \<Rightarrow> nat \<Rightarrow> (u64 \<times> nat) result" where
  "iter_last_loop header data_offset =
     (case read_varint header of
        Inl e \<Rightarrow> Inl e
      | Inr (serial_type, bytes_read) \<Rightarrow>
          let header' = drop bytes_read header
          in if header' = [] then Inr (serial_type, data_offset)
             else case get_serial_type_size serial_type of
                    Inl e \<Rightarrow> Inl e
                  | Inr sz \<Rightarrow> iter_last_loop header' ((data_offset + sz) mod 2 ^ 64))"
  by pat_completeness auto
termination
  by (relation "measure (length \<circ> fst)") (auto dest: read_varint_bounds)

declare iter_last_loop.simps [simp del]

definition iter_last :: "bool \<Rightarrow> (byte list \<Rightarrow> bool) \<Rightarrow> value_iterator \<Rightarrow> item" where
  "iter_last be from_utf8 it =
     (if header_section it = [] then None
      else case iter_last_loop (header_section it) 0 of
             Inl e \<Rightarrow> Some (Inl e)
           | Inr (last_serial_type, data_offset) \<Rightarrow>
               if data_offset > length (data_section it) then Some (Inl Corrupt)
               else (case read_value_serial_type be from_utf8
                            (drop data_offset (data_section it)) last_serial_type of
                       Inr (v, _) \<Rightarrow> Some (Inr v)
                     | Inl e \<Rightarrow> Some (Inl e)))"

section \<open>Accessors of a payload\<close>

text \<open>\<open>try_collect\<close>: iterate until the end or the first error.\<close>

function iter_collect ::
    "bool \<Rightarrow> (byte list \<Rightarrow> bool) \<Rightarrow> value_iterator \<Rightarrow> val list result" where
  "iter_collect be from_utf8 it =
     (case iter_next be from_utf8 it of
        (None, _) \<Rightarrow> Inr []
      | (Some (Inl e), _) \<Rightarrow> Inl e
      | (Some (Inr v), it') \<Rightarrow> and_then (iter_collect be from_utf8 it') (\<lambda>vs. Inr (v # vs)))"
  by pat_completeness auto
termination
  by (relation "measure (\<lambda>(_, _, it). length (header_section it))")
    (auto simp: iter_next_def Let_def split: if_splits sum.splits prod.splits
      dest: read_varint_bounds)

declare iter_collect.simps [simp del]

definition record_values :: "bool \<Rightarrow> (byte list \<Rightarrow> bool) \<Rightarrow> byte list \<Rightarrow> val list result" where
  "record_values be from_utf8 payload =
     and_then (value_iterator_new payload) (\<lambda>it. iter_collect be from_utf8 it)"

fun iter_take ::
    "bool \<Rightarrow> (byte list \<Rightarrow> bool) \<Rightarrow> nat \<Rightarrow> value_iterator \<Rightarrow> val list result" where
  "iter_take be from_utf8 0 it = Inr []"
| "iter_take be from_utf8 (Suc k) it =
     (case iter_next be from_utf8 it of
        (None, _) \<Rightarrow> Inr []
      | (Some (Inl e), _) \<Rightarrow> Inl e
      | (Some (Inr v), it') \<Rightarrow> and_then (iter_take be from_utf8 k it') (\<lambda>vs. Inr (v # vs)))"

definition values_range ::
    "bool \<Rightarrow> (byte list \<Rightarrow> bool) \<Rightarrow> byte list \<Rightarrow> nat \<Rightarrow> nat \<Rightarrow> val list result" where
  "values_range be from_utf8 payload start stop =
     and_then (value_iterator_new payload) (\<lambda>it.
       case iter_nth be from_utf8 it start of
         (None, _) \<Rightarrow> Inr []
       | (Some (Inl e), _) \<Rightarrow> Inl e
       | (Some (Inr v), it') \<Rightarrow>
           and_then (iter_take be from_utf8 (stop - (start + 1)) it') (\<lambda>vs. Inr (v # vs)))"

definition usize_sub :: "nat \<Rightarrow> nat \<Rightarrow> nat" where
  "usize_sub a b = (a + 2 ^ 64 - b) mod 2 ^ 64"

definition two_values ::
    "bool \<Rightarrow> (byte list \<Rightarrow> bool) \<Rightarrow> byte list \<Rightarrow> nat \<Rightarrow> nat \<Rightarrow> (val \<times> val) result" where
  "two_values be from_utf8 payload idx1 idx2 =
     and_then (value_iterator_new payload) (\<lambda>it.
       case iter_nth be from_utf8 it idx1 of (val1, it1) \<Rightarrow>
       (case iter_nth be from_utf8 it1 (usize_sub (usize_sub idx2 idx1) 1) of (val2, _) \<Rightarrow>
         (case (val1, val2) of
            (Some v1, Some v2) \<Rightarrow> and_then v1 (\<lambda>v1. and_then v2 (\<lambda>v2. Inr (v1, v2)))
          | _ \<Rightarrow> Inl InternalError)))"

function contains_null_loop :: "byte list \<Rightarrow> bool result" where
  "contains_null_loop header =
     (if header = [] then Inr False
      else case read_varint header of
             Inl e \<Rightarrow> Inl e
           | Inr (serial_type, bytes_read) \<Rightarrow>
               if serial_type = 0 then Inr True else contains_null_loop (drop bytes_read header))"
  by pat_completeness auto
termination
  by (relation "measure length") (auto dest: read_varint_bounds)

declare contains_null_loop.simps [simp del]

text \<open>The slice \<open>&payload[header_varint_len..header_size]\<close> panics when its start is past its end.\<close>

definition contains_null :: "byte list \<Rightarrow> bool result" where
  "contains_null payload =
     and_then (read_varint payload) (\<lambda>(hs, header_varint_len).
       let header_size = unat hs
       in if header_size > length payload \<or> header_varint_len > length payload then Inl Corrupt
          else if header_varint_len > header_size then Inl Panic
          else contains_null_loop
                 (slice payload header_varint_len (header_size - header_varint_len)))"

definition last_value :: "bool \<Rightarrow> (byte list \<Rightarrow> bool) \<Rightarrow> byte list \<Rightarrow> item" where
  "last_value be from_utf8 payload =
     (if payload = [] then Some (Inl InternalError)
      else case value_iterator_new payload of
             Inl e \<Rightarrow> Some (Inl e)
           | Inr it \<Rightarrow> iter_last be from_utf8 it)"

definition first_value :: "bool \<Rightarrow> (byte list \<Rightarrow> bool) \<Rightarrow> byte list \<Rightarrow> val result" where
  "first_value be from_utf8 payload =
     (if payload = [] then Inl InternalError
      else and_then (value_iterator_new payload) (\<lambda>it.
             case fst (iter_next be from_utf8 it) of Some v \<Rightarrow> v | None \<Rightarrow> Inl InternalError))"

definition record_value :: "bool \<Rightarrow> (byte list \<Rightarrow> bool) \<Rightarrow> byte list \<Rightarrow> nat \<Rightarrow> val result" where
  "record_value be from_utf8 payload idx =
     (if payload = [] then Inl InternalError
      else and_then (value_iterator_new payload) (\<lambda>it.
             case fst (iter_nth be from_utf8 it idx) of
               Some v \<Rightarrow> v
             | None \<Rightarrow> Inl InternalError))"

definition value_opt :: "bool \<Rightarrow> (byte list \<Rightarrow> bool) \<Rightarrow> byte list \<Rightarrow> nat \<Rightarrow> val option" where
  "value_opt be from_utf8 payload idx =
     (case value_iterator_new payload of
        Inl _ \<Rightarrow> None
      | Inr it \<Rightarrow>
         (case fst (iter_nth be from_utf8 it idx) of Some (Inr v) \<Rightarrow> Some v | _ \<Rightarrow> None))"

definition column_count :: "byte list \<Rightarrow> nat" where
  "column_count payload =
     (case value_iterator_new payload of Inr it \<Rightarrow> iter_count it | Inl _ \<Rightarrow> 0)"

section \<open>Sizes\<close>

lemma varint_len_bounds: "0 < varint_len w" "varint_len w \<le> 9"
  using read_varint_bounds[OF read_encode_varint[of w "[]"]] by (simp_all add: length_encode_varint)

lemma varint_len_lt:
  assumes "varint_len w < 9"
  shows "unat w < 2 ^ (7 * varint_len w)"
  using assms read_varint_loop_bound[of 8 "encode_varint w" 0 0 w "varint_len w"]
    read_encode_varint[of w "[]"]
  by (simp add: read_varint_is_loop length_encode_varint)

lemma varint_len_mono:
  assumes "a \<le> b" "b < 2 ^ 64"
  shows "varint_len (of_nat a) \<le> varint_len (of_nat b)"
proof (cases "varint_len (of_nat b) < 9")
  case True
  have "unat (of_nat a :: u64) = a" "unat (of_nat b :: u64) = b"
    using assms by (simp_all add: unat_of_nat)
  then have "unat (of_nat a :: u64) < 2 ^ (7 * varint_len (of_nat b))"
    using varint_len_lt[OF True] assms(1) by simp
  then show ?thesis using True varint_len_bounds[of "of_nat b"] by (rule_tac varint_len_le) linarith+
next
  case False
  then show ?thesis using varint_len_bounds[of "of_nat a"] by simp
qed

lemma write_varint_eq: "write_varint buf v = copy_front buf (encode_varint v)"
  by (simp add: write_varint_def copy_front_def Let_def)

lemma write_varint_9: "write_varint (replicate 9 0) v =
    Inr (encode_varint v @ replicate (9 - varint_len v) 0, varint_len v)"
  using varint_len_bounds[of v]
  by (simp add: write_varint_eq copy_front_def put_def length_encode_varint)

text \<open>Started below a fixed point, the loop climbs to the least one.\<close>

lemma calc_header_loop_least:
  assumes "n + 9 < 2 ^ 64" "n \<le> hs" "hs \<le> n + varint_len (of_nat hs)"
  shows "\<exists>h. calc_header_loop n hs = Some (Inr h) \<and> h = n + varint_len (of_nat h) \<and>
           (\<forall>k\<ge>hs. k = n + varint_len (of_nat k) \<longrightarrow> h \<le> k)"
  using assms(2,3)
proof (induction "n + 9 - hs" arbitrary: hs rule: less_induct)
  case less
  let ?hs' = "n + varint_len (of_nat hs)"
  have hs': "?hs' < 2 ^ 64" using varint_len_bounds[of "of_nat hs"] assms(1) by linarith
  have step: "calc_header_loop n hs =
      (if ?hs' = hs then Some (Inr hs) else calc_header_loop n ?hs')"
    by (subst calc_header_loop.simps) (simp add: write_varint_9)
  show ?case
  proof (cases "?hs' = hs")
    case True
    then show ?thesis using step by auto
  next
    case False
    then have lt: "hs < ?hs'" using less.prems by simp
    then have "n + 9 - ?hs' < n + 9 - hs" using varint_len_bounds[of "of_nat hs"] by simp
    moreover have "?hs' \<le> n + varint_len (of_nat ?hs')"
      using varint_len_mono[of hs ?hs'] lt hs' by simp
    ultimately obtain h where h: "calc_header_loop n ?hs' = Some (Inr h)"
      "h = n + varint_len (of_nat h)" "\<forall>k\<ge>?hs'. k = n + varint_len (of_nat k) \<longrightarrow> h \<le> k"
      using less.hyps[of ?hs'] less.prems(1) by auto
    have "h \<le> k" if "k \<ge> hs" "k = n + varint_len (of_nat k)" for k
    proof -
      have "k < 2 ^ 64" using that(2) varint_len_bounds[of "of_nat k"] assms(1) by linarith
      then have "?hs' \<le> k" using varint_len_mono[of hs k] that by simp
      then show ?thesis using h(3) that(2) by blast
    qed
    then show ?thesis using h(1,2) step False by auto
  qed
qed

lemma calc_header_size_least:
  assumes "n + 9 < 2 ^ 64"
  shows "\<exists>h. calc_header_size n = Some (Inr h) \<and> h = n + varint_len (of_nat h) \<and>
           (\<forall>k. k = n + varint_len (of_nat k) \<longrightarrow> h \<le> k)"
proof (cases "n < 127")
  case True
  have "unat (of_nat (n + 1) :: u64) = n + 1" using True by (subst unat_of_nat) simp
  then have "varint_len (of_nat (n + 1)) = 1" using True
    by (simp add: varint_len_def word_le_nat_alt del: of_nat_add)
  moreover have "n + 1 \<le> k" if "k = n + varint_len (of_nat k)" for k
    using that varint_len_bounds[of "of_nat k"] by linarith
  ultimately show ?thesis using True by (auto simp: calc_header_size_def)
next
  case False
  obtain h where h: "calc_header_loop n n = Some (Inr h)" "h = n + varint_len (of_nat h)"
    "\<forall>k\<ge>n. k = n + varint_len (of_nat k) \<longrightarrow> h \<le> k"
    using calc_header_loop_least[OF assms, of n] by auto
  have "h \<le> k" if "k = n + varint_len (of_nat k)" for k
    using h(3) that by (metis le_add1)
  then show ?thesis using h(1,2) False by (auto simp: calc_header_size_def)
qed

section \<open>The layout of a record\<close>

definition header_bytes :: "val list \<Rightarrow> byte list" where
  "header_bytes vs = concat (map (\<lambda>v. encode_varint (serial_type_of v)) vs)"

definition body_bytes :: "val list \<Rightarrow> byte list" where
  "body_bytes vs = concat (map value_bytes vs)"

lemma header_bytes_simps [simp]:
  "header_bytes [] = []" "header_bytes (v # vs) = encode_varint (serial_type_of v) @ header_bytes vs"
  by (simp_all add: header_bytes_def)

lemma body_bytes_simps [simp]:
  "body_bytes [] = []" "body_bytes (v # vs) = value_bytes v @ body_bytes vs"
  by (simp_all add: body_bytes_def)

lemma write_short_varint_eq: "write_short_varint out v = copy_front out (encode_varint v)"
proof (cases "v \<le> 0x7f")
  case True
  then have "take_bit 7 v = v"
    by (simp add: word_unat_eq_iff unsigned_take_bit_eq take_bit_nat_eq_self word_le_nat_alt)
  then have "v AND 0x7f = v" by (simp add: take_bit_eq_mask mask_eq_exp_minus_1)
  then have "encode_varint v = [ucast v]" using True by (simp add: encode_varint_def)
  then show ?thesis using True
    by (cases out) (simp_all add: write_short_varint_def copy_front_def put_def)
next
  case False
  then show ?thesis by (simp add: write_short_varint_def write_varint_eq)
qed

lemma with_slice_copy_front:
  assumes "length A = a" "length A + length B = b" "length xs \<le> length B"
  shows "with_slice (A @ B @ C) a b (\<lambda>out. copy_front out xs) =
           Inr (A @ xs @ drop (length xs) B @ C, length xs)"
  using assms by (auto simp: with_slice_def copy_front_def put_def slice_def)

lemma size_pass_eq:
  "list_all (value_ok from_utf8) vs \<Longrightarrow>
     size_pass vs h n = Inr (h + length (header_bytes vs), n + length (body_bytes vs))"
  by (induction vs arbitrary: h n)
    (auto simp: serial_size_eq serial_size_of length_encode_varint)

text \<open>
  One buffer \<open>A @ B @ C @ D\<close>: the header written so far, the rest of the header, the bodies
  written so far, and the rest of the buffer.
\<close>

lemma write_pass_eq:
  assumes "length A = hp" "hp + length B = hs" "vp = hs + length C"
    "length (header_bytes vs) \<le> length B" "length (body_bytes vs) \<le> length D"
  shows "write_pass vs (A @ B @ C @ D) hs hp vp =
           Inr (A @ header_bytes vs @ drop (length (header_bytes vs)) B @
                C @ body_bytes vs @ drop (length (body_bytes vs)) D,
                hp + length (header_bytes vs), vp + length (body_bytes vs))"
  using assms
proof (induction vs arbitrary: A B C D hp vp)
  case (Cons v vs)
  let ?st = "encode_varint (serial_type_of v)"
  let ?A = "A @ ?st" and ?B = "drop (length ?st) B"
  let ?C = "C @ value_bytes v" and ?D = "drop (length (value_bytes v)) D"
  have 1: "with_slice (A @ B @ C @ D) hp hs (\<lambda>out. write_short_varint out (serial_type_of v)) =
      Inr (?A @ ?B @ C @ D, length ?st)"
    using Cons.prems with_slice_copy_front[of A hp B hs ?st "C @ D"]
    by (simp add: write_short_varint_eq)
  have 2: "with_slice (?A @ ?B @ C @ D) vp (length (?A @ ?B @ C @ D))
        (\<lambda>out. write_value out v (serial_type_of v)) =
      Inr (?A @ ?B @ ?C @ ?D, length (value_bytes v))"
    using Cons.prems
      with_slice_copy_front[of "?A @ ?B @ C" vp D "length (?A @ ?B @ C @ D)" "value_bytes v" "[]"]
    by (simp add: write_value_eq)
  have 3: "write_pass vs (?A @ ?B @ ?C @ ?D) hs (hp + length ?st) (vp + length (value_bytes v)) =
      Inr (?A @ header_bytes vs @ drop (length (header_bytes vs)) ?B @
           ?C @ body_bytes vs @ drop (length (body_bytes vs)) ?D,
           hp + length ?st + length (header_bytes vs),
           vp + length (value_bytes v) + length (body_bytes vs))"
    using Cons.prems by (intro Cons.IH) auto
  show ?case
    unfolding write_pass.simps Let_def 1 and_then.simps prod.case 2 3
    by (simp add: add.assoc add.commute)
qed simp

definition record_layout :: "nat \<Rightarrow> val list \<Rightarrow> byte list" where
  "record_layout h vs = encode_varint (of_nat h) @ header_bytes vs @ body_bytes vs"

lemma header_bytes_bound: "length (header_bytes vs) \<le> 9 * length vs"
proof (induction vs)
  case (Cons v vs)
  then show ?case using varint_len_bounds[of "serial_type_of v"] by (simp add: length_encode_varint)
qed simp

lemma header_size_of:
  assumes "length vs < 2 ^ 60"
  obtains h where "calc_header_size (length (header_bytes vs)) = Some (Inr h)"
    "h = length (header_bytes vs) + varint_len (of_nat h)" "h < 2 ^ 64"
proof -
  have le: "length (header_bytes vs) + 9 < 2 ^ 64"
    using header_bytes_bound[of vs] assms by simp
  obtain h where h: "calc_header_size (length (header_bytes vs)) = Some (Inr h)"
    "h = length (header_bytes vs) + varint_len (of_nat h)"
    using calc_header_size_least[OF le] by blast
  then have "h < 2 ^ 64" using le varint_len_bounds(2)[of "of_nat h"] by linarith
  then show thesis using that h by blast
qed

lemma record_build_eq:
  assumes "list_all (value_ok from_utf8) vs"
    and h: "calc_header_size (length (header_bytes vs)) = Some (Inr h)"
    "h = length (header_bytes vs) + varint_len (of_nat h)"
  shows "record_build vs buf =
           Some (if h + length (body_bytes vs) > max_blob_length then Inl TooBig
                 else Inr (record_layout h vs))"
proof (cases "h + length (body_bytes vs) > max_blob_length")
  case True
  then show ?thesis using size_pass_eq[OF assms(1)] h(1) by (simp add: record_build_def)
next
  case False
  let ?total = "h + length (body_bytes vs)" and ?e = "encode_varint (of_nat h)"
  let ?B = "take h (resize buf ?total)" and ?D = "drop h (resize buf ?total)"
  have len: "length (resize buf ?total) = ?total" by (simp add: resize_def)
  have e: "length ?e \<le> h" using h(2) by (simp add: length_encode_varint)
  have 1: "with_slice (resize buf ?total) 0 h (\<lambda>out. write_short_varint out (of_nat h)) =
      Inr (?e @ drop (length ?e) ?B @ ?D, length ?e)"
    using e len with_slice_copy_front[of "[]" 0 ?B h ?e ?D] by (simp add: write_short_varint_eq)
  have "write_pass vs (?e @ drop (length ?e) ?B @ [] @ ?D) h (length ?e) h =
      Inr (record_layout h vs, h, ?total)"
    using h(2) len by (subst write_pass_eq) (auto simp: length_encode_varint record_layout_def)
  then have 2: "write_pass vs (?e @ drop (length ?e) ?B @ ?D) h (length ?e) h =
      Inr (record_layout h vs, h, ?total)" by simp
  show ?thesis
    using size_pass_eq[OF assms(1), of 0 0] h(1) False
    by (simp add: record_build_def Let_def 1 2)
qed

lemma serialize_types_eq: "serialize_types vs buf = Inr (buf @ header_bytes vs)"
  by (induction vs arbitrary: buf) (auto simp: write_varint_9 length_encode_varint)

lemma serialize_content_eq: "serialize_content buf v = Inr (buf @ value_bytes v)"
proof (cases v)
  case (Numeric x)
  show ?thesis
  proof (cases x)
    case (Integer i)
    show ?thesis unfolding Numeric Integer
      by (cases i rule: serial_int_cases)
        (auto simp: serialize_content_def value_bytes_def kind_simps int_to_be i64_to_be_def)
  qed (simp add: Numeric serialize_content_def value_bytes_def)
qed (simp_all add: serialize_content_def value_bytes_def)

lemma serialize_contents_eq: "serialize_contents vs buf = Inr (buf @ body_bytes vs)"
  by (induction vs arbitrary: buf) (auto simp: serialize_content_eq)

lemma record_serialize_eq:
  assumes "calc_header_size (length (header_bytes vs)) = Some (Inr h)"
  shows "record_serialize vs buf = Some (Inr (buf @ record_layout h vs))"
  using assms
  by (simp add: record_serialize_def serialize_types_eq serialize_contents_eq write_varint_9
      length_encode_varint record_layout_def)

section \<open>Walking a record\<close>

lemma iter_next_Some_Inr:
  "iter_next be u it = (Some (Inr v), it') \<longleftrightarrow>
     (\<exists>st n m. header_section it \<noteq> [] \<and> read_varint (header_section it) = Inr (st, n) \<and>
        read_value_serial_type be u (data_section it) st = Inr (v, m) \<and>
        it' = it\<lparr>header_section := drop n (header_section it),
                 data_section := drop m (data_section it)\<rparr>)"
  by (auto simp: iter_next_def Let_def split: sum.splits prod.splits)

lemma iter_next_None: "iter_next be u it = (None, it') \<longleftrightarrow> header_section it = [] \<and> it' = it"
  by (auto simp: iter_next_def Let_def split: sum.splits prod.splits)

lemma iter_collect_Nil: "iter_collect be u it = Inr [] \<longleftrightarrow> header_section it = []"
  by (subst iter_collect.simps)
    (auto simp: iter_next_None iter_next_Some_Inr split: prod.splits option.splits sum.splits,
      simp add: iter_next_def)

lemma iter_collect_Cons:
  "iter_collect be u it = Inr (v # vs) \<longleftrightarrow>
     (\<exists>it'. iter_next be u it = (Some (Inr v), it') \<and> iter_collect be u it' = Inr vs)"
  by (subst iter_collect.simps) (auto split: prod.splits option.splits sum.splits)

text \<open>Skipping columns by their sizes is walking over them.\<close>

lemma iter_skip_collect:
  assumes "iter_collect be u it = Inr vs" "i \<le> length vs" "s + length (data_section it) < 2 ^ 64"
  shows "\<exists>header k. iter_skip i (header_section it) s = Inr (header, s + k) \<and>
           k \<le> length (data_section it) \<and>
           iter_collect be u \<lparr>header_section = header, data_section = drop k (data_section it)\<rparr> =
             Inr (drop i vs)"
  using assms
proof (induction i arbitrary: it vs s)
  case 0
  then show ?case by (intro exI[of _ "header_section it"] exI[of _ 0]) (cases it, simp)
next
  case (Suc i)
  then obtain v ws where vs: "vs = v # ws" by (cases vs) auto
  obtain it' where next_: "iter_next be u it = (Some (Inr v), it')"
    and ws: "iter_collect be u it' = Inr ws"
    using Suc.prems(1) by (auto simp: vs iter_collect_Cons)
  obtain st n m where st: "header_section it \<noteq> []" "read_varint (header_section it) = Inr (st, n)"
    "read_value_serial_type be u (data_section it) st = Inr (v, m)"
    "it' = it\<lparr>header_section := drop n (header_section it), data_section := drop m (data_section it)\<rparr>"
    using next_ by (auto simp: iter_next_Some_Inr)
  note m = read_value_consumes[OF st(3)]
  have "\<exists>header k. iter_skip i (header_section it') (s + m) = Inr (header, s + m + k) \<and>
           k \<le> length (data_section it') \<and>
           iter_collect be u \<lparr>header_section = header, data_section = drop k (data_section it')\<rparr> =
             Inr (drop i ws)"
    using ws Suc.prems(2,3) m(2) by (intro Suc.IH) (auto simp: vs st(4))
  then obtain header k where IH:
    "iter_skip i (drop n (header_section it)) (s + m) = Inr (header, s + m + k)"
    "k \<le> length (data_section it) - m"
    "iter_collect be u \<lparr>header_section = header, data_section = drop k (drop m (data_section it))\<rparr> =
       Inr (drop i ws)"
    by (auto simp: st(4))
  have "(s + m) mod 2 ^ 64 = s + m" using Suc.prems(3) m(2) by simp
  then show ?case
    using st IH m by (intro exI[of _ header] exI[of _ "m + k"]) (auto simp: vs add.assoc add.commute)
qed

lemma iter_skip_beyond:
  assumes "iter_collect be u it = Inr vs" "length vs < i"
  shows "iter_skip i (header_section it) s = Inl None"
  using assms
proof (induction i arbitrary: it vs s)
  case (Suc i)
  show ?case
  proof (cases vs)
    case Nil
    then show ?thesis using Suc.prems(1) by (simp add: iter_collect_Nil)
  next
    case (Cons v ws)
    then obtain it' where it': "iter_next be u it = (Some (Inr v), it')" "iter_collect be u it' = Inr ws"
      using Suc.prems(1) by (auto simp: iter_collect_Cons)
    obtain st n m where "header_section it \<noteq> []" "read_varint (header_section it) = Inr (st, n)"
      "read_value_serial_type be u (data_section it) st = Inr (v, m)"
      "header_section it' = drop n (header_section it)"
      using it'(1) by (auto simp: iter_next_Some_Inr)
    then show ?thesis
      using Suc.IH[OF it'(2)] Suc.prems(2) Cons read_value_consumes(1) by fastforce
  qed
qed simp

lemma iter_nth_collect:
  assumes "iter_collect be u it = Inr vs" "length (data_section it) < 2 ^ 64"
  shows "i < length vs \<Longrightarrow> \<exists>it'. iter_nth be u it i = (Some (Inr (vs ! i)), it') \<and>
           iter_collect be u it' = Inr (drop (Suc i) vs) \<and>
           length (data_section it') \<le> length (data_section it)"
    and "length vs \<le> i \<Longrightarrow> fst (iter_nth be u it i) = None"
proof -
  assume i: "i < length vs"
  then obtain header k where skip: "iter_skip i (header_section it) 0 = Inr (header, k)"
    "k \<le> length (data_section it)"
    "iter_collect be u \<lparr>header_section = header, data_section = drop k (data_section it)\<rparr> = Inr (drop i vs)"
    using iter_skip_collect[OF assms(1), of i 0] assms(2) by auto
  let ?it = "it\<lparr>header_section := header, data_section := drop k (data_section it)\<rparr>"
  have "iter_collect be u ?it = Inr (vs ! i # drop (Suc i) vs)"
    using skip(3) i by (cases it) (simp add: Cons_nth_drop_Suc)
  then obtain it' where "iter_next be u ?it = (Some (Inr (vs ! i)), it')"
    "iter_collect be u it' = Inr (drop (Suc i) vs)"
    by (auto simp: iter_collect_Cons)
  then show "\<exists>it'. iter_nth be u it i = (Some (Inr (vs ! i)), it') \<and>
      iter_collect be u it' = Inr (drop (Suc i) vs) \<and>
      length (data_section it') \<le> length (data_section it)"
    using skip(1,2) by (auto simp: iter_nth_def iter_next_Some_Inr)
next
  assume i: "length vs \<le> i"
  show "fst (iter_nth be u it i) = None"
  proof (cases "length vs = i")
    case True
    then obtain header k where skip: "iter_skip i (header_section it) 0 = Inr (header, k)"
      "k \<le> length (data_section it)"
      "iter_collect be u \<lparr>header_section = header, data_section = drop k (data_section it)\<rparr> = Inr []"
      using iter_skip_collect[OF assms(1), of i 0] assms(2) by auto
    then show ?thesis by (simp add: iter_nth_def iter_collect_Nil iter_next_def)
  next
    case False
    then show ?thesis using iter_skip_beyond[OF assms(1)] i by (simp add: iter_nth_def)
  qed
qed

lemma iter_count_collect:
  assumes "iter_collect be u it = Inr vs"
  shows "iter_count_loop (header_section it) c = c + length vs"
  using assms
proof (induction vs arbitrary: it c)
  case Nil
  then show ?case by (subst iter_count_loop.simps) (simp add: iter_collect_Nil)
next
  case (Cons v vs)
  then obtain it' where it': "iter_next be u it = (Some (Inr v), it')" "iter_collect be u it' = Inr vs"
    by (auto simp: iter_collect_Cons)
  then show ?case using Cons.IH[OF it'(2), of "Suc c"]
    by (subst iter_count_loop.simps) (auto simp: iter_next_Some_Inr)
qed

lemma iter_last_collect:
  assumes "iter_collect be u it = Inr vs" "vs \<noteq> []" "s + length (data_section it) < 2 ^ 64"
  shows "\<exists>st k m. iter_last_loop (header_section it) s = Inr (st, s + k) \<and>
           k \<le> length (data_section it) \<and>
           read_value_serial_type be u (drop k (data_section it)) st = Inr (last vs, m)"
  using assms
proof (induction vs arbitrary: it s)
  case (Cons v vs)
  then obtain it' where it': "iter_next be u it = (Some (Inr v), it')" "iter_collect be u it' = Inr vs"
    by (auto simp: iter_collect_Cons)
  obtain st n m where st: "header_section it \<noteq> []" "read_varint (header_section it) = Inr (st, n)"
    "read_value_serial_type be u (data_section it) st = Inr (v, m)"
    "it' = it\<lparr>header_section := drop n (header_section it), data_section := drop m (data_section it)\<rparr>"
    using it'(1) by (auto simp: iter_next_Some_Inr)
  note m = read_value_consumes[OF st(3)]
  show ?case
  proof (cases "vs = []")
    case True
    then have "drop n (header_section it) = []" using it'(2) by (simp add: iter_collect_Nil st(4))
    then show ?thesis using st True
      by (intro exI[of _ st] exI[of _ 0] exI[of _ m]) (subst iter_last_loop.simps, simp)
  next
    case False
    have ne: "drop n (header_section it) \<noteq> []"
      using False it'(2) iter_collect_Nil[of be u it'] by (auto simp: st(4))
    have "(s + m) mod 2 ^ 64 = s + m" using Cons.prems(3) m(2) by simp
    then have "iter_last_loop (header_section it) s = iter_last_loop (header_section it') (s + m)"
      using st ne m(1) by (subst iter_last_loop.simps) (simp add: Let_def)
    moreover have "\<exists>st' k m'. iter_last_loop (header_section it') (s + m) = Inr (st', s + m + k) \<and>
        k \<le> length (data_section it') \<and>
        read_value_serial_type be u (drop k (data_section it')) st' = Inr (last vs, m')"
      using Cons.prems(3) m(2) by (intro Cons.IH[OF it'(2) False]) (simp add: st(4))
    ultimately obtain st' k m' where "iter_last_loop (header_section it) s = Inr (st', s + m + k)"
      "k \<le> length (data_section it) - m"
      "read_value_serial_type be u (drop k (drop m (data_section it))) st' = Inr (last vs, m')"
      by (auto simp: st(4))
    then show ?thesis using m(2) False
      by (intro exI[of _ st'] exI[of _ "m + k"] exI[of _ m']) (auto simp: add.assoc add.commute)
  qed
qed simp

text \<open>The iterator over an encoded record.\<close>

lemma encode_varint_not_Nil [simp]: "encode_varint v \<noteq> []"
  using varint_len_bounds(1)[of v] length_encode_varint[of v] by auto

lemma value_iterator_new_layout:
  assumes "h = length (header_bytes vs) + varint_len (of_nat h)" "h < 2 ^ 64"
  shows "value_iterator_new (record_layout h vs @ rest) =
           Inr \<lparr>header_section = header_bytes vs, data_section = body_bytes vs @ rest\<rparr>"
proof -
  have u: "unat (of_nat h :: u64) = h" using assms(2) by (simp add: unat_of_nat)
  have r: "read_varint (record_layout h vs @ rest) = Inr (of_nat h, varint_len (of_nat h))"
    using read_encode_varint[of "of_nat h" "header_bytes vs @ body_bytes vs @ rest"]
    by (simp add: record_layout_def length_encode_varint)
  have len: "varint_len (of_nat h) \<le> h" "h \<le> length (record_layout h vs)"
    using assms(1) by (simp_all add: record_layout_def length_encode_varint)
  have "slice (record_layout h vs @ rest) (varint_len (of_nat h)) (h - varint_len (of_nat h)) =
      header_bytes vs"
    using assms(1) by (simp add: slice_def record_layout_def length_encode_varint)
  moreover have "drop h (record_layout h vs @ rest) = body_bytes vs @ rest"
    by (subst (1) assms(1)) (simp add: record_layout_def length_encode_varint)
  ultimately show ?thesis using len by (simp add: value_iterator_new_def r u)
qed

lemma iter_collect_bytes:
  "list_all (value_ok u) vs \<Longrightarrow>
     iter_collect be u \<lparr>header_section = header_bytes vs, data_section = body_bytes vs @ rest\<rparr> = Inr vs"
proof (induction vs)
  case (Cons v vs)
  have "iter_next be u \<lparr>header_section = header_bytes (v # vs), data_section = body_bytes (v # vs) @ rest\<rparr> =
      (Some (Inr v), \<lparr>header_section = header_bytes vs, data_section = body_bytes vs @ rest\<rparr>)"
    using Cons.prems by (simp add: iter_next_def read_encode_varint read_value_bytes)
  then show ?case using Cons by (simp add: iter_collect_Cons)
qed (simp add: iter_collect_Nil)

lemma record_values_layout:
  assumes "list_all (value_ok u) vs" "h = length (header_bytes vs) + varint_len (of_nat h)"
    "h < 2 ^ 64"
  shows "record_values be u (record_layout h vs) = Inr vs"
  using value_iterator_new_layout[OF assms(2,3), of "[]"] iter_collect_bytes[OF assms(1), of be "[]"]
  by (simp add: record_values_def)

lemma serial_type_of_0: "value_ok u v \<Longrightarrow> serial_type_of v = 0 \<longleftrightarrow> v = Null"
proof (cases v)
  case (Numeric x)
  then show ?thesis
  proof (cases x)
    case (Integer i)
    then show ?thesis unfolding Numeric Integer by (cases i rule: serial_int_cases) auto
  qed (simp add: serial_type_of_def)
next
  case (Text t)
  moreover assume "value_ok u v"
  ultimately show ?thesis
    using ge_12_ne(1)[OF serial_var_size(3), of "length t"] by (simp add: serial_type_of_def value_ok_def)
next
  case (Blob b)
  moreover assume "value_ok u v"
  ultimately show ?thesis
    using ge_12_ne(1)[OF serial_var_size(4), of "length b"] by (simp add: serial_type_of_def value_ok_def)
qed (simp add: serial_type_of_def)

lemma contains_null_bytes:
  "list_all (value_ok u) vs \<Longrightarrow> contains_null_loop (header_bytes vs) = Inr (Null \<in> set vs)"
proof (induction vs)
  case (Cons v vs)
  show ?case using Cons serial_type_of_0[of u v]
    by (subst contains_null_loop.simps) (auto simp: read_encode_varint)
qed (subst contains_null_loop.simps, simp)

lemma iter_last_eq:
  assumes "iter_collect be u it = Inr vs" "length (data_section it) < 2 ^ 64"
  shows "iter_last be u it = (if vs = [] then None else Some (Inr (last vs)))"
proof (cases "vs = []")
  case True
  then show ?thesis using assms(1) by (simp add: iter_last_def iter_collect_Nil)
next
  case False
  then have "header_section it \<noteq> []" using assms(1) iter_collect_Nil[of be u it] by auto
  then show ?thesis using iter_last_collect[OF assms(1) False, of 0] assms(2) False by (auto simp: iter_last_def)
qed

lemma contains_null_iterator: "value_iterator_new payload = Inr it \<Longrightarrow> contains_null payload = contains_null_loop (header_section it)"
  by (auto simp: value_iterator_new_def contains_null_def Let_def simp del: length_slice split: prod.splits if_splits)

lemma contains_null_loop_errors: "contains_null_loop h \<noteq> Inl Panic"
proof (induction h rule: contains_null_loop.induct)
  case (1 h)
  show ?case
  proof (cases "h = []")
    case False
    show ?thesis
    proof (cases "read_varint h")
      case (Inl e)
      then show ?thesis using False read_varint_errors[of h] by (subst contains_null_loop.simps) auto
    next
      case (Inr r)
      obtain st n where r: "r = (st, n)" by (cases r)
      have "contains_null_loop (drop n h) \<noteq> Inl Panic" if "st \<noteq> 0" by (rule 1[OF False Inr r[symmetric] that])
      then show ?thesis using False Inr r by (subst contains_null_loop.simps) auto
    qed
  qed (subst contains_null_loop.simps, simp)
qed

lemma contains_null_collect:
  "iter_collect be u it = Inr vs \<Longrightarrow> \<exists>b. contains_null_loop (header_section it) = Inr b \<and> (b \<longrightarrow> Null \<in> set vs)"
proof (induction vs arbitrary: it)
  case Nil
  then have "contains_null_loop (header_section it) = Inr False" by (subst contains_null_loop.simps) (simp add: iter_collect_Nil)
  then show ?case by blast
next
  case (Cons v vs)
  then obtain it' where n: "iter_next be u it = (Some (Inr v), it')" "iter_collect be u it' = Inr vs" by (auto simp: iter_collect_Cons)
  then obtain st k where st: "header_section it \<noteq> []" "read_varint (header_section it) = Inr (st, k)" "header_section it' = drop k (header_section it)"
    "st = 0 \<longrightarrow> v = Null"
    by (auto simp: iter_next_def Let_def read_value_serial_type_def split: if_splits sum.splits prod.splits)
  then show ?case using Cons.IH[OF n(2)] by (subst contains_null_loop.simps) auto
qed

text \<open>What is known of a payload that \<open>record_build\<close> returned.\<close>

lemma record_build_payload:
  assumes "list_all (value_ok u) vs" "length vs < 2 ^ 60" "record_build vs buf = Some (Inr payload)"
  obtains it where "payload \<noteq> []" "value_iterator_new payload = Inr it"
    "iter_collect be u it = Inr vs" "length (data_section it) < 2 ^ 64"
    "contains_null payload = Inr (Null \<in> set vs)"
proof -
  obtain h where h: "calc_header_size (length (header_bytes vs)) = Some (Inr h)"
    "h = length (header_bytes vs) + varint_len (of_nat h)" "h < 2 ^ 64"
    using header_size_of[OF assms(2)] by blast
  have p: "payload = record_layout h vs" and len: "length (body_bytes vs) \<le> max_blob_length"
    using assms(3) record_build_eq[OF assms(1) h(1,2), of buf] by (auto split: if_splits)
  let ?it = "\<lparr>header_section = header_bytes vs, data_section = body_bytes vs\<rparr>"
  have new: "value_iterator_new payload = Inr ?it"
    using value_iterator_new_layout[OF h(2,3), of "[]"] by (simp add: p)
  have "contains_null payload = contains_null_loop (header_section ?it)" by (rule contains_null_iterator[OF new])
  then have "contains_null payload = Inr (Null \<in> set vs)"
    using contains_null_bytes[OF assms(1)] by simp
  moreover have "payload \<noteq> []" by (simp add: p record_layout_def)
  moreover have "iter_collect be u ?it = Inr vs" using iter_collect_bytes[OF assms(1), of be "[]"] by simp
  moreover have "length (data_section ?it) < 2 ^ 64" using len by (simp add: max_blob_length_def)
  ultimately show thesis using that new by blast
qed

lemma iter_take_collect:
  "iter_collect be u it = Inr vs \<Longrightarrow> iter_take be u k it = Inr (take k vs)"
proof (induction k arbitrary: it vs)
  case (Suc k)
  then show ?case
    by (cases vs) (auto simp: iter_collect_Nil iter_collect_Cons iter_next_def[of be u it])
qed simp

lemma values_range_collect:
  assumes "value_iterator_new payload = Inr it" "iter_collect be u it = Inr vs"
    "length (data_section it) < 2 ^ 64" "start < stop"
  shows "values_range be u payload start stop = Inr (take (stop - start) (drop start vs))"
proof (cases "start < length vs")
  case True
  then obtain it1 where 1: "iter_nth be u it start = (Some (Inr (vs ! start)), it1)"
    "iter_collect be u it1 = Inr (drop (Suc start) vs)"
    using iter_nth_collect(1)[OF assms(2,3), of start] by auto
  have "stop - start = Suc (stop - Suc start)" using assms(4) by simp
  then show ?thesis
    using assms(1) 1 iter_take_collect[OF 1(2)] True
    by (simp add: values_range_def flip: Cons_nth_drop_Suc)
next
  case False
  then have "fst (iter_nth be u it start) = None" using iter_nth_collect(2)[OF assms(2,3)] by simp
  then show ?thesis using assms(1) False by (cases "iter_nth be u it start") (simp add: values_range_def)
qed

lemma usize_sub_Suc: "i < j \<Longrightarrow> j < 2 ^ 64 \<Longrightarrow> usize_sub (usize_sub j i) 1 = j - Suc i"
proof -
  assume ij: "i < j" "j < 2 ^ 64"
  have "usize_sub j i = j - i" using ij by (simp add: usize_sub_def mod_if)
  moreover have "usize_sub (j - i) 1 = j - Suc i" using ij by (simp add: usize_sub_def mod_if)
  ultimately show ?thesis by simp
qed

lemma two_values_collect:
  assumes "value_iterator_new payload = Inr it" "iter_collect be u it = Inr vs"
    "length (data_section it) < 2 ^ 64" "i < j" "j < 2 ^ 64"
  shows "two_values be u payload i j =
           (if j < length vs then Inr (vs ! i, vs ! j) else Inl InternalError)"
proof (cases "i < length vs")
  case True
  obtain it1 where 1: "iter_nth be u it i = (Some (Inr (vs ! i)), it1)"
    "iter_collect be u it1 = Inr (drop (Suc i) vs)" "length (data_section it1) < 2 ^ 64"
    using iter_nth_collect(1)[OF assms(2,3) True] assms(3) by fastforce
  note nth = iter_nth_collect[OF 1(2,3), of "j - Suc i"]
  have "fst (iter_nth be u it1 (j - Suc i)) = (if j < length vs then Some (Inr (vs ! j)) else None)"
    using nth assms(4) by (cases "j < length vs") (auto simp: diff_less_mono)
  then show ?thesis
    using assms(1,4) 1(1) usize_sub_Suc[OF assms(4,5)]
    by (cases "iter_nth be u it1 (j - Suc i)") (simp add: two_values_def)
next
  case False
  then have "fst (iter_nth be u it i) = None" using iter_nth_collect(2)[OF assms(2,3)] by simp
  then show ?thesis using assms(1,4) False
    by (cases "iter_nth be u it i") (simp add: two_values_def split: prod.splits)
qed

lemma read_varint_max:
  "read_varint ([0xff, 0xff, 0xff, 0xff, 0xff, 0xff, 0xff, 0xff, 0xfe] @ rest) = Inr (0xfffffffffffffffe, 9)"
proof -
  have eight: "(8 :: nat) = Suc (Suc (Suc (Suc (Suc (Suc (Suc (Suc 0)))))))" by simp
  show ?thesis unfolding read_varint_is_loop eight by (simp add: push_bit_eq_mult)
qed

section \<open>Properties\<close>

text \<open>
  C4. Records round trip: building a record from well-formed values, in a recycled buffer
  with any contents, ends; it fails only with \<open>TooBig\<close> when header and bodies exceed the
  limit, in particular the assertion that the sizing pass and the writing pass agree never
  fires; and the columns read back are the values.
\<close>

theorem record_roundtrip:
  assumes "list_all (value_ok from_utf8) vs" "length vs < 2 ^ 60"
  shows "\<exists>h. calc_header_size (length (header_bytes vs)) = Some (Inr h) \<and>
           (if h + length (body_bytes vs) > max_blob_length
            then record_build vs buf = Some (Inl TooBig)
            else \<exists>payload. record_build vs buf = Some (Inr payload) \<and>
                   length payload = h + length (body_bytes vs) \<and>
                   record_values be from_utf8 payload = Inr vs)"
proof -
  obtain h where h: "calc_header_size (length (header_bytes vs)) = Some (Inr h)"
    "h = length (header_bytes vs) + varint_len (of_nat h)" "h < 2 ^ 64"
    using header_size_of[OF assms(2)] by blast
  have "length (record_layout h vs) = h + length (body_bytes vs)"
    using h(2) by (simp add: record_layout_def length_encode_varint)
  then show ?thesis
    using h(1) record_build_eq[OF assms(1) h(1,2), of buf] record_values_layout[OF assms(1) h(2,3)]
    by auto
qed

theorem record_roundtrip_witness:
  "\<exists>h. calc_header_size (length (header_bytes [Null, Numeric (Integer 7), Text [0x61]])) = Some (Inr h) \<and>
     (if h + length (body_bytes [Null, Numeric (Integer 7), Text [0x61]]) > max_blob_length
      then record_build [Null, Numeric (Integer 7), Text [0x61]] [0xff] = Some (Inl TooBig)
      else \<exists>payload. record_build [Null, Numeric (Integer 7), Text [0x61]] [0xff] = Some (Inr payload) \<and>
             length payload = h + length (body_bytes [Null, Numeric (Integer 7), Text [0x61]]) \<and>
             record_values False (\<lambda>_. True) payload = Inr [Null, Numeric (Integer 7), Text [0x61]])"
  by (rule record_roundtrip) (simp_all add: value_ok_def)

text \<open>
  C20. The self-referential header size: the loop of \<open>calc_header_size\<close> ends, and its result
  is the least size that holds the serial types and the varint of the size itself.
\<close>

theorem calc_header_size_fixpoint:
  assumes "n + 9 < 2 ^ 64"
  shows "\<exists>h. calc_header_size n = Some (Inr h) \<and> h = n + varint_len (of_nat h) \<and>
           (\<forall>k. k = n + varint_len (of_nat k) \<longrightarrow> h \<le> k)"
  using assms by (rule calc_header_size_least)

theorem calc_header_size_fixpoint_witness:
  "\<exists>h. calc_header_size 127 = Some (Inr h) \<and> h = 127 + varint_len (of_nat h)"
  using calc_header_size_fixpoint[of 127] by auto

text \<open>
  C19. The two encoders agree: \<open>Record::serialize\<close> appends to its buffer exactly the payload
  that \<open>ImmutableRecord::build\<close> produces, and has no size limit.
\<close>

theorem record_encoders_agree:
  assumes "list_all (value_ok from_utf8) vs" "length vs < 2 ^ 60"
    "record_build vs buf = Some (Inr payload)"
  shows "record_serialize vs out = Some (Inr (out @ payload))"
proof -
  obtain h where h: "calc_header_size (length (header_bytes vs)) = Some (Inr h)"
    "h = length (header_bytes vs) + varint_len (of_nat h)" "h < 2 ^ 64"
    using header_size_of[OF assms(2)] by blast
  then have "payload = record_layout h vs"
    using assms(3) record_build_eq[OF assms(1) h(1,2), of buf] by (auto split: if_splits)
  then show ?thesis using record_serialize_eq[OF h(1)] by simp
qed

theorem record_encoders_agree_witness:
  "record_build [Null] [] = Some (Inr [2, 0]) \<and> record_serialize [Null] [9] = Some (Inr ([9] @ [2, 0]))"
proof -
  have v: "list_all (value_ok (\<lambda>_. True)) [Null]" "length [Null] < 2 ^ 60"
    by (simp_all add: value_ok_def)
  have b: "record_build [Null] [] = Some (Inr [2, 0])"
    using record_build_eq[OF v(1), of 2 "[]"]
    by (simp add: calc_header_size_def varint_len_def encode_varint_def serial_type_of_def
        max_blob_length_def record_layout_def value_bytes_def)
  show ?thesis using b record_encoders_agree[OF v b] by simp
qed

text \<open>
  C17. The shortcuts of the iterator agree with walking it: whenever all columns decode, to
  \<open>vs\<close>, \<open>nth\<close> returns the column of that index and leaves the iterator behind it, and past the
  end it returns nothing; \<open>last\<close> returns the last column and \<open>count\<close> their number.
\<close>

theorem iterator_shortcuts:
  assumes "iter_collect be from_utf8 it = Inr vs" "length (data_section it) < 2 ^ 64"
  shows "(case iter_nth be from_utf8 it i of
            (r, it') \<Rightarrow> if i < length vs
              then r = Some (Inr (vs ! i)) \<and> iter_collect be from_utf8 it' = Inr (drop (Suc i) vs)
              else r = None) \<and>
         iter_last be from_utf8 it = (if vs = [] then None else Some (Inr (last vs))) \<and>
         iter_count it = length vs"
proof (intro conjI)
  show "case iter_nth be from_utf8 it i of
      (r, it') \<Rightarrow> if i < length vs
        then r = Some (Inr (vs ! i)) \<and> iter_collect be from_utf8 it' = Inr (drop (Suc i) vs)
        else r = None"
    using iter_nth_collect[OF assms, of i] by (cases "i < length vs") (auto split: prod.splits)
  show "iter_last be from_utf8 it = (if vs = [] then None else Some (Inr (last vs)))" by (rule iter_last_eq[OF assms])
  show "iter_count it = length vs"
    using iter_count_collect[OF assms(1), of 0] by (simp add: iter_count_def)
qed

theorem iterator_shortcuts_witness:
  "(case iter_nth False (\<lambda>_. True) \<lparr>header_section = [1, 9], data_section = [5]\<rparr> 1 of
      (r, it') \<Rightarrow> if 1 < length [Numeric (Integer 5), Numeric (Integer 1)]
        then r = Some (Inr ([Numeric (Integer 5), Numeric (Integer 1)] ! 1)) \<and>
             iter_collect False (\<lambda>_. True) it' = Inr (drop (Suc 1) [Numeric (Integer 5), Numeric (Integer 1)])
        else r = None) \<and>
   iter_last False (\<lambda>_. True) \<lparr>header_section = [1, 9], data_section = [5]\<rparr> =
     (if [Numeric (Integer 5), Numeric (Integer 1)] = [] then None
      else Some (Inr (last [Numeric (Integer 5), Numeric (Integer 1)]))) \<and>
   iter_count \<lparr>header_section = [1, 9], data_section = [5]\<rparr> = length [Numeric (Integer 5), Numeric (Integer 1)]"
  by (rule iterator_shortcuts)
    (simp_all add: iter_collect.simps iter_next_def read_varint_def read_value_serial_type_def)

text \<open>
  C24. The accessors on a built payload are the list operations on the values: by index,
  first, last, number of columns, presence of a NULL, a range of columns and a pair.
\<close>

theorem record_accessors:
  assumes "list_all (value_ok from_utf8) vs" "length vs < 2 ^ 60"
    "record_build vs buf = Some (Inr payload)" "start < stop" "stop < 2 ^ 64"
  shows "record_value be from_utf8 payload i =
           (if i < length vs then Inr (vs ! i) else Inl InternalError) \<and>
         value_opt be from_utf8 payload i = (if i < length vs then Some (vs ! i) else None) \<and>
         first_value be from_utf8 payload = (if vs = [] then Inl InternalError else Inr (hd vs)) \<and>
         last_value be from_utf8 payload = (if vs = [] then None else Some (Inr (last vs))) \<and>
         column_count payload = length vs \<and>
         contains_null payload = Inr (Null \<in> set vs) \<and>
         values_range be from_utf8 payload start stop = Inr (take (stop - start) (drop start vs)) \<and>
         two_values be from_utf8 payload start stop =
           (if stop < length vs then Inr (vs ! start, vs ! stop) else Inl InternalError)"
proof -
  obtain it where it: "payload \<noteq> []" "value_iterator_new payload = Inr it"
    "iter_collect be from_utf8 it = Inr vs" "length (data_section it) < 2 ^ 64"
    "contains_null payload = Inr (Null \<in> set vs)"
    by (rule record_build_payload[OF assms(1-3), where be = be])
  note nth = iter_nth_collect[OF it(3,4)]
  have "record_value be from_utf8 payload i =
      (if i < length vs then Inr (vs ! i) else Inl InternalError)"
    using it nth[of i] by (cases "i < length vs") (auto simp: record_value_def)
  moreover have "value_opt be from_utf8 payload i = (if i < length vs then Some (vs ! i) else None)"
    using it nth[of i] by (cases "i < length vs") (auto simp: value_opt_def)
  moreover have "first_value be from_utf8 payload =
      (if vs = [] then Inl InternalError else Inr (hd vs))"
    using it by (cases vs) (auto simp: first_value_def iter_collect_Nil iter_collect_Cons iter_next_def[of be from_utf8 it])
  moreover have "last_value be from_utf8 payload = (if vs = [] then None else Some (Inr (last vs)))"
    using it(1,2) iter_last_eq[OF it(3,4)] by (simp add: last_value_def)
  moreover have "column_count payload = length vs"
    using it iter_count_collect[OF it(3), of 0] by (simp add: column_count_def iter_count_def)
  moreover have "values_range be from_utf8 payload start stop = Inr (take (stop - start) (drop start vs))"
    by (rule values_range_collect[OF it(2-4) assms(4)])
  moreover have "two_values be from_utf8 payload start stop =
      (if stop < length vs then Inr (vs ! start, vs ! stop) else Inl InternalError)"
    by (rule two_values_collect[OF it(2-4) assms(4,5)])
  ultimately show ?thesis using it(5) by blast
qed

theorem record_accessors_witness:
  "record_value False (\<lambda>_. True) [2, 0] 0 = (if 0 < length [Null] then Inr ([Null] ! 0) else Inl InternalError) \<and>
   value_opt False (\<lambda>_. True) [2, 0] 0 = (if 0 < length [Null] then Some ([Null] ! 0) else None) \<and>
   first_value False (\<lambda>_. True) [2, 0] = (if [Null] = [] then Inl InternalError else Inr (hd [Null])) \<and>
   last_value False (\<lambda>_. True) [2, 0] = (if [Null] = [] then None else Some (Inr (last [Null]))) \<and>
   column_count [2, 0] = length [Null] \<and>
   contains_null [2, 0] = Inr (Null \<in> set [Null]) \<and>
   values_range False (\<lambda>_. True) [2, 0] 0 1 = Inr (take (1 - 0) (drop 0 [Null])) \<and>
   two_values False (\<lambda>_. True) [2, 0] 0 1 =
     (if 1 < length [Null] then Inr ([Null] ! 0, [Null] ! 1) else Inl InternalError)"
proof (rule record_accessors)
  show v: "list_all (value_ok (\<lambda>_. True)) [Null]" by (simp add: value_ok_def)
  show "record_build [Null] [] = Some (Inr [2, 0])"
    using record_build_eq[OF v, of 2 "[]"]
    by (simp add: calc_header_size_def varint_len_def encode_varint_def serial_type_of_def
        max_blob_length_def record_layout_def value_bytes_def)
qed simp_all



text \<open>
  C28. The sum of the skipped sizes in \<open>nth\<close> can wrap around: for columns that claim
  \<open>2^63 - 7\<close>, \<open>2^63 - 7\<close> and 14 bytes in front of an integer column, \<open>nth(3)\<close> returns the
  first data byte as the value, although the first column does not decode.
\<close>

theorem iter_nth_wraps:
  "let it = \<lparr>header_section = [0xff, 0xff, 0xff, 0xff, 0xff, 0xff, 0xff, 0xff, 0xfe] @
                 [0xff, 0xff, 0xff, 0xff, 0xff, 0xff, 0xff, 0xff, 0xfe] @ [40, 1],
             data_section = [5]\<rparr>
   in fst (iter_nth False (\<lambda>_. True) it 3) = Some (Inr (Numeric (Integer 5))) \<and>
      fst (iter_next False (\<lambda>_. True) it) = Some (Inl Corrupt)"
proof -
  have three: "(3 :: nat) = Suc (Suc (Suc 0))" by simp
  have "iter_skip 3 ([0xff, 0xff, 0xff, 0xff, 0xff, 0xff, 0xff, 0xff, 0xfe] @
      [0xff, 0xff, 0xff, 0xff, 0xff, 0xff, 0xff, 0xff, 0xfe] @ [40, 1]) 0 = Inr ([1], 0)"
    unfolding three iter_skip.simps read_varint_max
    by (simp add: read_varint_max[simplified] read_varint_def[of "[40, 1]"] get_serial_type_size_def unat_div)
  then show ?thesis
    unfolding Let_def iter_nth_def iter_next_def
    by (simp add: read_varint_max[simplified] read_varint_def[of "[1]"] read_value_serial_type_def get_front_def)
qed

end
