(* ===== verification/PageFormat.thy ===== *)
theory PageFormat
  imports Varint
begin

text \<open>
  B-tree pages as byte buffers: the header fields and accessors of \<open>PageInner\<close> in
  \<open>core/storage/pager.rs\<close>, the page types, page sizes and cells of
  \<open>core/storage/sqlite3_ondisk.rs\<close> and the overflow thresholds of \<open>core/storage/btree.rs\<close>.
  Offsets and sizes are natural numbers; a read or write outside the buffer, and a failed
  assertion, is \<open>Panic\<close>. Usable sizes are at least 480 bytes, which opening a database
  checks, so the subtractions in the thresholds do not underflow.
\<close>

section \<open>Header values\<close>

text \<open>\<open>PageSize\<close> holds the raw 16-bit value, in which 1 stands for 65536.\<close>

definition PageSize_new :: "nat \<Rightarrow> nat option" where
  "PageSize_new sz =
     (if sz \<in> {512, 1024, 2048, 4096, 8192, 16384, 32768} then Some sz
      else if sz = 65536 then Some 1
      else None)"

definition PageSize_new_from_header_u16 :: "nat \<Rightarrow> nat result" where
  "PageSize_new_from_header_u16 v =
     (if v = 1 then Inr 1
      else case PageSize_new v of Some s \<Rightarrow> Inr s | None \<Rightarrow> Inl Corrupt)"

definition PageSize_get :: "nat \<Rightarrow> nat" where
  "PageSize_get raw = (if raw = 1 then 65536 else raw)"

definition has_valid_reserved_space :: "nat \<Rightarrow> nat \<Rightarrow> bool" where
  "has_valid_reserved_space raw reserved_space \<longleftrightarrow> PageSize_get raw - reserved_space \<ge> 480"

definition CacheSize_new :: "int \<Rightarrow> int" where
  "CacheSize_new sz = (if sz = - 2000 then 0 else sz)"

definition CacheSize_get :: "int \<Rightarrow> int" where
  "CacheSize_get raw = (if raw = 0 then - 2000 else raw)"

datatype version = Legacy | Wal | Mvcc

definition version_try_from :: "byte \<Rightarrow> byte + version" where
  "version_try_from v =
     (if v = 1 then Inr Legacy else if v = 2 then Inr Wal else if v = 255 then Inr Mvcc else Inl v)"

definition raw_version :: "version \<Rightarrow> byte" where
  "raw_version v = (case v of Legacy \<Rightarrow> 1 | Wal \<Rightarrow> 2 | Mvcc \<Rightarrow> 255)"

section \<open>Page types and thresholds\<close>

datatype page_type = IndexInterior | TableInterior | IndexLeaf | TableLeaf

definition page_type_code :: "page_type \<Rightarrow> byte" where
  "page_type_code t =
     (case t of IndexInterior \<Rightarrow> 2 | TableInterior \<Rightarrow> 5 | IndexLeaf \<Rightarrow> 10 | TableLeaf \<Rightarrow> 13)"

definition page_type_try_from :: "byte \<Rightarrow> page_type result" where
  "page_type_try_from v =
     (if v = 2 then Inr IndexInterior
      else if v = 5 then Inr TableInterior
      else if v = 10 then Inr IndexLeaf
      else if v = 13 then Inr TableLeaf
      else Inl Corrupt)"

definition payload_overflow_threshold_max :: "page_type \<Rightarrow> nat \<Rightarrow> nat" where
  "payload_overflow_threshold_max t usable_space =
     (case t of
        IndexInterior \<Rightarrow> (usable_space - 12) * 64 div 255 - 23
      | IndexLeaf \<Rightarrow> (usable_space - 12) * 64 div 255 - 23
      | TableInterior \<Rightarrow> usable_space - 35
      | TableLeaf \<Rightarrow> usable_space - 35)"

definition payload_overflow_threshold_min :: "page_type \<Rightarrow> nat \<Rightarrow> nat" where
  "payload_overflow_threshold_min t usable_space = (usable_space - 12) * 32 div 255 - 23"

definition payload_overflows :: "nat \<Rightarrow> nat \<Rightarrow> nat \<Rightarrow> nat \<Rightarrow> nat option" where
  "payload_overflows payload_size max_local_bytes min_local_bytes usable_size =
     (if payload_size \<le> max_local_bytes then None
      else let space_left = min_local_bytes + (payload_size - min_local_bytes) mod (usable_size - 4);
               space_left = (if space_left > max_local_bytes then min_local_bytes else space_left)
           in Some (space_left + 4))"

record payload_limits =
  lim_usable_size :: nat
  max_local_table :: nat
  max_local_index :: nat
  lim_min_local :: nat

definition payload_limits_new :: "nat \<Rightarrow> payload_limits" where
  "payload_limits_new usable_size =
     \<lparr>lim_usable_size = usable_size,
      max_local_table = payload_overflow_threshold_max TableLeaf usable_size,
      max_local_index = payload_overflow_threshold_max IndexLeaf usable_size,
      lim_min_local = payload_overflow_threshold_min TableLeaf usable_size\<rparr>"

definition max_local :: "payload_limits \<Rightarrow> page_type \<Rightarrow> nat" where
  "max_local l t =
     (case t of
        IndexInterior \<Rightarrow> max_local_index l
      | IndexLeaf \<Rightarrow> max_local_index l
      | TableInterior \<Rightarrow> max_local_table l
      | TableLeaf \<Rightarrow> max_local_table l)"

section \<open>Pages\<close>

text \<open>
  A page: its number, its bytes and the cells that did not fit on it (index and payload).
  Page 1 starts with the 100 bytes of the database header.
\<close>

record page =
  page_id :: nat
  page_buf :: "byte list"
  overflow_cells :: "(nat \<times> byte list) list"

definition page_offset :: "page \<Rightarrow> nat" where
  "page_offset p = (if page_id p = 1 then 100 else 0)"

definition buf_u8 :: "byte list \<Rightarrow> nat \<Rightarrow> byte result" where
  "buf_u8 buf pos = (if pos < length buf then Inr (buf ! pos) else Inl Panic)"

definition buf_be :: "nat \<Rightarrow> byte list \<Rightarrow> nat \<Rightarrow> nat result" where
  "buf_be n buf pos =
     (if pos + n \<le> length buf then Inr (be_to_nat (slice buf pos n)) else Inl Panic)"

definition write_bytes :: "page \<Rightarrow> nat \<Rightarrow> byte list \<Rightarrow> page result" where
  "write_bytes p pos bs =
     (if pos + length bs \<le> length (page_buf p) then Inr (p\<lparr>page_buf := put (page_buf p) pos bs\<rparr>)
      else Inl Panic)"

definition read_u8 :: "page \<Rightarrow> nat \<Rightarrow> byte result" where
  "read_u8 p pos = buf_u8 (page_buf p) (page_offset p + pos)"

definition read_u16 :: "page \<Rightarrow> nat \<Rightarrow> nat result" where
  "read_u16 p pos = buf_be 2 (page_buf p) (page_offset p + pos)"

definition read_u32 :: "page \<Rightarrow> nat \<Rightarrow> nat result" where
  "read_u32 p pos = buf_be 4 (page_buf p) (page_offset p + pos)"

definition write_u8 :: "page \<Rightarrow> nat \<Rightarrow> byte \<Rightarrow> page result" where
  "write_u8 p pos v = write_bytes p (page_offset p + pos) [v]"

definition write_u16 :: "page \<Rightarrow> nat \<Rightarrow> nat \<Rightarrow> page result" where
  "write_u16 p pos v = write_bytes p (page_offset p + pos) (nat_to_be 2 v)"

definition write_u32 :: "page \<Rightarrow> nat \<Rightarrow> nat \<Rightarrow> page result" where
  "write_u32 p pos v = write_bytes p (page_offset p + pos) (nat_to_be 4 v)"

definition get_page_type :: "page \<Rightarrow> page_type result" where
  "get_page_type p = and_then (read_u8 p 0) page_type_try_from"

definition read_u16_no_offset :: "page \<Rightarrow> nat \<Rightarrow> nat result" where
  "read_u16_no_offset p pos = buf_be 2 (page_buf p) pos"

definition read_u32_no_offset :: "page \<Rightarrow> nat \<Rightarrow> nat result" where
  "read_u32_no_offset p pos = buf_be 4 (page_buf p) pos"

definition write_u16_no_offset :: "page \<Rightarrow> nat \<Rightarrow> nat \<Rightarrow> page result" where
  "write_u16_no_offset p pos v = write_bytes p pos (nat_to_be 2 v)"

definition write_u32_no_offset :: "page \<Rightarrow> nat \<Rightarrow> nat \<Rightarrow> page result" where
  "write_u32_no_offset p pos v = write_bytes p pos (nat_to_be 4 v)"

definition write_page_type :: "page \<Rightarrow> byte \<Rightarrow> page result" where
  "write_page_type p v = write_u8 p 0 v"

definition write_rightmost_ptr :: "page \<Rightarrow> nat \<Rightarrow> page result" where
  "write_rightmost_ptr p v = write_u32 p 8 v"

definition write_first_freeblock :: "page \<Rightarrow> nat \<Rightarrow> page result" where
  "write_first_freeblock p v = write_u16 p 1 v"

definition write_freeblock_size :: "page \<Rightarrow> nat \<Rightarrow> nat \<Rightarrow> page result" where
  "write_freeblock_size p off sz = write_u16_no_offset p (off + 2) sz"

definition write_freeblock_next_ptr :: "page \<Rightarrow> nat \<Rightarrow> nat \<Rightarrow> page result" where
  "write_freeblock_next_ptr p off next_block = write_u16_no_offset p off next_block"

definition write_freeblock :: "page \<Rightarrow> nat \<Rightarrow> nat \<Rightarrow> nat option \<Rightarrow> page result" where
  "write_freeblock p off sz next_block =
     and_then (write_freeblock_next_ptr p off (case next_block of Some b \<Rightarrow> b | None \<Rightarrow> 0))
       (\<lambda>p. write_freeblock_size p off sz)"

definition read_freeblock :: "page \<Rightarrow> nat \<Rightarrow> (nat \<times> nat) result" where
  "read_freeblock p off =
     and_then (read_u16_no_offset p off) (\<lambda>next.
     and_then (read_u16_no_offset p (off + 2)) (\<lambda>sz. Inr (next, sz)))"

definition write_cell_count :: "page \<Rightarrow> nat \<Rightarrow> page result" where
  "write_cell_count p v = write_u16 p 3 v"

definition write_cell_content_area :: "page \<Rightarrow> nat \<Rightarrow> page result" where
  "write_cell_content_area p v = write_u16 p 5 v"

definition write_fragmented_bytes_count :: "page \<Rightarrow> nat \<Rightarrow> page result" where
  "write_fragmented_bytes_count p v = write_u8 p 7 (of_nat v)"

definition first_freeblock :: "page \<Rightarrow> nat result" where
  "first_freeblock p = read_u16 p 1"

definition cell_count :: "page \<Rightarrow> nat result" where
  "cell_count p = read_u16 p 3"

definition content_area_value :: "nat \<Rightarrow> nat" where
  "content_area_value off = (if off = 0 then 65536 else off)"

definition cell_content_area :: "page \<Rightarrow> nat result" where
  "cell_content_area p = and_then (read_u16 p 5) (\<lambda>off. Inr (content_area_value off))"

definition header_size_of :: "byte \<Rightarrow> nat" where
  "header_size_of t = (if t \<le> 5 then 12 else 8)"

definition page_header_size :: "page \<Rightarrow> nat result" where
  "page_header_size p = and_then (read_u8 p 0) (\<lambda>t. Inr (header_size_of t))"

definition num_frag_free_bytes :: "page \<Rightarrow> nat result" where
  "num_frag_free_bytes p = and_then (read_u8 p 7) (\<lambda>b. Inr (unat b))"

definition cell_pointer_array_offset :: "page \<Rightarrow> nat result" where
  "cell_pointer_array_offset p = and_then (page_header_size p) (\<lambda>h. Inr (page_offset p + h))"

definition cell_pointer_array_size :: "page \<Rightarrow> nat result" where
  "cell_pointer_array_size p = and_then (cell_count p) (\<lambda>n. Inr (n * 2))"

definition unallocated_region_start :: "page \<Rightarrow> nat result" where
  "unallocated_region_start p =
     and_then (cell_pointer_array_offset p) (\<lambda>start.
     and_then (cell_pointer_array_size p) (\<lambda>sz. Inr (start + sz)))"

definition is_leaf :: "page \<Rightarrow> bool result" where
  "is_leaf p = and_then (read_u8 p 0) (\<lambda>t. Inr (t > 5))"

definition is_table :: "page \<Rightarrow> bool result" where
  "is_table p = and_then (read_u8 p 0) (\<lambda>t. Inr (t = 13 \<or> t = 5))"

definition rightmost_pointer :: "page \<Rightarrow> nat option result" where
  "rightmost_pointer p =
     and_then (get_page_type p) (\<lambda>t. case t of
        IndexInterior \<Rightarrow> and_then (read_u32 p 8) (\<lambda>v. Inr (Some v))
      | TableInterior \<Rightarrow> and_then (read_u32 p 8) (\<lambda>v. Inr (Some v))
      | IndexLeaf \<Rightarrow> Inr None
      | TableLeaf \<Rightarrow> Inr None)"

text \<open>\<open>btree_free_space_fields\<close> reads the same fields through one window of eight bytes.\<close>

record free_space_fields =
  fs_header_size :: nat
  fs_cell_count :: nat
  fs_first_freeblock :: nat
  fs_cell_content_area :: nat
  fs_num_frag_free_bytes :: nat

definition btree_free_space_fields :: "page \<Rightarrow> free_space_fields result" where
  "btree_free_space_fields p =
     (if page_offset p + 8 \<le> length (page_buf p) then
        let window = slice (page_buf p) (page_offset p) 8
        in Inr \<lparr>fs_header_size = header_size_of (window ! 0),
                fs_cell_count = be_to_nat [window ! 3, window ! 4],
                fs_first_freeblock = be_to_nat [window ! 1, window ! 2],
                fs_cell_content_area = content_area_value (be_to_nat [window ! 5, window ! 6]),
                fs_num_frag_free_bytes = unat (window ! 7)\<rparr>
      else Inl Panic)"

section \<open>Cells\<close>

datatype btree_cell =
    TableInteriorCell nat i64
  | TableLeafCell i64 "byte list" u64 "nat option"
  | IndexInteriorCell nat "byte list" u64 "nat option"
  | IndexLeafCell "byte list" u64 "nat option"

text \<open>\<open>slice_in_bounds_or_corrupt!(buf, pos..)\<close>\<close>

definition slice_from :: "byte list \<Rightarrow> nat \<Rightarrow> byte list result" where
  "slice_from buf pos = (if pos \<le> length buf then Inr (drop pos buf) else Inl Corrupt)"

definition read_payload :: "byte list \<Rightarrow> nat \<Rightarrow> (byte list \<times> nat option) result" where
  "read_payload unread payload_size =
     (let cell_len = length unread
      in if payload_size \<le> cell_len then Inr (take payload_size unread, None)
         else if cell_len < 4 then Inl Corrupt
         else Inr (take (cell_len - 4) unread, Some (be_to_nat (drop (cell_len - 4) unread))))"

text \<open>The part of \<open>read_btree_cell\<close> that the three cell kinds with a payload share.\<close>

definition read_local_payload ::
    "byte list \<Rightarrow> nat \<Rightarrow> u64 \<Rightarrow> nat \<Rightarrow> nat \<Rightarrow> nat \<Rightarrow> (byte list \<times> nat option) result" where
  "read_local_payload buf pos payload_size max_loc min_loc usable_size =
     (let to_read = (case payload_overflows (unat payload_size) max_loc min_loc usable_size of
                       Some local_size \<Rightarrow> local_size
                     | None \<Rightarrow> length buf - pos)
      in and_then (ensure (pos + to_read \<le> length buf) Corrupt) (\<lambda>_.
           read_payload (slice buf pos to_read) (unat payload_size)))"

definition read_btree_cell :: "page \<Rightarrow> nat \<Rightarrow> nat \<Rightarrow> btree_cell result" where
  "read_btree_cell p pos usable_size =
     and_then (get_page_type p) (\<lambda>t.
     let max_loc = payload_overflow_threshold_max t usable_size;
         min_loc = payload_overflow_threshold_min t usable_size;
         buf = page_buf p
     in case t of
          IndexInterior \<Rightarrow>
            and_then (ensure (pos + 4 \<le> length buf) Corrupt) (\<lambda>_.
            let left_child_page = be_to_nat (slice buf pos 4)
            in and_then (and_then (slice_from buf (pos + 4)) read_varint) (\<lambda>(payload_size, nr).
               and_then (read_local_payload buf (pos + 4 + nr) payload_size max_loc min_loc usable_size)
                 (\<lambda>(pl, first_overflow).
               Inr (IndexInteriorCell left_child_page pl payload_size first_overflow))))
        | TableInterior \<Rightarrow>
            and_then (ensure (pos + 4 \<le> length buf) Corrupt) (\<lambda>_.
            let left_child_page = be_to_nat (slice buf pos 4)
            in and_then (and_then (slice_from buf (pos + 4)) read_varint) (\<lambda>(rowid, _).
               Inr (TableInteriorCell left_child_page rowid)))
        | IndexLeaf \<Rightarrow>
            and_then (and_then (slice_from buf pos) read_varint) (\<lambda>(payload_size, nr).
            and_then (read_local_payload buf (pos + nr) payload_size max_loc min_loc usable_size)
              (\<lambda>(pl, first_overflow).
            Inr (IndexLeafCell pl payload_size first_overflow)))
        | TableLeaf \<Rightarrow>
            and_then (and_then (slice_from buf pos) read_varint) (\<lambda>(payload_size, nr).
            and_then (and_then (slice_from buf (pos + nr)) read_varint) (\<lambda>(rowid, nr').
            and_then (read_local_payload buf (pos + nr + nr') payload_size max_loc min_loc usable_size)
              (\<lambda>(pl, first_overflow).
            Inr (TableLeafCell rowid pl payload_size first_overflow)))))"

definition cell_pointer :: "page \<Rightarrow> nat \<Rightarrow> nat result" where
  "cell_pointer p idx =
     and_then (page_header_size p) (\<lambda>start. read_u16 p (start + idx * 2))"

definition cell_get :: "page \<Rightarrow> nat \<Rightarrow> nat \<Rightarrow> btree_cell result" where
  "cell_get p idx usable_size =
     and_then (cell_count p) (\<lambda>ncells.
     and_then (ensure (idx < ncells) Panic) (\<lambda>_.
     and_then (cell_pointer p idx) (\<lambda>pos. read_btree_cell p pos usable_size)))"

definition cell_table_interior_read_rowid :: "page \<Rightarrow> nat \<Rightarrow> i64 result" where
  "cell_table_interior_read_rowid p idx =
     and_then (cell_pointer p idx) (\<lambda>pos.
     and_then (and_then (slice_from (page_buf p) (pos + 4)) read_varint) (\<lambda>(rowid, _). Inr rowid))"

definition cell_interior_read_left_child_page :: "page \<Rightarrow> nat \<Rightarrow> nat result" where
  "cell_interior_read_left_child_page p idx =
     and_then (cell_pointer p idx) (\<lambda>pos.
     and_then (ensure (pos + 4 \<le> length (page_buf p)) Corrupt) (\<lambda>_.
     Inr (be_to_nat (slice (page_buf p) pos 4))))"

record table_leaf_cell_header =
  tl_rowid :: i64
  tl_payload_start :: nat
  tl_payload_size :: u64

definition cell_table_leaf_read_header :: "page \<Rightarrow> nat \<Rightarrow> table_leaf_cell_header result" where
  "cell_table_leaf_read_header p idx =
     (let buf = page_buf p; pointer_slot = page_offset p + 8 + idx * 2
      in and_then (ensure (pointer_slot + 2 \<le> length buf) Corrupt) (\<lambda>_.
         and_then (slice_from buf (be_to_nat (slice buf pointer_slot 2))) (\<lambda>cell.
         and_then (split_varint cell) (\<lambda>(payload_size, cell).
         and_then (split_varint cell) (\<lambda>(rowid, cell).
         Inr \<lparr>tl_rowid = rowid, tl_payload_start = length buf - length cell,
              tl_payload_size = payload_size\<rparr>)))))"

definition payload_on_page :: "page \<Rightarrow> nat \<Rightarrow> nat \<Rightarrow> byte list option" where
  "payload_on_page p start sz =
     (if start + sz \<le> length (page_buf p) then Some (slice (page_buf p) start sz) else None)"

definition cell_read_payload_at ::
    "page \<Rightarrow> nat \<Rightarrow> payload_limits \<Rightarrow> (byte list \<times> nat \<times> u64 \<times> nat option) result" where
  "cell_read_payload_at p idx limits =
     (let buf = page_buf p
      in and_then (cell_pointer p idx) (\<lambda>cell_offset.
         and_then (get_page_type p) (\<lambda>t.
         and_then
           (case t of
              IndexInterior \<Rightarrow>
                and_then (and_then (slice_from buf (cell_offset + 4)) read_varint) (\<lambda>(sz, len).
                Inr (sz, cell_offset + 4 + len))
            | IndexLeaf \<Rightarrow>
                and_then (and_then (slice_from buf cell_offset) read_varint) (\<lambda>(sz, len).
                Inr (sz, cell_offset + len))
            | TableLeaf \<Rightarrow>
                and_then (and_then (slice_from buf cell_offset) read_varint) (\<lambda>(sz, payload_size_len).
                let rowid_start = cell_offset + payload_size_len
                in and_then (and_then (slice_from buf rowid_start) read_varint) (\<lambda>(_, rowid_len).
                   Inr (sz, rowid_start + rowid_len)))
            | TableInterior \<Rightarrow> Inl Panic)
           (\<lambda>(payload_size, payload_start).
         case payload_overflows (unat payload_size) (max_local limits t) (lim_min_local limits)
                (lim_usable_size limits) of
           Some local_size \<Rightarrow>
             let payload_end = payload_start + local_size - 4
             in and_then (ensure (payload_end + 4 \<le> length buf) Corrupt) (\<lambda>_.
                and_then (ensure (payload_start < payload_end \<and> payload_end \<le> length buf) Corrupt) (\<lambda>_.
                Inr (slice buf payload_start (payload_end - payload_start), payload_start,
                     payload_size, Some (be_to_nat (slice buf payload_end 4)))))
         | None \<Rightarrow>
             let payload_end = payload_start + unat payload_size
             in and_then (ensure (payload_end \<le> length buf) Corrupt) (\<lambda>_.
                Inr (slice buf payload_start (payload_end - payload_start), payload_start,
                     payload_size, None))))))"

definition option_of :: "'a result \<Rightarrow> 'a option" where
  "option_of r = (case r of Inr x \<Rightarrow> Some x | Inl _ \<Rightarrow> None)"

definition get_from :: "byte list \<Rightarrow> nat \<Rightarrow> byte list option" where
  "get_from buf a = (if a \<le> length buf then Some (drop a buf) else None)"

definition get_range :: "byte list \<Rightarrow> nat \<Rightarrow> nat \<Rightarrow> byte list option" where
  "get_range buf a n = (if a + n \<le> length buf then Some (slice buf a n) else None)"

definition decode_leaf_cell_without_overflow ::
    "page \<Rightarrow> nat \<Rightarrow> payload_limits \<Rightarrow> (byte list \<times> nat) option" where
  "decode_leaf_cell_without_overflow p idx limits =
     (let buf = page_buf p; header = page_offset p
      in Option.bind (option_of (buf_u8 buf header)) (\<lambda>t.
         let is_tab = (t = page_type_code TableLeaf)
         in if \<not> is_tab \<and> t \<noteq> page_type_code IndexLeaf then None
            else Option.bind (get_range buf (header + 8 + idx * 2) 2) (\<lambda>bs.
                 let cell_offset = be_to_nat bs
                 in Option.bind (get_from buf cell_offset) (\<lambda>cell.
                    Option.bind (option_of (read_varint cell)) (\<lambda>(sz, len).
                    Option.bind
                      (if is_tab then
                         Option.bind (get_from buf (cell_offset + len)) (\<lambda>rest.
                         Option.bind (option_of (read_varint_len rest)) (\<lambda>n.
                         Some (cell_offset + len + n)))
                       else Some (cell_offset + len)) (\<lambda>start.
                    let max_loc = (if is_tab then max_local_table limits else max_local_index limits)
                    in if unat sz > max_loc then None
                       else Option.bind (get_range buf start (unat sz)) (\<lambda>pl. Some (pl, start))))))))"

definition cell_get_raw_start_offset :: "page \<Rightarrow> nat \<Rightarrow> nat result" where
  "cell_get_raw_start_offset p idx =
     and_then (cell_pointer_array_offset p) (\<lambda>start. read_u16_no_offset p (start + idx * 2))"

definition min_cell_size :: "nat \<Rightarrow> nat" where
  "min_cell_size sz = (if sz < 4 then 4 else sz)"

definition cell_get_raw_region_faster ::
    "page \<Rightarrow> nat \<Rightarrow> nat \<Rightarrow> nat \<Rightarrow> nat \<Rightarrow> nat \<Rightarrow> page_type \<Rightarrow> (nat \<times> nat \<times> nat option) result" where
  "cell_get_raw_region_faster p idx usable_size n_cells max_loc min_loc t =
     (let buf = page_buf p
      in and_then (ensure (idx < n_cells) Panic) (\<lambda>_.
         and_then (cell_get_raw_start_offset p idx) (\<lambda>start.
         and_then
           (case t of
              IndexInterior \<Rightarrow>
                and_then (and_then (slice_from buf (start + 4)) read_varint) (\<lambda>(len_payload, n_payload).
                Inr (case payload_overflows (unat len_payload) max_loc min_loc usable_size of
                       Some local_size \<Rightarrow> (4 + local_size + n_payload, True)
                     | None \<Rightarrow> (4 + unat len_payload + n_payload, False)))
            | TableInterior \<Rightarrow>
                and_then (and_then (slice_from buf (start + 4)) read_varint) (\<lambda>(_, n_rowid).
                Inr (4 + n_rowid, False))
            | IndexLeaf \<Rightarrow>
                and_then (and_then (slice_from buf start) read_varint) (\<lambda>(len_payload, n_payload).
                Inr (case payload_overflows (unat len_payload) max_loc min_loc usable_size of
                       Some local_size \<Rightarrow> (local_size + n_payload, True)
                     | None \<Rightarrow> (min_cell_size (unat len_payload + n_payload), False)))
            | TableLeaf \<Rightarrow>
                and_then (and_then (slice_from buf start) read_varint) (\<lambda>(len_payload, n_payload).
                and_then (and_then (slice_from buf (start + n_payload)) read_varint) (\<lambda>(_, n_rowid).
                Inr (case payload_overflows (unat len_payload) max_loc min_loc usable_size of
                       Some local_size \<Rightarrow> (local_size + n_payload + n_rowid, True)
                     | None \<Rightarrow> (min_cell_size (unat len_payload + n_payload + n_rowid), False)))))
           (\<lambda>(len, overflows).
         and_then (ensure (start + len \<le> length buf) Corrupt) (\<lambda>_.
         Inr (start, len,
              if overflows then Some (be_to_nat (slice buf (start + len - 4) 4)) else None))))))"

definition cell_get_raw_region_and_overflow :: "page \<Rightarrow> nat \<Rightarrow> nat \<Rightarrow> (nat \<times> nat \<times> nat option) result" where
  "cell_get_raw_region_and_overflow p idx usable_size =
     and_then (get_page_type p) (\<lambda>t.
     and_then (cell_count p) (\<lambda>n.
     cell_get_raw_region_faster p idx usable_size n
       (payload_overflow_threshold_max t usable_size) (payload_overflow_threshold_min t usable_size) t))"

definition cell_get_raw_region :: "page \<Rightarrow> nat \<Rightarrow> nat \<Rightarrow> (nat \<times> nat) result" where
  "cell_get_raw_region p idx usable_size =
     and_then (cell_get_raw_region_and_overflow p idx usable_size) (\<lambda>(start, len, _). Inr (start, len))"

section \<open>Reading and writing fields\<close>

lemma buf_be_Inr [simp]:
  "buf_be n buf pos = Inr v \<longleftrightarrow> pos + n \<le> length buf \<and> v = be_to_nat (slice buf pos n)"
  by (auto simp: buf_be_def)

lemma buf_u8_Inr [simp]: "buf_u8 buf pos = Inr v \<longleftrightarrow> pos < length buf \<and> v = buf ! pos"
  by (auto simp: buf_u8_def)

lemma slice_from_Inr [simp]: "slice_from buf pos = Inr bs \<longleftrightarrow> pos \<le> length buf \<and> bs = drop pos buf"
  by (auto simp: slice_from_def)

lemma write_bytes_Inr [simp]:
  "write_bytes p pos bs = Inr p' \<longleftrightarrow>
     pos + length bs \<le> length (page_buf p) \<and> p' = p\<lparr>page_buf := put (page_buf p) pos bs\<rparr>"
  by (auto simp: write_bytes_def)

lemma slice_2: "i + 2 \<le> length xs \<Longrightarrow> slice xs i 2 = [xs ! i, xs ! (i + 1)]"
  by (auto simp: list_eq_iff_nth_eq less_Suc_eq numeral_2_eq_2)

section \<open>Overflow thresholds\<close>

lemma threshold_bounds:
  assumes "480 \<le> u"
  shows "35 \<le> payload_overflow_threshold_min t u"
    "payload_overflow_threshold_min t u + 4 \<le> payload_overflow_threshold_max t u"
    "payload_overflow_threshold_max t u + 35 \<le> u"
  using assms
  by (cases t; simp add: payload_overflow_threshold_min_def payload_overflow_threshold_max_def;
      presburger)+

lemma payload_overflows_Some:
  assumes "payload_overflows sz mx mn u = Some l" "mn + 4 \<le> mx" "mx < u - 4"
  shows "mn + 4 \<le> l" "l \<le> mx + 4" "l < sz" "mx < sz"
    "l - 4 = mn \<or> (sz - (l - 4)) mod (u - 4) = 0"
proof -
  let ?d = "u - 4" and ?k = "mn + (sz - mn) mod (u - 4)"
  have mx: "mx < sz" and l: "l = (if ?k > mx then mn else ?k) + 4"
    using assms(1) by (auto simp: payload_overflows_def Let_def split: if_splits)
  show "mx < sz" by (rule mx)
  show "mn + 4 \<le> l" "l \<le> mx + 4" using l assms(2) by (auto split: if_splits)
  have "l < sz \<and> (l - 4 = mn \<or> (sz - (l - 4)) mod ?d = 0)"
  proof (cases "?k > mx")
    case True
    then show ?thesis using l assms(2) mx by simp
  next
    case False
    have ge: "?d \<le> sz - mn"
    proof (rule ccontr)
      assume "\<not> ?d \<le> sz - mn"
      then have "?k = sz" using mx assms(2) by simp
      then show False using False mx by simp
    qed
    then have "(sz - mn) mod ?d \<le> sz - mn - ?d"
      using assms(2,3) by (metis diff_is_0_eq le_mod_geq linorder_not_le mod_less_eq_dividend)
    then have "?k + ?d \<le> sz" using mx assms(2) ge by linarith
    moreover have "4 < ?d" using assms(2,3) by linarith
    moreover have "(sz - ?k) mod ?d = 0" by (metis diff_diff_left minus_mod_eq_mult_div mod_mult_self1_is_0)
    moreover have "l = ?k + 4" using l False by simp
    ultimately have "l < sz" by linarith
    then show ?thesis using \<open>l = ?k + 4\<close> \<open>(sz - ?k) mod ?d = 0\<close> by simp
  qed
  then show "l < sz" "l - 4 = mn \<or> (sz - (l - 4)) mod (u - 4) = 0" by simp_all
qed


lemma limits_new [simp]:
  "max_local (payload_limits_new u) t = payload_overflow_threshold_max t u"
  "lim_min_local (payload_limits_new u) = payload_overflow_threshold_min t' u"
  "lim_usable_size (payload_limits_new u) = u"
  by (cases t; simp add: max_local_def payload_limits_new_def payload_overflow_threshold_max_def
      payload_overflow_threshold_min_def)+

text \<open>
  What \<open>cell_read_payload_at\<close> computes from the position of the payload, and that
  \<open>read_btree_cell\<close> computes the same when it succeeds.
\<close>

definition payload_of ::
    "byte list \<Rightarrow> nat \<Rightarrow> page_type \<Rightarrow> nat \<Rightarrow> u64 \<Rightarrow> (byte list \<times> nat option) result" where
  "payload_of buf u t start sz =
     (case payload_overflows (unat sz) (payload_overflow_threshold_max t u)
             (payload_overflow_threshold_min t u) u of
        Some l \<Rightarrow> if start + l \<le> length buf
                  then Inr (slice buf start (l - 4), Some (be_to_nat (slice buf (start + l - 4) 4)))
                  else Inl Corrupt
      | None \<Rightarrow> if start + unat sz \<le> length buf then Inr (slice buf start (unat sz), None)
                else Inl Corrupt)"

lemma read_local_payload_of:
  assumes "480 \<le> u" "payload_of buf u t start sz = Inr r"
  shows "read_local_payload buf start sz (payload_overflow_threshold_max t u)
           (payload_overflow_threshold_min t u) u = Inr r"
proof (cases "payload_overflows (unat sz) (payload_overflow_threshold_max t u)
    (payload_overflow_threshold_min t u) u")
  case None
  then show ?thesis using assms(2)
    by (auto simp: payload_of_def read_local_payload_def read_payload_def slice_def min_def
        Let_def split: if_splits)
next
  case (Some l)
  note tb = threshold_bounds[OF assms(1), of t]
  have b: "39 \<le> l" "l < unat sz"
    using payload_overflows_Some[OF Some] tb assms(1) by linarith+
  have le: "start + l \<le> length buf" using assms(2) Some by (auto simp: payload_of_def split: if_splits)
  have "drop (l - 4) (slice buf start l) = slice buf (start + l - 4) 4"
    using b le by (simp add: slice_def drop_take add.commute)
  moreover have "take (l - 4) (slice buf start l) = slice buf start (l - 4)"
    by (simp add: slice_def)
  ultimately show ?thesis
    using assms(2) Some b le by (auto simp: payload_of_def read_local_payload_def read_payload_def)
qed

definition payload_position :: "byte list \<Rightarrow> nat \<Rightarrow> page_type \<Rightarrow> (u64 \<times> nat) result" where
  "payload_position buf pos t =
     (case t of
        IndexInterior \<Rightarrow>
          and_then (and_then (slice_from buf (pos + 4)) read_varint) (\<lambda>(sz, n). Inr (sz, pos + 4 + n))
      | IndexLeaf \<Rightarrow>
          and_then (and_then (slice_from buf pos) read_varint) (\<lambda>(sz, n). Inr (sz, pos + n))
      | TableLeaf \<Rightarrow>
          and_then (and_then (slice_from buf pos) read_varint) (\<lambda>(sz, n).
          and_then (and_then (slice_from buf (pos + n)) read_varint) (\<lambda>(_, m). Inr (sz, pos + n + m)))
      | TableInterior \<Rightarrow> Inl Panic)"

lemma cell_read_payload_at_eq:
  assumes "480 \<le> u"
  shows "cell_read_payload_at p idx (payload_limits_new u) =
     and_then (cell_pointer p idx) (\<lambda>pos.
     and_then (get_page_type p) (\<lambda>t.
     and_then (payload_position (page_buf p) pos t) (\<lambda>(sz, start).
     and_then (payload_of (page_buf p) u t start sz) (\<lambda>(pl, ov). Inr (pl, start, sz, ov)))))"
proof -
  have *: "(case payload_overflows (unat sz) (payload_overflow_threshold_max t u)
                  (payload_overflow_threshold_min t u) u of
           Some l \<Rightarrow>
             let payload_end = start + l - 4
             in and_then (ensure (payload_end + 4 \<le> length buf) Corrupt) (\<lambda>_.
                and_then (ensure (start < payload_end \<and> payload_end \<le> length buf) Corrupt) (\<lambda>_.
                Inr (slice buf start (payload_end - start), start, sz,
                     Some (be_to_nat (slice buf payload_end 4)))))
         | None \<Rightarrow>
             let payload_end = start + unat sz
             in and_then (ensure (payload_end \<le> length buf) Corrupt) (\<lambda>_.
                Inr (slice buf start (payload_end - start), start, sz, None))) =
       and_then (payload_of buf u t start sz) (\<lambda>(pl, ov). Inr (pl, start, sz, ov))"
    for buf start sz t
  proof (cases "payload_overflows (unat sz) (payload_overflow_threshold_max t u)
                  (payload_overflow_threshold_min t u) u")
    case (Some l)
    have "39 \<le> l"
      using payload_overflows_Some(1)[OF Some] threshold_bounds[OF assms, of t] assms by linarith
    then show ?thesis using Some by (auto simp: payload_of_def ensure_def Let_def)
  qed (auto simp: payload_of_def ensure_def Let_def)
  show ?thesis
    unfolding cell_read_payload_at_def Let_def[of "page_buf p"]
  proof (intro and_then_cong refl)
    fix pos t
    show "(case t of
        IndexInterior \<Rightarrow>
          and_then (and_then (slice_from (page_buf p) (pos + 4)) read_varint) (\<lambda>(sz, n). Inr (sz, pos + 4 + n))
      | TableInterior \<Rightarrow> Inl Panic
      | IndexLeaf \<Rightarrow>
          and_then (and_then (slice_from (page_buf p) pos) read_varint) (\<lambda>(sz, n). Inr (sz, pos + n))
      | TableLeaf \<Rightarrow>
          and_then (and_then (slice_from (page_buf p) pos) read_varint) (\<lambda>(sz, n).
          let rowid_start = pos + n
          in and_then (and_then (slice_from (page_buf p) rowid_start) read_varint) (\<lambda>(_, m).
             Inr (sz, rowid_start + m)))) = payload_position (page_buf p) pos t"
      unfolding payload_position_def Let_def by (rule refl)
  next
    fix pos t x
    show "(case x of (payload_size, payload_start) \<Rightarrow>
         case payload_overflows (unat payload_size) (max_local (payload_limits_new u) t)
                (lim_min_local (payload_limits_new u)) (lim_usable_size (payload_limits_new u)) of
           Some local_size \<Rightarrow>
             let payload_end = payload_start + local_size - 4
             in and_then (ensure (payload_end + 4 \<le> length (page_buf p)) Corrupt) (\<lambda>_.
                and_then (ensure (payload_start < payload_end \<and> payload_end \<le> length (page_buf p)) Corrupt) (\<lambda>_.
                Inr (slice (page_buf p) payload_start (payload_end - payload_start), payload_start,
                     payload_size, Some (be_to_nat (slice (page_buf p) payload_end 4)))))
         | None \<Rightarrow>
             let payload_end = payload_start + unat payload_size
             in and_then (ensure (payload_end \<le> length (page_buf p)) Corrupt) (\<lambda>_.
                Inr (slice (page_buf p) payload_start (payload_end - payload_start), payload_start,
                     payload_size, None))) =
       (case x of (sz, start) \<Rightarrow>
          and_then (payload_of (page_buf p) u t start sz) (\<lambda>(pl, ov). Inr (pl, start, sz, ov)))"
      using *[where buf = "page_buf p" and t = t]
      by (simp only: limits_new(1,3) limits_new(2)[where t' = t] split: prod.splits)
  qed
qed

lemma cell_read_payload_at_Inr:
  assumes "480 \<le> u"
  shows "cell_read_payload_at p idx (payload_limits_new u) = Inr (pl, start, sz, ov) \<longleftrightarrow>
     (\<exists>pos t. cell_pointer p idx = Inr pos \<and> get_page_type p = Inr t \<and>
        payload_position (page_buf p) pos t = Inr (sz, start) \<and>
        payload_of (page_buf p) u t start sz = Inr (pl, ov))"
  by (auto simp: cell_read_payload_at_eq[OF assms])

text \<open>The payload of a cell: its bytes on the page, its full size and its first overflow page.\<close>

definition cell_payload :: "btree_cell \<Rightarrow> (byte list \<times> u64 \<times> nat option) option" where
  "cell_payload c =
     (case c of
        TableInteriorCell _ _ \<Rightarrow> None
      | TableLeafCell _ pl sz ov \<Rightarrow> Some (pl, sz, ov)
      | IndexInteriorCell _ pl sz ov \<Rightarrow> Some (pl, sz, ov)
      | IndexLeafCell pl sz ov \<Rightarrow> Some (pl, sz, ov))"

lemma read_btree_cell_local:
  assumes "get_page_type p = Inr t" "payload_position (page_buf p) pos t = Inr (sz, start)"
    "read_local_payload (page_buf p) start sz (payload_overflow_threshold_max t u) (payload_overflow_threshold_min t u) u = r"
  shows "r = Inr (pl, ov) \<Longrightarrow> \<exists>c. read_btree_cell p pos u = Inr c \<and> cell_payload c = Some (pl, sz, ov)"
    "r = Inl e \<Longrightarrow> read_btree_cell p pos u = Inl e"
proof -
  show "\<exists>c. read_btree_cell p pos u = Inr c \<and> cell_payload c = Some (pl, sz, ov)" if "r = Inr (pl, ov)"
    using assms that by (cases t) (auto simp: read_btree_cell_def payload_position_def cell_payload_def Let_def)
  show "read_btree_cell p pos u = Inl e" if "r = Inl e"
    using assms that by (cases t) (auto simp: read_btree_cell_def payload_position_def slice_from_def Let_def)
qed

lemma read_btree_cell_of:
  assumes "480 \<le> u" "get_page_type p = Inr t" "payload_position (page_buf p) pos t = Inr (sz, start)"
    "payload_of (page_buf p) u t start sz = Inr (pl, ov)"
  shows "\<exists>c. read_btree_cell p pos u = Inr c \<and> cell_payload c = Some (pl, sz, ov)"
  by (rule read_btree_cell_local(1)[OF assms(2,3) read_local_payload_of[OF assms(1,4)] refl])

lemma raw_region_of:
  assumes "480 \<le> u" "get_page_type p = Inr t" "payload_position (page_buf p) pos t = Inr (sz, start)"
    "payload_of (page_buf p) u t start sz = Inr (pl, ov)"
    "cell_get_raw_start_offset p idx = Inr pos"
    "cell_get_raw_region_and_overflow p idx u = Inr (s, len, ov')"
  shows "s = pos" "ov' = ov" "pos < start"
    "start + length pl + (if ov = None then 0 else 4) \<le> pos + len"
proof -
  have pos: "0 < n" if "read_varint b = Inr (v, n)" for b v n using read_varint_bounds[OF that] by simp
  have "s = pos \<and> ov' = ov \<and> pos < start \<and>
      start + length pl + (if ov = None then 0 else 4) \<le> pos + len"
  proof (cases "payload_overflows (unat sz) (payload_overflow_threshold_max t u)
      (payload_overflow_threshold_min t u) u")
    case None
    then show ?thesis using assms(2-6)
      by (cases t) (auto simp: payload_of_def payload_position_def cell_get_raw_region_and_overflow_def
          cell_get_raw_region_faster_def min_cell_size_def Let_def dest: pos split: if_splits)
  next
    case (Some l)
    have "39 \<le> l"
      using payload_overflows_Some(1)[OF Some] threshold_bounds[OF assms(1), of t] assms(1) by linarith
    then show ?thesis using Some assms(2-6)
      by (cases t) (auto simp: payload_of_def payload_position_def cell_get_raw_region_and_overflow_def
          cell_get_raw_region_faster_def Let_def add_ac dest: pos split: if_splits)
  qed
  then show "s = pos" "ov' = ov" "pos < start"
    "start + length pl + (if ov = None then 0 else 4) \<le> pos + len" by blast+
qed


lemma payload_overflows_None_iff: "payload_overflows sz mx mn u = None \<longleftrightarrow> sz \<le> mx"
  by (simp add: payload_overflows_def Let_def)

lemma option_of_Some [simp]: "option_of r = Some x \<longleftrightarrow> r = Inr x"
  by (cases r) (auto simp: option_of_def)

lemma get_range_Some [simp]:
  "get_range buf a n = Some bs \<longleftrightarrow> a + n \<le> length buf \<and> bs = slice buf a n"
  by (auto simp: get_range_def)

lemma get_from_Some [simp]: "get_from buf a = Some bs \<longleftrightarrow> a \<le> length buf \<and> bs = drop a buf"
  by (auto simp: get_from_def)

lemma payload_of_None:
  "payload_of buf u t start sz = Inr (pl, None) \<longleftrightarrow>
     unat sz \<le> payload_overflow_threshold_max t u \<and> start + unat sz \<le> length buf \<and>
     pl = slice buf start (unat sz)"
  by (auto simp: payload_of_def payload_overflows_def Let_def split: option.splits)

lemma get_page_type_leaf:
  "get_page_type p = Inr TableLeaf \<longleftrightarrow> read_u8 p 0 = Inr 13"
  "get_page_type p = Inr IndexLeaf \<longleftrightarrow> read_u8 p 0 = Inr 10"
  by (cases "read_u8 p 0"; auto simp: get_page_type_def page_type_try_from_def split: if_splits)+

lemma cell_pointer_leaf:
  assumes "read_u8 p 0 = Inr t" "t > 5"
  shows "cell_pointer p idx = buf_be 2 (page_buf p) (page_offset p + 8 + idx * 2)"
    "cell_get_raw_start_offset p idx = cell_pointer p idx"
  using assms linorder_not_le[of t 5]
  by (simp_all add: cell_pointer_def page_header_size_def header_size_of_def read_u16_def add.assoc
      cell_get_raw_start_offset_def cell_pointer_array_offset_def read_u16_no_offset_def)

lemma read_varint_len_Inr: "read_varint_len bs = Inr n \<longleftrightarrow> (\<exists>v. read_varint bs = Inr (v, n))"
  by (auto simp: read_varint_len_eq)

lemma decode_leaf_iff:
  assumes "480 \<le> u"
  shows "decode_leaf_cell_without_overflow p idx (payload_limits_new u) = Some (pl, start) \<longleftrightarrow>
     (\<exists>t sz. get_page_type p = Inr t \<and> t \<in> {TableLeaf, IndexLeaf} \<and>
        cell_read_payload_at p idx (payload_limits_new u) = Inr (pl, start, sz, None))"
proof -
  let ?b = "page_buf p" and ?o = "page_offset p"
  have lim: "max_local_table (payload_limits_new u) = payload_overflow_threshold_max TableLeaf u"
    "max_local_index (payload_limits_new u) = payload_overflow_threshold_max IndexLeaf u"
    by (simp_all add: payload_limits_new_def)
  have code: "page_type_code TableLeaf = 13" "page_type_code IndexLeaf = 10"
    by (simp_all add: page_type_code_def)
  consider "read_u8 p 0 = Inr 13" | "read_u8 p 0 = Inr 10"
    | "read_u8 p 0 \<noteq> Inr 13" "read_u8 p 0 \<noteq> Inr 10" by blast
  then show ?thesis
  proof cases
    case 1
    then have t: "get_page_type p = Inr TableLeaf" by (simp add: get_page_type_leaf)
    have b: "buf_u8 ?b ?o = Inr 13" using 1 by (simp add: read_u8_def del: buf_u8_Inr)
    show ?thesis
      unfolding cell_read_payload_at_Inr[OF assms] decode_leaf_cell_without_overflow_def Let_def b
        cell_pointer_leaf(1)[OF 1, simplified] t payload_of_None payload_position_def
      by (auto simp: option_of_def[of "Inr _"] code lim bind_eq_Some_conv
          read_varint_len_Inr split: if_splits)
  next
    case 2
    then have t: "get_page_type p = Inr IndexLeaf" by (simp add: get_page_type_leaf)
    have b: "buf_u8 ?b ?o = Inr 10" using 2 by (simp add: read_u8_def del: buf_u8_Inr)
    show ?thesis
      unfolding cell_read_payload_at_Inr[OF assms] decode_leaf_cell_without_overflow_def Let_def b
        cell_pointer_leaf(1)[OF 2, simplified] t payload_of_None payload_position_def
      by (auto simp: option_of_def[of "Inr _"] code lim bind_eq_Some_conv split: if_splits)
        (metis linorder_not_less)
  next
    case 3
    then have "get_page_type p \<noteq> Inr TableLeaf" "get_page_type p \<noteq> Inr IndexLeaf"
      by (simp_all add: get_page_type_leaf)
    moreover have "decode_leaf_cell_without_overflow p idx (payload_limits_new u) \<noteq> Some (pl, start)"
      using 3 by (auto simp: decode_leaf_cell_without_overflow_def Let_def bind_eq_Some_conv code
          read_u8_def)
    ultimately show ?thesis by auto
  qed
qed

text \<open>Every cell region has at least the minimum cell size and lies on the page.\<close>

lemma raw_region_bounds:
  assumes "480 \<le> u" "cell_get_raw_region p idx u = Inr (start, len)"
  shows "4 \<le> len" "start + len \<le> length (page_buf p)"
proof -
  have pos: "0 < n" if "read_varint b = Inr (v, n)" for b v n using read_varint_bounds[OF that] by simp
  obtain t n ov where t: "get_page_type p = Inr t" "cell_count p = Inr n"
    "cell_get_raw_region_faster p idx u n (payload_overflow_threshold_max t u)
       (payload_overflow_threshold_min t u) t = Inr (start, len, ov)"
    using assms(2) by (auto simp: cell_get_raw_region_def cell_get_raw_region_and_overflow_def)
  have l: "39 \<le> l" if "payload_overflows sz (payload_overflow_threshold_max t u)
      (payload_overflow_threshold_min t u) u = Some l" for sz l t
    using payload_overflows_Some(1)[OF that] threshold_bounds[OF assms(1), of t] assms(1) by linarith
  have "4 \<le> len \<and> start + len \<le> length (page_buf p)"
    using t(3)
    by (cases t; auto simp: cell_get_raw_region_faster_def min_cell_size_def Let_def
        dest: pos split: option.splits if_splits) (frule l, linarith)+
  then show "4 \<le> len" "start + len \<le> length (page_buf p)" by blast+
qed

lemma free_space_fields_eq:
  assumes "page_offset p + 8 \<le> length (page_buf p)"
  shows "btree_free_space_fields p =
     and_then (page_header_size p) (\<lambda>h. and_then (cell_count p) (\<lambda>n.
     and_then (first_freeblock p) (\<lambda>f. and_then (cell_content_area p) (\<lambda>c.
     and_then (num_frag_free_bytes p) (\<lambda>g.
     Inr \<lparr>fs_header_size = h, fs_cell_count = n, fs_first_freeblock = f, fs_cell_content_area = c,
          fs_num_frag_free_bytes = g\<rparr>)))))"
proof -
  let ?b = "page_buf p" and ?o = "page_offset p"
  have s: "slice ?b (?o + i) 2 = [?b ! (?o + i), ?b ! (?o + Suc i)]" if "i < 7" for i
    using assms that slice_2[of "?o + i" ?b] by simp
  show ?thesis
    using assms s[of 1] s[of 3] s[of 5]
    by (simp add: btree_free_space_fields_def page_header_size_def cell_count_def
        first_freeblock_def cell_content_area_def num_frag_free_bytes_def read_u8_def read_u16_def
        buf_u8_def buf_be_def Let_def)
qed

lemma PageSize_new_get:
  "map_option PageSize_get (PageSize_new sz) =
     (if sz \<in> (\<lambda>k. 2 ^ k) ` {9..16} then Some sz else None)"
proof -
  have "(\<lambda>k. 2 ^ k) ` {9..16} = {512, 1024, 2048, 4096, 8192, 16384, 32768, 65536 :: nat}"
    by (simp add: atLeastAtMost_upt upt_conv_Cons)
  then show ?thesis by (auto simp: PageSize_new_def PageSize_get_def)
qed

section \<open>Properties\<close>

text \<open>
  C32. How much of a payload is stored on the page. A payload that does not overflow is at most the
  maximum; of one that does, at least the minimum and at most the maximum is stored, followed by the
  four bytes of the overflow pointer, less than the whole, and either the minimum or so much that the
  rest fills whole overflow pages. In both cases at least 31 bytes of the page are left, and page
  header (8 or 12), cell pointer (2) and the cell's own header (at most 18 on a table leaf, 13
  on an index page) need at most 28.
\<close>

theorem payload_overflows_bounds:
  assumes "480 \<le> usable_size"
  shows "case payload_overflows payload_size (payload_overflow_threshold_max t usable_size)
             (payload_overflow_threshold_min t usable_size) usable_size of
           None \<Rightarrow> payload_size \<le> payload_overflow_threshold_max t usable_size \<and> payload_size + 31 \<le> usable_size
         | Some local_size \<Rightarrow>
             payload_overflow_threshold_max t usable_size < payload_size \<and>
             payload_overflow_threshold_min t usable_size + 4 \<le> local_size \<and>
             local_size \<le> payload_overflow_threshold_max t usable_size + 4 \<and>
             local_size < payload_size \<and> local_size + 31 \<le> usable_size \<and>
             (local_size - 4 = payload_overflow_threshold_min t usable_size \<or>
              (payload_size - (local_size - 4)) mod (usable_size - 4) = 0)"
proof -
  note tb = threshold_bounds[OF assms, of t]
  have mx: "payload_overflow_threshold_max t usable_size < usable_size - 4" using tb(3) assms by linarith
  show ?thesis
  proof (cases "payload_overflows payload_size (payload_overflow_threshold_max t usable_size)
      (payload_overflow_threshold_min t usable_size) usable_size")
    case None
    then have "payload_size \<le> payload_overflow_threshold_max t usable_size" by (simp add: payload_overflows_def Let_def split: if_splits)
    then show ?thesis using None tb(3) by simp
  next
    case (Some l)
    note b = payload_overflows_Some[OF Some tb(2) mx]
    have "l + 31 \<le> usable_size" using b(2) tb(3) by linarith
    then show ?thesis using Some b by simp
  qed
qed

theorem payload_overflows_bounds_witness:
  "payload_overflows 1000 (payload_overflow_threshold_max TableLeaf 512) (payload_overflow_threshold_min TableLeaf 512) 512 = Some 43 \<and>
   payload_overflow_threshold_max TableLeaf 512 < 1000 \<and> payload_overflow_threshold_min TableLeaf 512 + 4 \<le> 43 \<and>
   43 \<le> payload_overflow_threshold_max TableLeaf 512 + 4 \<and> (43 :: nat) + 31 \<le> 512 \<and>
   ((43 :: nat) - 4 = payload_overflow_threshold_min TableLeaf 512 \<or> ((1000 :: nat) - (43 - 4)) mod (512 - 4) = 0)"
proof -
  have o: "payload_overflows 1000 (payload_overflow_threshold_max TableLeaf 512) (payload_overflow_threshold_min TableLeaf 512) 512 = Some 43"
    by (simp add: payload_overflows_def payload_overflow_threshold_max_def payload_overflow_threshold_min_def Let_def)
  then show ?thesis using payload_overflows_bounds[of 512 1000 TableLeaf] by (simp only: o option.case)
qed

text \<open>
  C31. The cell readers agree. When the hot-path reader \<open>cell_read_payload_at\<close> accepts a cell, the
  full decoder \<open>cell_get\<close> returns a cell with the same local payload, size and overflow page;
  the optimistic leaf decoder returns the payload exactly for leaf cells without overflow;
  and the payload lies inside the region that \<open>cell_get_raw_region_and_overflow\<close> reports.
\<close>

theorem cell_readers_agree:
  assumes "480 \<le> usable_size" "cell_count p = Inr n" "idx < n"
    "cell_read_payload_at p idx (payload_limits_new usable_size) = Inr (pl, start, sz, ov)"
  shows "(\<exists>c. cell_get p idx usable_size = Inr c \<and> cell_payload c = Some (pl, sz, ov)) \<and>
         (decode_leaf_cell_without_overflow p idx (payload_limits_new usable_size) = Some (pl, start)
            \<longleftrightarrow> is_leaf p = Inr True \<and> ov = None) \<and>
         (case cell_get_raw_region_and_overflow p idx usable_size of
            Inl e \<Rightarrow> True
          | Inr (s, len, ov') \<Rightarrow>
              s < start \<and> ov' = ov \<and>
              start + length pl + (if ov = None then 0 else 4) \<le> s + len)"
proof -
  obtain pos t where pos: "cell_pointer p idx = Inr pos" "get_page_type p = Inr t"
    "payload_position (page_buf p) pos t = Inr (sz, start)"
    "payload_of (page_buf p) usable_size t start sz = Inr (pl, ov)"
    using assms(4) by (auto simp: cell_read_payload_at_Inr[OF assms(1)])
  have start: "cell_get_raw_start_offset p idx = Inr pos"
    using pos(1) by (auto simp: cell_pointer_def cell_get_raw_start_offset_def
        cell_pointer_array_offset_def read_u16_def read_u16_no_offset_def add.assoc)
  have leaf: "is_leaf p = Inr True \<longleftrightarrow> t \<in> {TableLeaf, IndexLeaf}"
    using pos(2) by (auto simp: is_leaf_def get_page_type_def page_type_try_from_def split: if_splits)
  have "\<exists>c. cell_get p idx usable_size = Inr c \<and> cell_payload c = Some (pl, sz, ov)"
    using read_btree_cell_of[OF assms(1) pos(2-4)] assms(2,3) pos(1) by (simp add: cell_get_def)
  moreover have "decode_leaf_cell_without_overflow p idx (payload_limits_new usable_size) = Some (pl, start)
      \<longleftrightarrow> is_leaf p = Inr True \<and> ov = None"
    unfolding decode_leaf_iff[OF assms(1)] leaf using assms(4) pos(2) by auto
  moreover have "case cell_get_raw_region_and_overflow p idx usable_size of
      Inl e \<Rightarrow> True
    | Inr (s, len, ov') \<Rightarrow>
        s < start \<and> ov' = ov \<and> start + length pl + (if ov = None then 0 else 4) \<le> s + len"
    using raw_region_of[OF assms(1) pos(2-4) start] by (auto split: sum.splits)
  ultimately show ?thesis by blast
qed

text \<open>A table leaf page of 512 bytes with one cell at offset 505.\<close>

definition sample_page :: "byte list \<Rightarrow> page" where
  "sample_page cell =
     \<lparr>page_id = 2,
      page_buf = [13, 0, 0, 0, 1, 1, 249, 0, 1, 249] @ replicate 495 0 @ cell,
      overflow_cells = []\<rparr>"

lemma sample_page_simps:
  assumes "length cell = 7"
  shows "length (page_buf (sample_page cell)) = 512" "page_offset (sample_page cell) = 0"
    "cell_count (sample_page cell) = Inr 1" "get_page_type (sample_page cell) = Inr TableLeaf"
    "cell_pointer (sample_page cell) 0 = Inr 505" "is_leaf (sample_page cell) = Inr True"
    "slice (page_buf (sample_page cell)) (505 + i) n = slice cell i n"
    "drop (505 + i) (page_buf (sample_page cell)) = drop i cell"
proof -
  have d: "drop 505 (page_buf (sample_page cell)) = cell" by (simp add: sample_page_def)
  show "drop (505 + i) (page_buf (sample_page cell)) = drop i cell" for i
    using d by (metis add.commute drop_drop)
  then show "slice (page_buf (sample_page cell)) (505 + i) n = slice cell i n"
    by (simp add: slice_def)
qed (use assms in \<open>simp_all add: sample_page_def page_offset_def cell_count_def read_u16_def slice_def
      get_page_type_def read_u8_def page_type_try_from_def cell_pointer_def page_header_size_def
      header_size_of_def is_leaf_def\<close>)

lemma sample_payload_position:
  "payload_position (page_buf (sample_page [sz, 1, a, b, c, d, e])) 505 TableLeaf =
     (if sz < 0x80 then Inr (ucast sz, 507) else payload_position (page_buf (sample_page [sz, 1, a, b, c, d, e])) 505 TableLeaf)"
  using sample_page_simps(1)[of "[sz, 1, a, b, c, d, e]"] sample_page_simps(8)[of "[sz, 1, a, b, c, d, e]" 0]
    sample_page_simps(8)[of "[sz, 1, a, b, c, d, e]" 1]
  by (simp add: payload_position_def slice_from_def read_varint_def)

theorem cell_readers_agree_witness:
  "(\<exists>c. cell_get (sample_page [5, 1, 1, 2, 3, 4, 5]) 0 512 = Inr c \<and>
      cell_payload c = Some ([1, 2, 3, 4, 5], 5, None)) \<and>
   (decode_leaf_cell_without_overflow (sample_page [5, 1, 1, 2, 3, 4, 5]) 0 (payload_limits_new 512) =
      Some ([1, 2, 3, 4, 5], 507) \<longleftrightarrow>
      is_leaf (sample_page [5, 1, 1, 2, 3, 4, 5]) = Inr True \<and> (None :: nat option) = None) \<and>
   (case cell_get_raw_region_and_overflow (sample_page [5, 1, 1, 2, 3, 4, 5]) 0 512 of
      Inl e \<Rightarrow> True
    | Inr (s, len, ov') \<Rightarrow>
        s < 507 \<and> ov' = None \<and>
        507 + length [1, 2, 3, 4, 5 :: byte] + (if (None :: nat option) = None then 0 else 4) \<le> s + len)"
proof (rule cell_readers_agree)
  show "cell_read_payload_at (sample_page [5, 1, 1, 2, 3, 4, 5]) 0 (payload_limits_new 512) =
      Inr ([1, 2, 3, 4, 5], 507, 5, None)"
    using sample_page_simps(7)[of "[5, 1, 1, 2, 3, 4, 5]" 2 5] sample_payload_position[of 5 1 2 3 4 5]
    by (simp add: cell_read_payload_at_Inr sample_page_simps payload_of_None
        payload_overflow_threshold_max_def slice_def)
  show "cell_count (sample_page [5, 1, 1, 2, 3, 4, 5]) = Inr 1" by (simp add: sample_page_simps)
  show "(0 :: nat) < 1" "(480 :: nat) \<le> 512" by simp_all
qed

lemma payload_position_start: "payload_position buf pos t = Inr (sz, start) \<Longrightarrow> start \<le> length buf"
  by (cases t) (auto simp: payload_position_def slice_from_def ensure_def dest!: read_varint_bounds(3) split: if_splits)

lemma read_local_payload_short:
  assumes "unat sz \<le> mx" "start \<le> length buf" "length buf < start + unat sz"
  shows "read_local_payload buf start sz mx mn u =
     (if length buf < start + 4 then Inl Corrupt
      else Inr (slice buf start (length buf - start - 4), Some (be_to_nat (drop (length buf - 4) buf))))"
  using assms by (auto simp: read_local_payload_def payload_overflows_def read_payload_def slice_def Let_def min_def)

text \<open>
  C34. A cell that claims more bytes than the page has left, but so few that it should not overflow, is
  corrupt. The hot-path reader reports it. \<open>cell_get\<close> does so only when fewer than four bytes are left
  after the cell's header; otherwise it returns a cell, with the last four bytes of the page as the
  number of an overflow page and what is before them as its payload.
\<close>

theorem cell_get_accepts_truncated_cell:
  assumes "480 \<le> usable_size" "cell_count p = Inr n" "idx < n" "cell_pointer p idx = Inr pos" "get_page_type p = Inr t"
    "payload_position (page_buf p) pos t = Inr (sz, start)"
    "unat sz \<le> payload_overflow_threshold_max t usable_size" "length (page_buf p) < start + unat sz"
  shows "cell_read_payload_at p idx (payload_limits_new usable_size) = Inl Corrupt \<and>
     (if length (page_buf p) < start + 4 then cell_get p idx usable_size = Inl Corrupt
      else \<exists>c. cell_get p idx usable_size = Inr c \<and>
             cell_payload c = Some (slice (page_buf p) start (length (page_buf p) - start - 4), sz,
                                    Some (be_to_nat (drop (length (page_buf p) - 4) (page_buf p)))))"
proof
  have "payload_of (page_buf p) usable_size t start sz = Inl Corrupt" using assms(7,8) by (simp add: payload_of_def payload_overflows_def)
  then show "cell_read_payload_at p idx (payload_limits_new usable_size) = Inl Corrupt"
    using assms(4-6) by (simp add: cell_read_payload_at_eq[OF assms(1)])
  note st = payload_position_start[OF assms(6)]
  have rd: "read_local_payload (page_buf p) start sz (payload_overflow_threshold_max t usable_size) (payload_overflow_threshold_min t usable_size) usable_size =
     (if length (page_buf p) < start + 4 then Inl Corrupt
      else Inr (slice (page_buf p) start (length (page_buf p) - start - 4), Some (be_to_nat (drop (length (page_buf p) - 4) (page_buf p)))))"
    by (rule read_local_payload_short[OF assms(7) _ assms(8)]) (simp add: st)
  show "if length (page_buf p) < start + 4 then cell_get p idx usable_size = Inl Corrupt
      else \<exists>c. cell_get p idx usable_size = Inr c \<and>
             cell_payload c = Some (slice (page_buf p) start (length (page_buf p) - start - 4), sz,
                                    Some (be_to_nat (drop (length (page_buf p) - 4) (page_buf p))))"
    using assms(2-4) read_btree_cell_local[OF assms(5,6) rd] by (simp add: cell_get_def)
qed

theorem cell_get_accepts_truncated_cell_witness:
  "cell_read_payload_at (sample_page [10, 1, 1, 2, 3, 4, 5]) 0 (payload_limits_new 512) = Inl Corrupt \<and>
   (\<exists>c. cell_get (sample_page [10, 1, 1, 2, 3, 4, 5]) 0 512 = Inr c \<and> cell_payload c = Some ([1], 10, Some 0x02030405))"
proof -
  let ?p = "sample_page [10, 1, 1, 2, 3, 4, 5]"
  note s = sample_page_simps[of "[10, 1, 1, 2, 3, 4, 5]"]
  have pos: "payload_position (page_buf ?p) 505 TableLeaf = Inr (10, 507)" using sample_payload_position[of 10 1 2 3 4 5] by simp
  have b: "slice (page_buf ?p) 507 1 = [1]" "drop 508 (page_buf ?p) = [2, 3, 4, 5]" using s(7)[of 2 1] s(8)[of 3] by (simp_all add: slice_def)
  have "unat (10 :: u64) \<le> payload_overflow_threshold_max TableLeaf 512" "length (page_buf ?p) < 507 + unat (10 :: u64)"
    using s(1) by (simp_all add: payload_overflow_threshold_max_def)
  from cell_get_accepts_truncated_cell[OF _ s(3) _ s(5,4) pos this] show ?thesis using s(1) b by simp
qed

text \<open>
  C33. The values of the file header: the accepted page sizes are the powers of two from 512 to
  65536 and are recovered from their 16-bit form; page types and versions are recovered from
  their codes and no other code is accepted; a cache size other than 0 is recovered.
\<close>

theorem header_values_roundtrip:
  "map_option PageSize_get (PageSize_new sz) =
     (if sz \<in> (\<lambda>k. 2 ^ k) ` {9..16} then Some sz else None) \<and>
   (page_type_try_from b = Inr t \<longleftrightarrow> b = page_type_code t) \<and>
   (version_try_from b = Inr v \<longleftrightarrow> b = raw_version v) \<and>
   CacheSize_get (CacheSize_new c) = (if c = 0 then - 2000 else c)"
  by (cases t; cases v) (auto simp: PageSize_new_get page_type_try_from_def page_type_code_def
      version_try_from_def raw_version_def CacheSize_get_def CacheSize_new_def)

end
