(* ===== verification/PageSpace.thy ===== *)
theory PageSpace
  imports PageFormat
begin

text \<open>
  Space management inside a b-tree page, from \<open>core/storage/btree.rs\<close>: computing the free
  space, taking a slot from the freeblock list, returning a cell range to it,
  defragmentation, and inserting and dropping cells. Free space is the unallocated region
  between the cell pointer array and the cell content area, the freeblocks (a list linked
  through the page, in ascending order, each block holding its successor and its size) and
  fragments of one to three bytes that are only counted. Subtractions that would underflow
  are \<open>Panic\<close>; an error discards the partially written page, which belongs to a
  transaction that is then rolled back.
\<close>

section \<open>Free space\<close>

text \<open>The walk over the freeblocks: the sum of their sizes, or the corruption found.\<close>

function free_space_loop :: "page \<Rightarrow> nat \<Rightarrow> nat \<Rightarrow> nat \<Rightarrow> nat result" where
  "free_space_loop p usable_space cur free_space_bytes =
     (if cur + 4 > usable_space then Inl Corrupt
      else and_then (read_u16_no_offset p cur) (\<lambda>next.
           and_then (read_u16_no_offset p (cur + 2)) (\<lambda>sz.
           if sz < 4 then Inl Corrupt
           else if cur + sz > usable_space then Inl Corrupt
           else if next = 0 then Inr (free_space_bytes + sz)
           else if next \<le> cur + sz + 3 then Inl Corrupt
           else free_space_loop p usable_space next (free_space_bytes + sz))))"
  by pat_completeness auto
termination
  by (relation "measure (\<lambda>(_, usable_space, cur, _). Suc usable_space - cur)") auto

declare free_space_loop.simps [simp del]

definition compute_free_space :: "page \<Rightarrow> nat \<Rightarrow> nat result" where
  "compute_free_space p usable_space =
     and_then (btree_free_space_fields p) (\<lambda>header.
     let first_cell = page_offset p + fs_header_size header + 2 * fs_cell_count header;
         content_start = fs_cell_content_area header
     in if first_cell > usable_space then Inl Corrupt
        else if content_start > usable_space then Inl Corrupt
        else and_then
               (let free_space_bytes = content_start + fs_num_frag_free_bytes header;
                    cur = fs_first_freeblock header
                in if cur > 0 then
                     (if cur < content_start then Inl Corrupt
                      else free_space_loop p usable_space cur free_space_bytes)
                   else Inr free_space_bytes) (\<lambda>free_space_bytes.
             if free_space_bytes > usable_space then Inl Corrupt
             else if free_space_bytes < first_cell then Inl Corrupt
             else Inr (free_space_bytes - first_cell)))"

text \<open>\<open>try_into\<close> of an offset to \<open>u16\<close>, whose failure is a panic.\<close>

definition to_u16 :: "nat \<Rightarrow> nat result" where
  "to_u16 n = (if n < 65536 then Inr n else Inl Panic)"

section \<open>Taking a slot\<close>

function find_free_slot_loop ::
    "page \<Rightarrow> nat \<Rightarrow> nat \<Rightarrow> nat option \<Rightarrow> nat \<Rightarrow> (page \<times> nat option) result" where
  "find_free_slot_loop p usable_space amount prev_block cur =
     (if cur + 4 > usable_space then Inl Corrupt
      else and_then (to_u16 cur) (\<lambda>cur_u16.
           and_then (read_freeblock p cur_u16) (\<lambda>(next, sz).
           if amount > sz then
             (if next = 0 then Inr (p, None)
              else if next \<le> cur then Inl Corrupt
              else find_free_slot_loop p usable_space amount (Some cur) next)
           else
             let new_size = sz - amount
             in if new_size < 4 then
                  and_then (num_frag_free_bytes p) (\<lambda>frag.
                  if frag > 57 then Inr (p, None)
                  else
                    and_then
                      (case prev_block of
                         Some prev \<Rightarrow> and_then (to_u16 prev) (\<lambda>prev_u16. write_freeblock_next_ptr p prev_u16 next)
                       | None \<Rightarrow> write_first_freeblock p next) (\<lambda>p.
                    and_then (num_frag_free_bytes p) (\<lambda>frag.
                    and_then (write_fragmented_bytes_count p (frag + new_size)) (\<lambda>p.
                    Inr (p, Some cur)))))
                else if new_size + cur > usable_space - amount then Inl Corrupt
                else and_then (write_freeblock_size p cur_u16 new_size) (\<lambda>p.
                     Inr (p, Some (cur + new_size))))))"
  by pat_completeness auto
termination
  by (relation "measure (\<lambda>(_, usable_space, _, _, cur). Suc usable_space - cur)") auto

declare find_free_slot_loop.simps [simp del]

definition find_free_slot :: "page \<Rightarrow> nat \<Rightarrow> nat \<Rightarrow> (page \<times> nat option) result" where
  "find_free_slot p usable_space amount =
     and_then (first_freeblock p) (\<lambda>first_block.
     and_then (ensure (amount \<le> usable_space) Panic) (\<lambda>_.
     if first_block = 0 then Inr (p, None)
     else find_free_slot_loop p usable_space amount None first_block))"

section \<open>Returning a range\<close>

text \<open>
  The search for the neighbours of the freed range: the last freeblock before \<open>off\<close> and the
  first one at or behind it.
\<close>

function free_range_scan ::
    "page \<Rightarrow> nat \<Rightarrow> nat option \<Rightarrow> nat \<Rightarrow> (nat option \<times> nat option) result" where
  "free_range_scan p off prev_block next =
     (if (case prev_block of Some prev \<Rightarrow> next \<le> prev | None \<Rightarrow> False) then Inl Corrupt
      else if next \<ge> off then Inr (prev_block, Some next)
      else and_then (read_u16_no_offset p next) (\<lambda>next'.
           if next' = 0 then Inr (Some next, None)
           else free_range_scan p off (Some next) next'))"
  by pat_completeness auto
termination
  by (relation "measure (\<lambda>(_, off, prev, next). case prev of None \<Rightarrow> Suc off
        | Some q \<Rightarrow> if next \<le> q then 0 else Suc off - next)") (auto split: option.splits if_splits)

declare free_range_scan.simps [simp del]

text \<open>
  Merging the freed range with the block behind it: the new end, the removed fragment bytes
  and the block after the merged one.
\<close>

definition merge_next ::
    "page \<Rightarrow> nat \<Rightarrow> nat \<Rightarrow> nat option \<Rightarrow> (nat \<times> nat \<times> nat option) result" where
  "merge_next p usable_space end1 next_block =
     (case next_block of
        None \<Rightarrow> Inr (end1, 0, None)
      | Some next \<Rightarrow>
          if end1 + 3 \<ge> next then
            (if end1 > next then Inl Corrupt
             else and_then (read_u16_no_offset p (next + 2)) (\<lambda>next_size.
                  if next + next_size > usable_space then Inl Corrupt
                  else and_then (read_u16_no_offset p next) (\<lambda>next'.
                       Inr (next + next_size, next - end1, if next' = 0 then None else Some next'))))
          else Inr (end1, 0, Some next))"

text \<open>Merging with the block in front: the new start and the removed fragment bytes.\<close>

definition merge_prev :: "page \<Rightarrow> nat \<Rightarrow> nat option \<Rightarrow> (nat \<times> nat) result" where
  "merge_prev p off prev_block =
     (case prev_block of
        None \<Rightarrow> Inr (off, 0)
      | Some prev \<Rightarrow>
          and_then (read_u16_no_offset p (prev + 2)) (\<lambda>prev_size.
          let prev_end = prev + prev_size
          in if prev_end > off then Inl Corrupt
             else if prev_end + 3 \<ge> off then Inr (prev, off - prev_end)
             else Inr (off, 0)))"

definition free_range_store ::
    "page \<Rightarrow> nat \<Rightarrow> nat \<Rightarrow> nat \<Rightarrow> nat \<Rightarrow> nat option \<Rightarrow> nat option \<Rightarrow> page result" where
  "free_range_store p first_block content_area off end1 prev_block next_block =
     (if off < content_area then Inl Corrupt
      else if off = content_area then
        (if (case prev_block of Some prev \<Rightarrow> prev \<noteq> first_block | None \<Rightarrow> False) then Inl Corrupt
         else and_then
                (case next_block of
                   Some next \<Rightarrow> if next \<le> end1 then Inl Corrupt
                                else and_then (to_u16 next) (\<lambda>next. write_first_freeblock p next)
                 | None \<Rightarrow> write_first_freeblock p 0) (\<lambda>p.
              write_cell_content_area p end1))
      else
        and_then (to_u16 off) (\<lambda>off_u16.
        and_then (case prev_block of
                    Some prev \<Rightarrow> write_u16_no_offset p prev off_u16
                  | None \<Rightarrow> write_first_freeblock p off_u16) (\<lambda>p.
        and_then (to_u16 (end1 - off)) (\<lambda>size_u16.
        and_then (case next_block of
                    Some b \<Rightarrow> and_then (to_u16 b) (\<lambda>b. Inr (Some b))
                  | None \<Rightarrow> Inr None) (\<lambda>next_block.
        write_freeblock p off_u16 size_u16 next_block)))))"

definition free_cell_range :: "page \<Rightarrow> nat \<Rightarrow> nat \<Rightarrow> nat \<Rightarrow> page result" where
  "free_cell_range p off len usable_space =
     (if len < 4 then Inl Corrupt
      else if off > usable_space - 4 then Inl Corrupt
      else if off + len > usable_space then Inl Corrupt
      else
        and_then (cell_content_area p) (\<lambda>cur_content_area.
        and_then (first_freeblock p) (\<lambda>first_block.
        if first_block = 0 then
          (if off < cur_content_area then Inl Corrupt
           else if off = cur_content_area then write_cell_content_area p (off + len)
           else and_then (to_u16 off) (\<lambda>off_u16.
                and_then (write_first_freeblock p off_u16) (\<lambda>p.
                and_then (to_u16 len) (\<lambda>size_u16.
                write_freeblock p off_u16 size_u16 None))))
        else
          and_then (free_range_scan p off None first_block) (\<lambda>(prev_block, next_block).
          if (case next_block of Some next \<Rightarrow> next + 4 > usable_space | None \<Rightarrow> False) then Inl Corrupt
          else
            and_then (merge_next p usable_space (off + len) next_block) (\<lambda>(end1, removed1, next_block).
            and_then (merge_prev p off prev_block) (\<lambda>(off, removed2).
            and_then (num_frag_free_bytes p) (\<lambda>cur_frag.
            if removed1 + removed2 > cur_frag then Inl Corrupt
            else and_then (write_fragmented_bytes_count p (cur_frag - (removed1 + removed2))) (\<lambda>p.
                 free_range_store p first_block cur_content_area off end1 prev_block next_block))))))))"

section \<open>Defragmentation\<close>

definition copy_within :: "page \<Rightarrow> nat \<Rightarrow> nat \<Rightarrow> nat \<Rightarrow> page result" where
  "copy_within p src n dest =
     (if src + n \<le> length (page_buf p) then write_bytes p dest (slice (page_buf p) src n)
      else Inl Panic)"

definition checked_sub :: "nat \<Rightarrow> nat \<Rightarrow> nat result" where
  "checked_sub a b = (if b \<le> a then Inr (a - b) else Inl Panic)"

text \<open>The loop over the cell pointers of \<open>defragment_page_fast\<close>; \<open>n\<close> pointers are left from \<open>i\<close> on.\<close>

fun shift_cell_pointers ::
    "nat \<Rightarrow> nat \<Rightarrow> page \<Rightarrow> nat \<Rightarrow> nat \<Rightarrow> nat \<Rightarrow> nat \<Rightarrow> nat \<Rightarrow> nat \<Rightarrow> page result" where
  "shift_cell_pointers 0 i p usable_space array_offset fb1 fb2 total_size size2 = Inr p"
| "shift_cell_pointers (Suc n) i p usable_space array_offset fb1 fb2 total_size size2 =
     (let ptr_offset = array_offset + i * 2
      in and_then (read_u16_no_offset p ptr_offset) (\<lambda>cell_ptr.
         and_then
           (if cell_ptr < fb1 then
              (if cell_ptr + total_size > usable_space then Inl Corrupt
               else write_u16_no_offset p ptr_offset (cell_ptr + total_size))
            else if fb2 > 0 \<and> cell_ptr < fb2 then
              (if cell_ptr + size2 > usable_space then Inl Corrupt
               else write_u16_no_offset p ptr_offset (cell_ptr + size2))
            else Inr p) (\<lambda>p.
         shift_cell_pointers n (i + 1) p usable_space array_offset fb1 fb2 total_size size2)))"

definition defragment_page_fast :: "page \<Rightarrow> nat \<Rightarrow> nat \<Rightarrow> nat \<Rightarrow> page result" where
  "defragment_page_fast p usable_space fb1 fb2 =
     (if fb1 = 0 then Inl Corrupt
      else if fb2 > 0 \<and> fb1 \<ge> fb2 then Inl Corrupt
      else if fb1 > usable_space - 4 then Inl Corrupt
      else if fb2 > usable_space - 4 then Inl Corrupt
      else
        and_then (read_u16_no_offset p (fb1 + 2)) (\<lambda>size1.
        and_then (if fb2 > 0 then read_u16_no_offset p (fb2 + 2) else Inr 0) (\<lambda>size2.
        let total_size = size1 + size2
        in and_then (cell_content_area p) (\<lambda>content_area.
           and_then
             (if fb2 > 0 then
                (if fb1 + size1 > fb2 then Inl Corrupt
                 else if fb2 + size2 > usable_space then Inl Corrupt
                 else copy_within p (fb1 + size1) (fb2 - (fb1 + size1)) (fb1 + total_size))
              else if fb1 + size1 > usable_space then Inl Corrupt
              else Inr p) (\<lambda>p.
           and_then (checked_sub fb1 content_area) (\<lambda>copy_amount.
           let new_content_area = content_area + total_size
           in if new_content_area + copy_amount > usable_space then Inl Corrupt
              else
                and_then (copy_within p content_area copy_amount new_content_area) (\<lambda>p.
                and_then (cell_count p) (\<lambda>n.
                and_then (cell_pointer_array_offset p) (\<lambda>array_offset.
                and_then (shift_cell_pointers n 0 p usable_space array_offset fb1 fb2 total_size size2) (\<lambda>p.
                and_then (write_cell_content_area p new_content_area) (\<lambda>p.
                write_first_freeblock p 0)))))))))))"

record cell_info =
  old_offset :: nat
  ci_size :: nat
  pointer_index :: nat

text \<open>Gathering the cells; \<open>n\<close> cells are left from index \<open>i\<close> on.\<close>

fun gather_cells ::
    "nat \<Rightarrow> nat \<Rightarrow> page \<Rightarrow> nat \<Rightarrow> nat \<Rightarrow> nat \<Rightarrow> page_type \<Rightarrow> cell_info list result" where
  "gather_cells 0 i p usable_space n_cells array_offset t = Inr []"
| "gather_cells (Suc n) i p usable_space n_cells array_offset t =
     and_then (read_u16_no_offset p (array_offset + i * 2)) (\<lambda>pc.
     and_then (cell_get_raw_region_faster p i usable_space n_cells
                 (payload_overflow_threshold_max t usable_space)
                 (payload_overflow_threshold_min t usable_space) t) (\<lambda>(_, sz, _).
     and_then (gather_cells n (i + 1) p usable_space n_cells array_offset t) (\<lambda>cells.
     Inr (\<lparr>old_offset = pc, ci_size = sz mod 65536, pointer_index = i\<rparr> # cells))))"

fun physically_sorted :: "nat \<Rightarrow> cell_info list \<Rightarrow> bool" where
  "physically_sorted last_offset [] \<longleftrightarrow> True"
| "physically_sorted last_offset (c # cs) \<longleftrightarrow>
     old_offset c \<le> last_offset \<and> physically_sorted (old_offset c) cs"

text \<open>The check for overlapping or misplaced cells, over the cells in ascending order.\<close>

fun cells_disjoint :: "nat \<Rightarrow> cell_info list \<Rightarrow> bool" where
  "cells_disjoint previous_end [] \<longleftrightarrow> True"
| "cells_disjoint previous_end (c # cs) \<longleftrightarrow>
     previous_end \<le> old_offset c \<and> cells_disjoint (old_offset c + ci_size c) cs"

fun process_cells ::
    "page \<Rightarrow> nat \<Rightarrow> nat \<Rightarrow> nat \<Rightarrow> cell_info list \<Rightarrow> nat \<Rightarrow> (page \<times> nat) result" where
  "process_cells p usable_space array_offset first_byte [] cbrk = Inr (p, cbrk)"
| "process_cells p usable_space array_offset first_byte (c # cs) cbrk =
     and_then (checked_sub cbrk (ci_size c)) (\<lambda>new_offset.
     and_then (ensure (new_offset \<ge> first_byte \<and> old_offset c + ci_size c \<le> usable_space) Panic) (\<lambda>_.
     and_then (if new_offset \<noteq> old_offset c
               then copy_within p (old_offset c) (ci_size c) new_offset else Inr p) (\<lambda>p.
     and_then (ensure (new_offset < 65536) Panic) (\<lambda>_.
     and_then (write_u16_no_offset p (array_offset + pointer_index c * 2) new_offset) (\<lambda>p.
     process_cells p usable_space array_offset first_byte cs new_offset)))))"

definition defragment_page_slow :: "page \<Rightarrow> nat \<Rightarrow> nat \<Rightarrow> page result" where
  "defragment_page_slow p usable_space n_cells =
     and_then (cell_pointer_array_offset p) (\<lambda>array_offset.
     and_then (get_page_type p) (\<lambda>t.
     and_then (gather_cells n_cells 0 p usable_space n_cells array_offset t) (\<lambda>cells.
     let cells = (if physically_sorted 65535 cells then cells else rev (sort_key old_offset cells))
     in if \<not> cells_disjoint (array_offset + 2 * n_cells) (rev cells) then Inl Corrupt
        else
          and_then (unallocated_region_start p) (\<lambda>first_byte.
          and_then (process_cells p usable_space array_offset first_byte cells usable_space) (\<lambda>(p, cbrk).
          and_then (write_cell_content_area p cbrk) (\<lambda>p.
          and_then (write_first_freeblock p 0) (\<lambda>p.
          write_fragmented_bytes_count p 0)))))))"

definition defragment_page :: "page \<Rightarrow> nat \<Rightarrow> int \<Rightarrow> page result" where
  "defragment_page p usable_space max_frag_bytes =
     and_then (cell_count p) (\<lambda>n.
     if n = 0 then
       and_then (write_cell_content_area p usable_space) (\<lambda>p.
       and_then (write_first_freeblock p 0) (\<lambda>p.
       write_fragmented_bytes_count p 0))
     else
       and_then (num_frag_free_bytes p) (\<lambda>frag.
       if int frag \<le> max_frag_bytes then
         and_then (first_freeblock p) (\<lambda>fb1.
         if fb1 = 0 then Inr p
         else
           and_then (read_u16_no_offset p fb1) (\<lambda>fb2.
           if fb2 = 0 then defragment_page_fast p usable_space fb1 0
           else
             and_then (read_u16_no_offset p fb2) (\<lambda>fb3.
             if fb3 = 0 then defragment_page_fast p usable_space fb1 fb2
             else defragment_page_slow p usable_space n)))
       else defragment_page_slow p usable_space n))"

section \<open>Inserting and dropping cells\<close>

definition allocate_cell_space :: "page \<Rightarrow> nat \<Rightarrow> nat \<Rightarrow> nat \<Rightarrow> (page \<times> nat) result" where
  "allocate_cell_space p amount usable_space free_space =
     (let amount = (if amount < 4 then 4 else amount)
      in and_then (unallocated_region_start p) (\<lambda>region_start.
         and_then (cell_content_area p) (\<lambda>content_start.
         and_then (first_freeblock p) (\<lambda>first_block.
         and_then
           (if first_block \<noteq> 0 \<and> region_start + 2 \<le> content_start
            then find_free_slot p usable_space amount else Inr (p, None)) (\<lambda>(p, slot).
         case slot of
           Some pc \<Rightarrow> Inr (p, pc mod 65536)
         | None \<Rightarrow>
             and_then
               (if region_start + 2 + amount > content_start then
                  and_then (defragment_page p usable_space
                              (min 4 (int free_space - int (2 + amount)))) (\<lambda>p.
                  and_then (cell_content_area p) (\<lambda>content_start. Inr (p, content_start)))
                else Inr (p, content_start)) (\<lambda>(p, content_start).
             and_then (checked_sub content_start amount) (\<lambda>content_start.
             and_then (write_cell_content_area p content_start) (\<lambda>p.
             and_then (ensure (content_start + amount \<le> usable_space) Panic) (\<lambda>_.
             Inr (p, content_start mod 65536))))))))))"

text \<open>Padding of an overflow cell on an index leaf: \<open>ensure_min_cell_size(&mut payload, 0)\<close>.\<close>

definition pad_cell :: "byte list \<Rightarrow> byte list" where
  "pad_cell pl = pl @ replicate (4 - length pl) 0"

definition insert_into_cell ::
    "page \<Rightarrow> byte list \<Rightarrow> nat \<Rightarrow> nat \<Rightarrow> bool \<Rightarrow> page result" where
  "insert_into_cell p pl cell_idx usable_space allow_regular_insert =
     and_then (cell_count p) (\<lambda>n.
     and_then (ensure (cell_idx \<le> n + length (overflow_cells p)) Panic) (\<lambda>_.
     and_then (compute_free_space p usable_space) (\<lambda>free.
     let enough_space =
       (if overflow_cells p \<noteq> [] \<and> \<not> allow_regular_insert then False
        else max (length pl) 4 + 2 \<le> free)
     in if \<not> enough_space then
          and_then (get_page_type p) (\<lambda>t.
          let pl = (if t = IndexLeaf then pad_cell pl else pl)
          in Inr (p\<lparr>overflow_cells := overflow_cells p @ [(cell_idx, pl)]\<rparr>))
        else
          and_then (ensure (cell_idx \<le> n) Panic) (\<lambda>_.
          and_then (allocate_cell_space p (length pl) usable_space free) (\<lambda>(p, pointer).
          and_then (ensure (pointer + length pl \<le> usable_space) Panic) (\<lambda>_.
          and_then (write_bytes p pointer pl) (\<lambda>p.
          and_then (cell_pointer_array_offset p) (\<lambda>array_start.
          let cur_idx = array_start + 2 * cell_idx
          in and_then (cell_count p) (\<lambda>n.
             and_then (checked_sub n cell_idx) (\<lambda>n_forward.
             and_then (if 2 * n_forward > 0 then copy_within p cur_idx (2 * n_forward) (cur_idx + 2)
                       else Inr p) (\<lambda>p.
             and_then (write_u16_no_offset p cur_idx pointer) (\<lambda>p.
             and_then (cell_count p) (\<lambda>n.
             write_cell_count p (n + 1))))))))))))))"

definition shift_pointers_left :: "page \<Rightarrow> nat \<Rightarrow> page result" where
  "shift_pointers_left p cell_idx =
     and_then (cell_count p) (\<lambda>n.
     and_then (ensure (n > 0) Panic) (\<lambda>_.
     and_then (cell_pointer_array_offset p) (\<lambda>array_start.
     let start = array_start + cell_idx * 2 + 2
     in and_then (checked_sub n (cell_idx + 1)) (\<lambda>right_cells.
        copy_within p start (right_cells * 2) (start - 2)))))"

definition drop_cell :: "page \<Rightarrow> nat \<Rightarrow> nat \<Rightarrow> page result" where
  "drop_cell p cell_idx usable_space =
     and_then (cell_get_raw_region p cell_idx usable_space) (\<lambda>(cell_start, cell_len).
     and_then (free_cell_range p cell_start cell_len usable_space) (\<lambda>p.
     and_then (cell_count p) (\<lambda>n.
     and_then
       (if n > 1 then shift_pointers_left p cell_idx
        else
          and_then (write_cell_content_area p usable_space) (\<lambda>p.
          and_then (write_first_freeblock p 0) (\<lambda>p.
          write_fragmented_bytes_count p 0))) (\<lambda>p.
     and_then (cell_count p) (\<lambda>n.
     and_then (checked_sub n 1) (\<lambda>n. write_cell_count p n))))))"

definition delete_may_need_balancing :: "page \<Rightarrow> nat \<Rightarrow> nat \<Rightarrow> bool result" where
  "delete_may_need_balancing p cell_idx usable_space =
     and_then (is_leaf p) (\<lambda>leaf.
     and_then (cell_count p) (\<lambda>n.
     if \<not> leaf \<or> n = 1 \<or> overflow_cells p \<noteq> [] then Inr True
     else and_then (cell_get_raw_region p cell_idx usable_space) (\<lambda>(_, cell_len).
          and_then (compute_free_space p usable_space) (\<lambda>free.
          Inr ((free + cell_len + 2) * 3 > usable_space * 2)))))"

definition btree_init_page :: "page \<Rightarrow> page_type \<Rightarrow> nat \<Rightarrow> page result" where
  "btree_init_page p t usable_space =
     and_then (write_page_type (p\<lparr>overflow_cells := []\<rparr>) (page_type_code t)) (\<lambda>p.
     and_then (write_first_freeblock p 0) (\<lambda>p.
     and_then (write_cell_count p 0) (\<lambda>p.
     and_then (write_cell_content_area p usable_space) (\<lambda>p.
     and_then (write_fragmented_bytes_count p 0) (\<lambda>p.
     write_rightmost_ptr p 0)))))"

end
