(* ===== verification/FreeSpace.thy ===== *)
theory FreeSpace
  imports PageSpace
begin

text \<open>
  The free space of a page as data (content area start, freeblock list, fragment count), its
  relation to the bytes of the page, and the refinement of the operations of
  \<^verbatim>\<open>storage/btree.rs\<close> to it: \<open>compute_free_space\<close> accepts exactly the pages that have such a
  representation, \<open>free_cell_range\<close> and \<open>find_free_slot\<close> act on it as list operations.
\<close>

section \<open>Sixteen-bit fields of a buffer\<close>

definition u16_at :: "byte list \<Rightarrow> nat \<Rightarrow> nat" where
  "u16_at b i = be_to_nat (slice b i 2)"

lemma u16_at_bound: "u16_at b i < 65536"
proof -
  have "be_to_nat (slice b i 2) < 256 ^ length (slice b i 2)" by (rule be_to_nat_bound)
  also have "\<dots> \<le> 256 ^ 2" by (intro power_increasing) auto
  finally show ?thesis by (simp add: u16_at_def)
qed

lemma u16_at_put_same: "i + 2 \<le> length b \<Longrightarrow> u16_at (put b i (nat_to_be 2 v)) i = v mod 65536"
  by (simp add: u16_at_def)

lemma u16_at_put_other:
  "i + length ys \<le> length b \<Longrightarrow> j + 2 \<le> i \<or> i + length ys \<le> j \<Longrightarrow> j + 2 \<le> length b \<Longrightarrow>
     u16_at (put b i ys) j = u16_at b j"
  by (simp add: u16_at_def slice_put_disjoint)

lemma u16_at_cong: "slice b' i 4 = slice b i 4 \<Longrightarrow> j = i \<or> j = i + 2 \<Longrightarrow> u16_at b' j = u16_at b j"
proof -
  assume *: "slice b' i 4 = slice b i 4" "j = i \<or> j = i + 2"
  have "slice x i 2 = take 2 (slice x i 4)" "slice x (i + 2) 2 = drop 2 (slice x i 4)" for x :: "byte list"
    by (simp_all add: slice_def drop_take add.commute)
  then show ?thesis using * by (auto simp: u16_at_def)
qed

lemma u16_at_nth_cong:
  "i + 2 \<le> length b \<Longrightarrow> length b' = length b \<Longrightarrow> b' ! i = b ! i \<Longrightarrow> b' ! Suc i = b ! Suc i \<Longrightarrow>
     u16_at b' i = u16_at b i"
  by (simp add: u16_at_def slice_2)

lemmas read_u16_simps =
  read_u16_no_offset_def read_u16_def buf_be_def u16_at_def[symmetric]

section \<open>The freeblock list\<close>

text \<open>
  A segment of the freeblock list in the buffer \<open>b\<close>: it starts at \<open>pc\<close>, holds the blocks
  \<open>bs\<close> (offset and size) and its last block points to \<open>q\<close>. The whole list ends in 0.
\<close>

fun seg :: "byte list \<Rightarrow> nat \<Rightarrow> (nat \<times> nat) list \<Rightarrow> nat \<Rightarrow> bool" where
  "seg b pc [] q \<longleftrightarrow> pc = q"
| "seg b pc ((off, sz) # bs) q \<longleftrightarrow>
     pc = off \<and> off \<noteq> 0 \<and> off + 4 \<le> length b \<and> u16_at b (off + 2) = sz \<and>
     seg b (u16_at b off) bs q"

text \<open>Ascending blocks from \<open>lo\<close> up to the usable size, more than three bytes apart.\<close>

fun blocks_ok :: "nat \<Rightarrow> nat \<Rightarrow> (nat \<times> nat) list \<Rightarrow> bool" where
  "blocks_ok lo u [] \<longleftrightarrow> True"
| "blocks_ok lo u ((off, sz) # bs) \<longleftrightarrow>
     lo \<le> off \<and> 4 \<le> sz \<and> off + sz \<le> u \<and> blocks_ok (off + sz + 4) u bs"

lemma seg_append: "seg b pc (xs @ ys) q \<longleftrightarrow> (\<exists>m. seg b pc xs m \<and> seg b m ys q)"
  by (induction b pc xs q rule: seg.induct) auto

lemma seg_start: "seg b pc bs 0 \<Longrightarrow> pc = (case bs of [] \<Rightarrow> 0 | (off, _) # _ \<Rightarrow> off)"
  by (cases bs) auto

lemma seg_frame:
  "seg b pc bs q \<Longrightarrow> length b' = length b \<Longrightarrow>
     (\<And>off sz. (off, sz) \<in> set bs \<Longrightarrow> slice b' off 4 = slice b off 4) \<Longrightarrow> seg b' pc bs q"
proof (induction bs arbitrary: pc)
  case (Cons x bs)
  obtain off sz where x: "x = (off, sz)" by (cases x) auto
  have "slice b' off 4 = slice b off 4" using Cons.prems(3)[of off sz] x by simp
  then have "u16_at b' off = u16_at b off" "u16_at b' (off + 2) = u16_at b (off + 2)"
    by (auto intro: u16_at_cong)
  then show ?case using Cons x by auto
qed simp

text \<open>Redirecting the pointer of the last block.\<close>

lemma seg_snoc:
  "seg b pc (xs @ [(off, sz)]) q \<longleftrightarrow>
     seg b pc xs off \<and> off \<noteq> 0 \<and> off + 4 \<le> length b \<and> u16_at b (off + 2) = sz \<and> u16_at b off = q"
  by (auto simp: seg_append)

lemma blocks_ok_append:
  "blocks_ok lo u (xs @ ys) \<longleftrightarrow>
     blocks_ok lo u xs \<and>
     blocks_ok (if xs = [] then lo else fst (last xs) + snd (last xs) + 4) u ys"
  by (induction lo u xs rule: blocks_ok.induct) auto

lemma blocks_ok_bounds:
  "blocks_ok lo u bs \<Longrightarrow> (off, sz) \<in> set bs \<Longrightarrow> lo \<le> off \<and> 4 \<le> sz \<and> off + sz \<le> u"
proof (induction lo u bs rule: blocks_ok.induct)
  case (2 lo u o' s' bs)
  then show ?case by fastforce
qed simp

lemma blocks_ok_gap:
  "blocks_ok lo u (xs @ (q, s) # ys) \<Longrightarrow> (y, t) \<in> set xs \<Longrightarrow> y + t + 4 \<le> q"
proof (induction xs arbitrary: lo)
  case (Cons x xs)
  then show ?case
  proof (cases "x = (y, t)")
    case True
    have "blocks_ok (y + t + 4) u (xs @ (q, s) # ys)" using Cons.prems True by simp
    then show ?thesis using blocks_ok_bounds[of "y + t + 4" u "xs @ (q, s) # ys" q s] by simp
  next
    case False
    then show ?thesis using Cons by (cases x) auto
  qed
qed simp

lemma blocks_ok_mono: "blocks_ok lo u bs \<Longrightarrow> lo' \<le> lo \<Longrightarrow> blocks_ok lo' u bs"
  by (cases bs) auto

definition sizes :: "(nat \<times> nat) list \<Rightarrow> nat" where
  "sizes bs = sum_list (map snd bs)"

lemma sizes_simps [simp]:
  "sizes [] = 0" "sizes ((off, sz) # bs) = sz + sizes bs" "sizes (xs @ ys) = sizes xs + sizes ys"
  by (simp_all add: sizes_def)

lemma free_space_loop_iff:
  assumes "u \<le> length (page_buf p)" "cur \<noteq> 0"
  shows "free_space_loop p u cur acc = Inr f \<longleftrightarrow>
     (\<exists>bs. bs \<noteq> [] \<and> seg (page_buf p) cur bs 0 \<and> blocks_ok cur u bs \<and> f = acc + sizes bs)"
  using assms
proof (induction p u cur acc rule: free_space_loop.induct)
  case (1 p u cur acc)
  let ?b = "page_buf p"
  let ?next = "u16_at ?b cur" and ?sz = "u16_at ?b (cur + 2)"
  show ?case
  proof (cases "cur + 4 \<le> u \<and> 4 \<le> ?sz \<and> cur + ?sz \<le> u \<and> (?next = 0 \<or> cur + ?sz + 3 < ?next)")
    case False
    then have "free_space_loop p u cur acc \<noteq> Inr f"
      using 1(2) by (subst free_space_loop.simps) (auto simp: read_u16_simps)
    moreover have "\<not> (bs \<noteq> [] \<and> seg ?b cur bs 0 \<and> blocks_ok cur u bs)" for bs
      using False by (cases bs; cases "tl bs") auto
    ultimately show ?thesis by blast
  next
    case True
    then have len: "cur + 4 \<le> length ?b" using 1(2) by simp
    have loop: "free_space_loop p u cur acc =
        (if ?next = 0 then Inr (acc + ?sz) else free_space_loop p u ?next (acc + ?sz))"
      using True len by (subst free_space_loop.simps) (auto simp: read_u16_simps)
    show ?thesis
    proof (cases "?next = 0")
      case True': True
      have "seg ?b cur bs 0 \<and> bs \<noteq> [] \<longleftrightarrow> bs = [(cur, ?sz)]" for bs
        using len True' 1(3) by (cases bs; cases "tl bs") auto
      then have "(\<exists>bs. (bs \<noteq> [] \<and> seg ?b cur bs 0) \<and> blocks_ok cur u bs \<and> f = acc + sizes bs) \<longleftrightarrow>
          (\<exists>bs. bs = [(cur, ?sz)] \<and> blocks_ok cur u bs \<and> f = acc + sizes bs)"
        by (simp only: conj_commute[of "_ \<noteq> []"])
      then have "(\<exists>bs. bs \<noteq> [] \<and> seg ?b cur bs 0 \<and> blocks_ok cur u bs \<and> f = acc + sizes bs) \<longleftrightarrow>
          f = acc + ?sz"
        using True by (simp only: conj_assoc) simp
      then show ?thesis using loop True' by (simp only:) auto
    next
      case False
      have "free_space_loop p u ?next (acc + ?sz) = Inr f \<longleftrightarrow>
          (\<exists>bs. bs \<noteq> [] \<and> seg ?b ?next bs 0 \<and> blocks_ok ?next u bs \<and> f = acc + ?sz + sizes bs)"
        using True False 1(2) len by (intro 1(1)[of ?next ?sz]) (auto simp: read_u16_simps)
      also have "\<dots> \<longleftrightarrow> (\<exists>bs. bs \<noteq> [] \<and> seg ?b cur bs 0 \<and> blocks_ok cur u bs \<and> f = acc + sizes bs)"
        (is "?L \<longleftrightarrow> ?R")
      proof
        assume ?L
        then obtain bs where bs: "bs \<noteq> []" "seg ?b ?next bs 0" "blocks_ok ?next u bs"
          "f = acc + ?sz + sizes bs" by blast
        have "blocks_ok (cur + ?sz + 4) u bs" using True False by (intro blocks_ok_mono[OF bs(3)]) auto
        moreover have "4 \<le> ?sz" "cur + ?sz \<le> u" using True by blast+
        ultimately have "blocks_ok cur u ((cur, ?sz) # bs)"
          by (simp only: blocks_ok.simps order_refl simp_thms)
        moreover have "seg ?b cur ((cur, ?sz) # bs) 0" using bs(2) len 1(3) by simp
        moreover have "f = acc + sizes ((cur, ?sz) # bs)" using bs(4) by (simp only: sizes_simps add.assoc)
        ultimately show ?R by blast
      next
        assume ?R
        then obtain bs where bs: "bs \<noteq> []" "seg ?b cur bs 0" "blocks_ok cur u bs" "f = acc + sizes bs"
          by blast
        then obtain cs where cs: "bs = (cur, ?sz) # cs" "seg ?b ?next cs 0" by (cases bs) auto
        then obtain sz ds where "cs = (?next, sz) # ds" using False by (cases cs) auto
        then show ?L using bs cs by (intro exI[of _ cs]) auto
      qed
      finally show ?thesis using loop False by simp
    qed
  qed
qed

section \<open>The free space of a page\<close>

text \<open>
  The free space as data: where the cell content area starts, the freeblocks, and the number
  of fragmented bytes. \<open>free_rep\<close> relates a page to it; \<open>fc\<close> is the end of the cell pointer
  array.
\<close>

definition free_rep :: "page \<Rightarrow> nat \<Rightarrow> nat \<Rightarrow> nat \<Rightarrow> (nat \<times> nat) list \<Rightarrow> nat \<Rightarrow> bool" where
  "free_rep p u fc c bs g \<longleftrightarrow>
     u \<le> length (page_buf p) \<and> u \<le> 65536 \<and> page_offset p + 8 \<le> fc \<and> fc \<le> c \<and> c \<le> u \<and>
     unallocated_region_start p = Inr fc \<and> cell_content_area p = Inr c \<and>
     num_frag_free_bytes p = Inr g \<and>
     seg (page_buf p) (u16_at (page_buf p) (page_offset p + 1)) bs 0 \<and> blocks_ok c u bs"

definition free_total :: "nat \<Rightarrow> nat \<Rightarrow> (nat \<times> nat) list \<Rightarrow> nat \<Rightarrow> nat" where
  "free_total fc c bs g = (c - fc) + sizes bs + g"

lemma first_freeblock_rep:
  "free_rep p u fc c bs g \<Longrightarrow>
     first_freeblock p = Inr (case bs of [] \<Rightarrow> 0 | (off, _) # _ \<Rightarrow> off)"
  by (auto simp: free_rep_def first_freeblock_def read_u16_simps dest: seg_start)

lemma unallocated_region_start_Inr:
  "unallocated_region_start p = Inr fc \<longleftrightarrow>
     (\<exists>h n. page_header_size p = Inr h \<and> cell_count p = Inr n \<and> fc = page_offset p + h + 2 * n)"
  by (auto simp: unallocated_region_start_def cell_pointer_array_offset_def cell_pointer_array_size_def)

text \<open>\<open>compute_free_space\<close> accepts exactly the pages whose free space has such a representation.\<close>

lemma compute_free_space_iff:
  assumes "u \<le> length (page_buf p)" "u \<le> 65536" "page_offset p + 12 \<le> u"
  shows "compute_free_space p u = Inr f \<longleftrightarrow>
     (\<exists>fc c bs g. page_offset p + 8 \<le> fc \<and> unallocated_region_start p = Inr fc \<and> fc \<le> u \<and>
        cell_content_area p = Inr c \<and> c \<le> u \<and> num_frag_free_bytes p = Inr g \<and>
        seg (page_buf p) (u16_at (page_buf p) (page_offset p + 1)) bs 0 \<and> blocks_ok c u bs \<and>
        c + sizes bs + g \<le> u \<and> fc \<le> c + sizes bs + g \<and> f = c + sizes bs + g - fc)"
proof -
  let ?b = "page_buf p" and ?o = "page_offset p"
  define h where "h = header_size_of (?b ! ?o)"
  define n where "n = u16_at ?b (?o + 3)"
  define c where "c = content_area_value (u16_at ?b (?o + 5))"
  define g where "g = unat (?b ! (?o + 7))"
  define fb where "fb = u16_at ?b (?o + 1)"
  define fc where "fc = ?o + h + 2 * n"
  have len: "?o + 12 \<le> length ?b" using assms by simp
  have acc: "page_header_size p = Inr h" "cell_count p = Inr n" "cell_content_area p = Inr c"
    "num_frag_free_bytes p = Inr g" "first_freeblock p = Inr fb"
    using len by (simp_all add: page_header_size_def read_u8_def buf_u8_def cell_count_def
        cell_content_area_def num_frag_free_bytes_def first_freeblock_def read_u16_simps
        h_def n_def c_def g_def fb_def)
  have fc: "unallocated_region_start p = Inr fc" "?o + 8 \<le> fc"
    using acc by (auto simp: unallocated_region_start_Inr fc_def h_def header_size_of_def)
  have fields: "btree_free_space_fields p = Inr \<lparr>fs_header_size = h, fs_cell_count = n,
      fs_first_freeblock = fb, fs_cell_content_area = c, fs_num_frag_free_bytes = g\<rparr>"
    using len by (subst free_space_fields_eq) (simp_all add: acc)
  define L where "L = (if fb > 0 then if fb < c then Inl Corrupt else free_space_loop p u fb (c + g)
    else Inr (c + g))"
  have loop: "L = Inr t \<longleftrightarrow> (\<exists>bs. seg ?b fb bs 0 \<and> blocks_ok c u bs \<and> t = c + g + sizes bs)" for t
  proof (cases "fb = 0")
    case True
    have "seg ?b 0 bs 0 \<longleftrightarrow> bs = []" for bs by (cases bs) auto
    then show ?thesis using True by (auto simp: L_def)
  next
    case False
    have "seg ?b fb bs 0 \<and> blocks_ok c u bs \<longleftrightarrow>
        c \<le> fb \<and> bs \<noteq> [] \<and> seg ?b fb bs 0 \<and> blocks_ok fb u bs" for bs
      using False by (cases bs) auto
    then have "(\<exists>bs. (seg ?b fb bs 0 \<and> blocks_ok c u bs) \<and> t = c + g + sizes bs) \<longleftrightarrow>
        c \<le> fb \<and> (\<exists>bs. bs \<noteq> [] \<and> seg ?b fb bs 0 \<and> blocks_ok fb u bs \<and> t = c + g + sizes bs)"
      by (simp only:) blast
    then show ?thesis using False free_space_loop_iff[OF assms(1) False, of "c + g" t]
      by (simp add: L_def conj_assoc)
  qed
  have "compute_free_space p u =
      (if fc > u then Inl Corrupt else if c > u then Inl Corrupt
       else and_then L (\<lambda>t. if t > u then Inl Corrupt else if t < fc then Inl Corrupt else Inr (t - fc)))"
    by (simp only: compute_free_space_def fields and_then.simps Let_def
        free_space_fields.select_convs fc_def L_def)
  then have "compute_free_space p u = Inr f \<longleftrightarrow>
      fc \<le> u \<and> c \<le> u \<and> (\<exists>t. L = Inr t \<and> t \<le> u \<and> fc \<le> t \<and> f = t - fc)"
    by (auto simp: not_less)
  also have "\<dots> \<longleftrightarrow> fc \<le> u \<and> c \<le> u \<and> (\<exists>bs. seg ?b fb bs 0 \<and> blocks_ok c u bs \<and>
      c + sizes bs + g \<le> u \<and> fc \<le> c + sizes bs + g \<and> f = c + sizes bs + g - fc)"
    unfolding loop by (auto simp: ac_simps)
  finally show ?thesis using fc acc by (simp add: fb_def)
qed

lemma free_rep_buf:
  assumes "page_offset p + 8 \<le> length (page_buf p)"
  shows "free_rep p u fc c bs g \<longleftrightarrow>
     u \<le> length (page_buf p) \<and> u \<le> 65536 \<and> page_offset p + 8 \<le> fc \<and> fc \<le> c \<and> c \<le> u \<and>
     fc = page_offset p + header_size_of (page_buf p ! page_offset p) +
          2 * u16_at (page_buf p) (page_offset p + 3) \<and>
     c = content_area_value (u16_at (page_buf p) (page_offset p + 5)) \<and>
     g = unat (page_buf p ! (page_offset p + 7)) \<and>
     seg (page_buf p) (u16_at (page_buf p) (page_offset p + 1)) bs 0 \<and> blocks_ok c u bs"
  using assms
  by (auto simp: free_rep_def unallocated_region_start_Inr page_header_size_def read_u8_def buf_u8_def
      cell_count_def cell_content_area_def num_frag_free_bytes_def read_u16_simps)

lemma free_rep_len: "free_rep p u fc c bs g \<Longrightarrow> page_offset p + 8 \<le> length (page_buf p)"
  by (auto simp: free_rep_def)

lemma seg_put_outside:
  assumes "seg b pc bs q" "i + length ys \<le> length b"
    "\<And>off sz. (off, sz) \<in> set bs \<Longrightarrow> off + 4 \<le> i \<or> i + length ys \<le> off"
  shows "seg (put b i ys) pc bs q"
proof (rule seg_frame[OF assms(1)])
  fix off sz assume "(off, sz) \<in> set bs"
  moreover have "off + 4 \<le> length b" using assms(1) calculation
    by (induction bs arbitrary: pc) auto
  ultimately show "slice (put b i ys) off 4 = slice b off 4"
    using assms(2,3) by (intro slice_put_disjoint) auto
qed (use assms(2) in simp)

lemma content_area_value_mod: "0 < v \<Longrightarrow> v \<le> 65536 \<Longrightarrow> content_area_value (v mod 65536) = v"
  by (cases "v = 65536") (auto simp: content_area_value_def)

section \<open>Freeing on block lists\<close>

text \<open>
  The specification of \<open>free_cell_range\<close> on the free space as data: the freed range
  \<open>off .. e\<close> is merged with the block behind it and with the block in front of it when at
  most three bytes lie between, and becomes part of the unallocated region when it touches
  the start \<open>c\<close> of the content area. The last component counts the fragment bytes that the
  merges absorb.
\<close>

definition before :: "nat \<Rightarrow> (nat \<times> nat) list \<Rightarrow> (nat \<times> nat) list" where
  "before off bs = takeWhile (\<lambda>(b, _). b < off) bs"

definition behind :: "nat \<Rightarrow> (nat \<times> nat) list \<Rightarrow> (nat \<times> nat) list" where
  "behind off bs = dropWhile (\<lambda>(b, _). b < off) bs"

definition join_behind :: "nat \<Rightarrow> (nat \<times> nat) list \<Rightarrow> nat \<times> nat \<times> (nat \<times> nat) list" where
  "join_behind e post =
     (case post of
        [] \<Rightarrow> (e, 0, [])
      | (b, sz) # post' \<Rightarrow> if b \<le> e + 3 then (b + sz, b - e, post') else (e, 0, post))"

definition join_before :: "nat \<Rightarrow> (nat \<times> nat) list \<Rightarrow> nat \<times> nat \<times> (nat \<times> nat) list" where
  "join_before off pre =
     (if pre = [] then (off, 0, [])
      else let (b, sz) = last pre
           in if off \<le> b + sz + 3 then (b, off - (b + sz), butlast pre) else (off, 0, pre))"

definition free_blocks ::
    "nat \<Rightarrow> (nat \<times> nat) list \<Rightarrow> nat \<Rightarrow> nat \<Rightarrow> nat \<times> (nat \<times> nat) list \<times> nat" where
  "free_blocks c bs off e =
     (let (e', r1, post) = join_behind e (behind off bs);
          (off', r2, pre) = join_before off (before off bs)
      in if off' = c then (e', pre @ post, r1 + r2)
         else (c, pre @ (off', e' - off') # post, r1 + r2))"

definition range_free :: "nat \<Rightarrow> nat \<Rightarrow> (nat \<times> nat) list \<Rightarrow> bool" where
  "range_free off e bs \<longleftrightarrow> (\<forall>(b, sz)\<in>set bs. e \<le> b \<or> b + sz \<le> off)"

lemma before_behind: "before off bs @ behind off bs = bs"
  by (simp add: before_def behind_def)

lemma before_less: "\<forall>x\<in>set (before off bs). fst x < off"
  by (auto simp: before_def dest: set_takeWhileD)

lemma behind_hd: "behind off bs \<noteq> [] \<longrightarrow> off \<le> fst (hd (behind off bs))"
  by (induction bs) (auto simp: behind_def)

lemma range_free_append [simp]:
  "range_free off e (xs @ ys) \<longleftrightarrow> range_free off e xs \<and> range_free off e ys"
  by (auto simp: range_free_def)

lemma join_behind_ok:
  assumes "blocks_ok lo u post" "off + 4 \<le> e" "e \<le> u" "range_free off e post"
    "post \<noteq> [] \<longrightarrow> off \<le> fst (hd post)" "join_behind e post = (e', r, post')"
  shows "e \<le> e'" "e' \<le> u" "blocks_ok (e' + 4) u post'" "e' + sizes post' = e + sizes post + r"
    "set post' \<subseteq> set post"
proof -
  have "e \<le> e' \<and> e' \<le> u \<and> blocks_ok (e' + 4) u post' \<and> e' + sizes post' = e + sizes post + r \<and>
      set post' \<subseteq> set post"
  proof (cases post)
    case Nil
    then show ?thesis using assms by (auto simp: join_behind_def)
  next
    case (Cons x rest)
    obtain b sz where x: "x = (b, sz)" by (cases x) auto
    have "e \<le> b" using assms(1,2,4,5) Cons x by (auto simp: range_free_def)
    then show ?thesis using assms Cons x
      by (auto simp: join_behind_def split: if_splits)
  qed
  then show "e \<le> e'" "e' \<le> u" "blocks_ok (e' + 4) u post'" "e' + sizes post' = e + sizes post + r"
    "set post' \<subseteq> set post" by blast+
qed

lemma join_before_ok:
  assumes "blocks_ok c u pre" "c \<le> off" "off + 4 \<le> e" "range_free off e pre"
    "\<forall>x\<in>set pre. fst x < off" "join_before off pre = (off', r, pre')"
  shows "c \<le> off'" "off' \<le> off" "blocks_ok c u pre'"
    "pre' \<noteq> [] \<Longrightarrow> fst (last pre') + snd (last pre') + 4 \<le> off'"
    "sizes pre + r = sizes pre' + (off - off')" "set pre' \<subseteq> set pre"
proof -
  have "c \<le> off' \<and> off' \<le> off \<and> blocks_ok c u pre' \<and>
      (pre' \<noteq> [] \<longrightarrow> fst (last pre') + snd (last pre') + 4 \<le> off') \<and>
      sizes pre + r = sizes pre' + (off - off') \<and> set pre' \<subseteq> set pre"
  proof (cases pre rule: rev_cases)
    case Nil
    then show ?thesis using assms by (auto simp: join_before_def)
  next
    case (snoc xs x)
    obtain b sz where x: "x = (b, sz)" by (cases x) auto
    have b: "b + sz \<le> off" "c \<le> b"
      using assms(3,4,5) blocks_ok_bounds[OF assms(1), of b sz] snoc x
      by (auto simp: range_free_def)
    then show ?thesis using assms(1,2,6) snoc x
      by (auto simp: join_before_def blocks_ok_append split: if_splits)
  qed
  then show "c \<le> off'" "off' \<le> off" "blocks_ok c u pre'"
    "pre' \<noteq> [] \<Longrightarrow> fst (last pre') + snd (last pre') + 4 \<le> off'"
    "sizes pre + r = sizes pre' + (off - off')" "set pre' \<subseteq> set pre" by blast+
qed

lemma free_blocks_ok:
  assumes "blocks_ok c u bs" "c \<le> off" "off + 4 \<le> e" "e \<le> u" "range_free off e bs"
    "free_blocks c bs off e = (c', bs', r)"
  shows "blocks_ok c' u bs'" "c \<le> c'" "c' \<le> u"
    "(c' - c) + sizes bs' = sizes bs + (e - off) + r"
proof -
  let ?pre = "before off bs" and ?post = "behind off bs"
  have bs: "blocks_ok c u ?pre" "range_free off e ?pre" "range_free off e ?post"
    "blocks_ok (if ?pre = [] then c else fst (last ?pre) + snd (last ?pre) + 4) u ?post"
    using assms(1,5) blocks_ok_append[of c u ?pre ?post] range_free_append[of off e ?pre ?post]
    unfolding before_behind by simp_all
  obtain e' r1 post where jb: "join_behind e ?post = (e', r1, post)" by (cases "join_behind e ?post") auto
  obtain off' r2 pre where jf: "join_before off ?pre = (off', r2, pre)" by (cases "join_before off ?pre") auto
  note b = join_behind_ok[OF bs(4) assms(3,4) bs(3) behind_hd jb]
  note f = join_before_ok[OF bs(1) assms(2,3) bs(2) before_less jf]
  have sizes: "sizes bs = sizes ?pre + sizes ?post" by (metis before_behind sizes_simps(3))
  have fb: "(c', bs', r) = (if off' = c then (e', pre @ post, r1 + r2)
      else (c, pre @ (off', e' - off') # post, r1 + r2))"
    using assms(6) jb jf by (simp add: free_blocks_def)
  have "blocks_ok c' u bs' \<and> c \<le> c' \<and> c' \<le> u \<and> (c' - c) + sizes bs' = sizes bs + (e - off) + r"
  proof (cases "off' = c")
    case True
    have "pre = []"
    proof (rule ccontr)
      assume ne: "pre \<noteq> []"
      then have "(fst (last pre), snd (last pre)) \<in> set pre" by simp
      then have "c \<le> fst (last pre)" using blocks_ok_bounds[OF f(3)] by blast
      then show False using f(4)[OF ne] True by simp
    qed
    then show ?thesis
      using True fb b f assms(2-4) blocks_ok_mono[OF b(3), of e'] sizes by auto
  next
    case False
    then have "blocks_ok c u bs'"
      using fb b f assms(3) by (auto simp: blocks_ok_append)
    then show ?thesis using False fb b f assms(2-4) sizes by auto
  qed
  then show "blocks_ok c' u bs'" "c \<le> c'" "c' \<le> u" "(c' - c) + sizes bs' = sizes bs + (e - off) + r"
    by blast+
qed

section \<open>Freeing on pages\<close>

lemma free_range_scan_eq:
  assumes "seg (page_buf p) pc bs 0" "bs \<noteq> []" "blocks_ok lo u bs" "u \<le> length (page_buf p)"
    "case prev of Some q \<Rightarrow> q < pc | None \<Rightarrow> True"
  shows "free_range_scan p off prev pc =
     Inr (if before off bs = [] then prev else Some (fst (last (before off bs))),
          if behind off bs = [] then None else Some (fst (hd (behind off bs))))"
  using assms
proof (induction bs arbitrary: pc prev lo)
  case (Cons x bs)
  obtain b sz where x: "x = (b, sz)" by (cases x) auto
  let ?next = "u16_at (page_buf p) b"
  have b: "pc = b" "seg (page_buf p) ?next bs 0" "blocks_ok (b + sz + 4) u bs" "b + 4 \<le> length (page_buf p)"
    using Cons.prems x by auto
  have prev: "\<not> (case prev of Some q \<Rightarrow> pc \<le> q | None \<Rightarrow> False)"
    using Cons.prems(5) by (auto split: option.splits)
  show ?case
  proof (cases "b < off")
    case False
    then show ?thesis using prev b(1) x
      by (subst free_range_scan.simps) (simp add: before_def behind_def)
  next
    case True
    have step: "free_range_scan p off prev pc =
        (if ?next = 0 then Inr (Some b, None) else free_range_scan p off (Some b) ?next)"
      using prev b(1,4) True by (subst free_range_scan.simps) (simp add: read_u16_simps)
    show ?thesis
    proof (cases bs)
      case Nil
      then show ?thesis using step b(2) True x by (simp add: before_def behind_def)
    next
      case (Cons y ys)
      then obtain b' sz' where y: "y = (b', sz')" "?next = b'" "b' \<noteq> 0" "b < b'"
        using b(2,3) by (cases y) auto
      have "free_range_scan p off (Some b) ?next =
          Inr (if before off bs = [] then Some b else Some (fst (last (before off bs))),
               if behind off bs = [] then None else Some (fst (hd (behind off bs))))"
        using b y Cons Cons.prems(4) by (intro Cons.IH[OF b(2) _ b(3)]) auto
      then show ?thesis using step y True x by (simp add: before_def behind_def)
    qed
  qed
qed simp

definition start_of :: "(nat \<times> nat) list \<Rightarrow> nat option" where
  "start_of bs = (case bs of [] \<Rightarrow> None | (b, _) # _ \<Rightarrow> Some b)"

lemma start_of_simps [simp]: "start_of [] = None" "start_of ((b, sz) # bs) = Some b"
  by (simp_all add: start_of_def)

lemma start_of_if: "(if bs = [] then None else Some (fst (hd bs))) = start_of bs"
  by (cases bs) (auto simp: start_of_def)

lemma merge_next_eq:
  assumes "seg (page_buf p) m post 0" "blocks_ok lo u post" "u \<le> length (page_buf p)" "off + 4 \<le> e"
    "range_free off e post" "post \<noteq> [] \<longrightarrow> off \<le> fst (hd post)" "join_behind e post = (e', r, post')"
  shows "merge_next p u e (start_of post) = Inr (e', r, start_of post')"
proof (cases post)
  case Nil
  then show ?thesis using assms(7) by (simp add: merge_next_def join_behind_def)
next
  case (Cons x rest)
  obtain b sz where x: "x = (b, sz)" by (cases x) auto
  have b: "e \<le> b" "b + sz \<le> u" "b + 4 \<le> length (page_buf p)" "u16_at (page_buf p) (b + 2) = sz"
    "seg (page_buf p) (u16_at (page_buf p) b) rest 0"
    using assms Cons x by (auto simp: range_free_def)
  have "(if u16_at (page_buf p) b = 0 then None else Some (u16_at (page_buf p) b)) = start_of rest"
    using b(5) by (cases rest) auto
  then show ?thesis using assms(7) b Cons x
    by (auto simp: merge_next_def join_behind_def read_u16_simps split: if_splits)
qed

lemma merge_prev_eq:
  assumes "seg (page_buf p) fb pre m" "off + 4 \<le> e"
    "range_free off e pre" "\<forall>x\<in>set pre. fst x < off" "join_before off pre = (off', r, pre')"
  shows "merge_prev p off (if pre = [] then None else Some (fst (last pre))) = Inr (off', r)"
proof (cases pre rule: rev_cases)
  case Nil
  then show ?thesis using assms(5) by (simp add: merge_prev_def join_before_def)
next
  case (snoc xs x)
  obtain b sz where x: "x = (b, sz)" by (cases x) auto
  have b: "b + sz \<le> off" "u16_at (page_buf p) (b + 2) = sz" "b + 4 \<le> length (page_buf p)"
    using assms snoc x by (auto simp: range_free_def seg_snoc)
  then show ?thesis using assms(5) snoc x
    by (auto simp: merge_prev_def join_before_def read_u16_simps Let_def split: if_splits)
qed

text \<open>The three writes that link a new block, or a block that grew, into the list.\<close>

definition link_block :: "byte list \<Rightarrow> nat \<Rightarrow> nat \<Rightarrow> nat \<Rightarrow> nat \<Rightarrow> byte list" where
  "link_block b at off next sz =
     put (put (put b at (nat_to_be 2 off)) off (nat_to_be 2 next)) (off + 2) (nat_to_be 2 sz)"

lemma length_link_block [simp]:
  "at + 2 \<le> length b \<Longrightarrow> off + 4 \<le> length b \<Longrightarrow> length (link_block b at off next sz) = length b"
  by (simp add: link_block_def)

lemma seg_link_block:
  assumes "seg b pc bs q" "at + 2 \<le> length b" "off + 4 \<le> length b"
    "\<And>b' sz'. (b', sz') \<in> set bs \<Longrightarrow> (b' + 4 \<le> at \<or> at + 2 \<le> b') \<and> (b' + 4 \<le> off \<or> off + 4 \<le> b')"
  shows "seg (link_block b at off next sz) pc bs q"
  unfolding link_block_def
  by (intro seg_put_outside[OF seg_put_outside[OF seg_put_outside[OF assms(1)]]])
    (use assms(2,3,4) in fastforce)+

lemma u16_link_block_other:
  assumes "at + 2 \<le> length b" "off + 4 \<le> length b" "j + 2 \<le> length b"
    "j + 2 \<le> at \<or> at + 2 \<le> j" "j + 2 \<le> off \<or> off + 4 \<le> j"
  shows "u16_at (link_block b at off next sz) j = u16_at b j"
  unfolding link_block_def using assms by (subst u16_at_put_other, simp, force, simp)+ simp

lemma u16_link_block:
  assumes "at + 2 \<le> length b" "off + 4 \<le> length b" "next < 65536" "sz < 65536" "off < 65536"
  shows "u16_at (link_block b at off next sz) off = next"
    "u16_at (link_block b at off next sz) (off + 2) = sz"
    "at + 2 \<le> off \<or> off + 4 \<le> at \<Longrightarrow> u16_at (link_block b at off next sz) at = off"
proof -
  show "u16_at (link_block b at off next sz) off = next"
    "u16_at (link_block b at off next sz) (off + 2) = sz"
    unfolding link_block_def using assms by (simp_all add: u16_at_put_same u16_at_put_other)
  assume "at + 2 \<le> off \<or> off + 4 \<le> at"
  then show "u16_at (link_block b at off next sz) at = off"
    unfolding link_block_def using assms
    by (elim disjE) (simp_all add: u16_at_put_same u16_at_put_other)
qed

lemma link_block_seg:
  assumes P: "seg b (u16_at b (h + 1)) P m" "blocks_ok c u P" "\<forall>x\<in>set P. fst x < off" "range_free off e P"
    and post: "seg b m' post' 0" "blocks_ok (e' + 4) u post'" "e \<le> e'" "e' \<le> u"
    and bounds: "h + 8 \<le> c" "c \<le> off" "off + 4 \<le> e" "u \<le> length b" "u \<le> 65536"
    and jf: "join_before off P = (off', r, pre')"
    and b3: "b3 = link_block b (if P = [] then h + 1 else fst (last P)) off' m' (e' - off')"
  shows "seg b3 (u16_at b3 (h + 1)) (pre' @ (off', e' - off') # post') 0"
    "length b3 = length b"
    "\<And>j. j \<noteq> h + 1 \<Longrightarrow> j \<noteq> h + 2 \<Longrightarrow> j < c \<Longrightarrow> b3 ! j = b ! j"
proof -
  note f = join_before_ok[OF P(2) bounds(2,3) P(4) P(3) jf]
  let ?at = "if P = [] then h + 1 else fst (last P)"
  have inP: "(x, s) \<in> set P \<Longrightarrow> c \<le> x \<and> 4 \<le> s \<and> x + s \<le> u \<and> x < off" for x s
    using blocks_ok_bounds[OF P(2)] P(3) by fastforce
  have at: "?at + 2 \<le> length b" "?at < off" "P \<noteq> [] \<Longrightarrow> c \<le> ?at"
    using bounds post(3,4) inP[of "fst (last P)" "snd (last P)"] by auto
  have off': "off' + 4 \<le> e'" "off' + 4 \<le> length b" "off' < 65536" "e' - off' < 65536" "off' \<noteq> 0"
    using f(1,2) bounds post(3,4) by linarith+
  have inpost: "(x, s) \<in> set post' \<Longrightarrow> e' + 4 \<le> x" for x s
    using blocks_ok_bounds[OF post(2)] by blast
  have m': "m' < 65536" using post(1) u16_at_bound[of b] inpost off' blocks_ok_bounds[OF post(2)] bounds(5)
    by (cases post') fastforce+
  note wr = u16_link_block[OF at(1) off'(2) m' off'(4) off'(3), folded b3]
  have post3: "seg b3 m' post' 0"
    unfolding b3 using at off' f(2) bounds post(3) inpost
    by (intro seg_link_block[OF post(1)]) fastforce+
  show len: "length b3 = length b" using at off' by (simp add: b3)
  have blk: "seg b3 off' ((off', e' - off') # post') 0"
    using post3 wr(1,2) off' len by simp
  have pre: "seg b3 (u16_at b3 (h + 1)) pre' off'"
  proof (cases P rule: rev_cases)
    case Nil
    then have "off' = off" "pre' = []" using jf by (auto simp: join_before_def)
    then show ?thesis using wr(3) Nil bounds by simp
  next
    case (snoc xs x)
    obtain q s where x: "x = (q, s)" by (cases x) auto
    have q: "?at = q" "c \<le> q" "q + s \<le> off" "4 \<le> s"
      using snoc x inP[of q s] P(4) bounds(3) by (auto simp: range_free_def)
    have xs: "seg b (u16_at b (h + 1)) xs q" "u16_at b (q + 2) = s" "q + 4 \<le> length b" "q \<noteq> 0"
      using P(1) snoc x by (auto simp: seg_snoc)
    have before: "y + 4 \<le> q" if "(y, t) \<in> set xs" for y t
      using that P(2) blocks_ok_gap[of c u xs q s "[]" y t] by (simp add: snoc x)
    have fb: "u16_at b3 (h + 1) = u16_at b (h + 1)"
      unfolding b3 using at off' f(1) bounds q by (intro u16_link_block_other) auto
    have off'q: "q \<le> off'" using jf snoc x q bounds by (auto simp: join_before_def split: if_splits)
    have xs3: "seg b3 (u16_at b (h + 1)) xs q"
      unfolding b3 using xs(1) at off' before off'q q(1)
      by (intro seg_link_block) fastforce+
    show ?thesis
    proof (cases "off \<le> q + s + 3")
      case True
      then have "off' = q" "pre' = xs" using jf snoc x by (auto simp: join_before_def)
      then show ?thesis using xs3 fb by simp
    next
      case False
      then have o: "off' = off" "pre' = P" using jf snoc x by (auto simp: join_before_def)
      have "u16_at b3 (q + 2) = s"
        unfolding b3 using xs(2) at off' False o q by (subst u16_link_block_other) auto
      moreover have "u16_at b3 q = off'" using wr(3) q o False by simp
      ultimately show ?thesis using xs3 fb o snoc x xs len by (simp add: seg_snoc)
    qed
  qed
  show "seg b3 (u16_at b3 (h + 1)) (pre' @ (off', e' - off') # post') 0"
    using pre blk by (auto simp: seg_append)
  show "b3 ! j = b ! j" if "j \<noteq> h + 1" "j \<noteq> h + 2" "j < c" for j
    using that at off' f(1) bounds
    by (auto simp: b3 link_block_def nth_put)
qed

lemma write_simps:
  "write_first_freeblock p v = write_bytes p (page_offset p + 1) (nat_to_be 2 v)"
  "write_cell_content_area p v = write_bytes p (page_offset p + 5) (nat_to_be 2 v)"
  "write_fragmented_bytes_count p v = write_bytes p (page_offset p + 7) [of_nat v]"
  "write_cell_count p v = write_bytes p (page_offset p + 3) (nat_to_be 2 v)"
  "write_freeblock_next_ptr p off v = write_bytes p off (nat_to_be 2 v)"
  "write_freeblock_size p off v = write_bytes p (off + 2) (nat_to_be 2 v)"
  "write_u16_no_offset p off v = write_bytes p off (nat_to_be 2 v)"
  by (simp_all add: write_first_freeblock_def write_cell_content_area_def write_u16_def
      write_fragmented_bytes_count_def write_u8_def write_cell_count_def write_freeblock_next_ptr_def
      write_freeblock_size_def write_u16_no_offset_def)

lemma page_offset_buf [simp]: "page_offset (p\<lparr>page_buf := b\<rparr>) = page_offset p"
  by (simp add: page_offset_def)

lemma write_bytes_ok:
  "pos + length bs \<le> length (page_buf p) \<Longrightarrow>
     write_bytes p pos bs = Inr (p\<lparr>page_buf := put (page_buf p) pos bs\<rparr>)"
  by simp

lemma to_u16_ok: "n < 65536 \<Longrightarrow> to_u16 n = Inr n"
  by (simp add: to_u16_def)

text \<open>Two buffers that agree outside a set of positions.\<close>

definition same_outside :: "nat set \<Rightarrow> byte list \<Rightarrow> byte list \<Rightarrow> bool" where
  "same_outside A b b' \<longleftrightarrow> length b' = length b \<and> (\<forall>j<length b. j \<notin> A \<longrightarrow> b' ! j = b ! j)"

lemma same_outside_refl [simp]: "same_outside A b b"
  by (simp add: same_outside_def)

lemma same_outside_put:
  assumes "same_outside A b b'" "i + length ys \<le> length b" "{i..<i + length ys} \<subseteq> A"
  shows "same_outside A b (put b' i ys)"
  using assms by (fastforce simp: same_outside_def nth_put)

definition block_bytes :: "(nat \<times> nat) list \<Rightarrow> nat set" where
  "block_bytes bs = (\<Union>(b, sz)\<in>set bs. {b..<b + sz})"

lemma free_range_store_absorb:
  assumes len: "page_offset p + 8 \<le> c" "e' \<le> u" "u \<le> length (page_buf p)" "u \<le> 65536" "c \<le> e'"
    and guard: "prev_block = None \<or> prev_block = Some first_block"
    and post: "seg (page_buf p) m' post' 0" "blocks_ok (e' + 4) u post'"
  shows "free_range_store p first_block c c e' prev_block (start_of post') =
     Inr (p\<lparr>page_buf := put (put (page_buf p) (page_offset p + 1) (nat_to_be 2 m'))
                          (page_offset p + 5) (nat_to_be 2 e')\<rparr>)"
proof (cases post')
  case Nil
  then show ?thesis using assms
    by (auto simp: free_range_store_def write_simps write_bytes_ok)
next
  case (Cons x rest)
  obtain b sz where x: "x = (b, sz)" by (cases x) auto
  then have "m' = b" "e' + 4 \<le> b" "b + sz \<le> u" "4 \<le> sz" using post Cons by auto
  then show ?thesis using assms Cons x
    by (auto simp: free_range_store_def write_simps write_bytes_ok to_u16_ok)
qed

lemma free_range_store_link:
  assumes len: "c < off'" "off' + 4 \<le> e'" "e' \<le> u" "u \<le> length (page_buf p)" "u \<le> 65536"
    "at + 2 \<le> length (page_buf p)"
    and at: "at = (case prev_block of None \<Rightarrow> page_offset p + 1 | Some q \<Rightarrow> q)"
    and post: "seg (page_buf p) m' post' 0" "blocks_ok (e' + 4) u post'"
  shows "free_range_store p first_block c off' e' prev_block (start_of post') =
     Inr (p\<lparr>page_buf := link_block (page_buf p) at off' m' (e' - off')\<rparr>)"
proof -
  have next_: "(case start_of post' of Some b \<Rightarrow> and_then (to_u16 b) (\<lambda>b. Inr (Some b)) | None \<Rightarrow> Inr None) =
      Inr (start_of post')" "(case start_of post' of Some b \<Rightarrow> b | None \<Rightarrow> 0) = m'"
  proof -
    have "b < 65536" if "post' = (b, sz) # rest" for b sz rest
      using post(2) that len by auto
    then show "(case start_of post' of Some b \<Rightarrow> and_then (to_u16 b) (\<lambda>b. Inr (Some b)) | None \<Rightarrow> Inr None) =
      Inr (start_of post')" by (cases post') (auto simp: to_u16_ok)
    show "(case start_of post' of Some b \<Rightarrow> b | None \<Rightarrow> 0) = m'"
      using post(1) by (cases post') auto
  qed
  have w: "(case prev_block of Some q \<Rightarrow> write_u16_no_offset p q off' | None \<Rightarrow> write_first_freeblock p off') =
      Inr (p\<lparr>page_buf := put (page_buf p) at (nat_to_be 2 off')\<rparr>)"
    using len at by (auto simp: write_simps write_bytes_ok split: option.splits)
  have "off' < 65536" "e' - off' < 65536" using len by linarith+
  then show ?thesis using len
    by (simp add: free_range_store_def w to_u16_ok next_ write_freeblock_def write_simps
        write_bytes_ok link_block_def)
qed

lemma free_rep_absorb:
  assumes rep: "free_rep p u fc c bs g" "g' \<le> g" "c \<le> e'" "e' \<le> u"
    and post: "seg (page_buf p) m' post' 0" "blocks_ok (e' + 4) u post'"
    and b3: "b3 = put (put (put (page_buf p) (page_offset p + 7) [of_nat g'])
                (page_offset p + 1) (nat_to_be 2 m')) (page_offset p + 5) (nat_to_be 2 e')"
  shows "free_rep (p\<lparr>page_buf := b3\<rparr>) u fc e' post' g'"
    "same_outside {page_offset p + 1, page_offset p + 2, page_offset p + 5, page_offset p + 6,
       page_offset p + 7} (page_buf p) b3"
proof -
  let ?b = "page_buf p" and ?o = "page_offset p"
  note len = free_rep_len[OF rep(1)]
  have r: "u \<le> length ?b" "u \<le> 65536" "?o + 8 \<le> fc" "fc \<le> c" "c \<le> u"
    "fc = ?o + header_size_of (?b ! ?o) + 2 * u16_at ?b (?o + 3)" "g = unat (?b ! (?o + 7))"
    using rep(1) unfolding free_rep_buf[OF len] by blast+
  have l3: "length b3 = length ?b" using len by (simp add: b3)
  have m': "m' < 65536"
    using post r(2) by (cases post') auto
  have "g' < 256" using rep(2) r(7) unat_byte_bound[of "?b ! (?o + 7)"] by linarith
  then have g': "unat (b3 ! (?o + 7)) = g'" using len by (simp add: b3 nth_put)
  have f: "b3 ! ?o = ?b ! ?o" "u16_at b3 (?o + 3) = u16_at ?b (?o + 3)" "u16_at b3 (?o + 1) = m'"
    "u16_at b3 (?o + 5) = e' mod 65536"
    using len m' by (simp_all add: b3 nth_put u16_at_put_other u16_at_put_same)
  have "seg b3 m' post' 0"
  proof -
    have "e' + 4 \<le> x" if "(x, sz) \<in> set post'" for x sz
      using blocks_ok_bounds[OF post(2) that] by simp
    then show ?thesis unfolding b3 using len rep(3) r(3,4)
      by (intro seg_put_outside[OF seg_put_outside[OF seg_put_outside[OF post(1)]]]) fastforce+
  qed
  moreover have "content_area_value (e' mod 65536) = e'"
    using rep(3,4) r by (intro content_area_value_mod) linarith+
  ultimately show "free_rep (p\<lparr>page_buf := b3\<rparr>) u fc e' post' g'"
    using r rep(3,4) l3 len f g' blocks_ok_mono[OF post(2), of e']
    by (subst free_rep_buf) simp_all
  show "same_outside {?o + 1, ?o + 2, ?o + 5, ?o + 6, ?o + 7} ?b b3"
    unfolding b3 using len
    by (intro same_outside_put) (auto simp: atLeastLessThan_nat_numeral)
qed

lemma free_rep_link:
  assumes rep: "free_rep p u fc c bs g" "g' \<le> g"
    and P: "seg (page_buf p) (u16_at (page_buf p) (page_offset p + 1)) P m" "blocks_ok c u P"
      "\<forall>x\<in>set P. fst x < off" "range_free off e P"
    and post: "seg (page_buf p) m' post' 0" "blocks_ok (e' + 4) u post'" "e \<le> e'" "e' \<le> u"
    and bounds: "c \<le> off" "off + 4 \<le> e"
    and jf: "join_before off P = (off', r, pre')"
    and b3: "b3 = link_block (put (page_buf p) (page_offset p + 7) [of_nat g'])
               (if P = [] then page_offset p + 1 else fst (last P)) off' m' (e' - off')"
  shows "free_rep (p\<lparr>page_buf := b3\<rparr>) u fc c (pre' @ (off', e' - off') # post') g'"
    "same_outside ({page_offset p + 1, page_offset p + 2, page_offset p + 7} \<union> block_bytes P \<union> {off..<e})
       (page_buf p) b3"
proof -
  let ?b = "page_buf p" and ?o = "page_offset p"
  let ?b1 = "put ?b (?o + 7) [of_nat g']"
  note len = free_rep_len[OF rep(1)]
  have r: "u \<le> length ?b" "u \<le> 65536" "?o + 8 \<le> fc" "fc \<le> c" "c \<le> u"
    "fc = ?o + header_size_of (?b ! ?o) + 2 * u16_at ?b (?o + 3)"
    "c = content_area_value (u16_at ?b (?o + 5))" "g = unat (?b ! (?o + 7))"
    using rep(1) unfolding free_rep_buf[OF len] by blast+
  have l1: "length ?b1 = length ?b" using len by simp
  have u1: "u16_at ?b1 (?o + 1) = u16_at ?b (?o + 1)" "u16_at ?b1 (?o + 3) = u16_at ?b (?o + 3)"
    "u16_at ?b1 (?o + 5) = u16_at ?b (?o + 5)" "?b1 ! ?o = ?b ! ?o"
    using len by (simp_all add: u16_at_put_other nth_put)
  have inP: "?o + 8 \<le> x" if "(x, sz) \<in> set P" for x sz
    using blocks_ok_bounds[OF P(2) that] r by linarith
  have inpost: "?o + 8 \<le> x" if "(x, sz) \<in> set post'" for x sz
    using blocks_ok_bounds[OF post(2) that] bounds post(3) r by linarith
  have P1: "seg ?b1 (u16_at ?b1 (?o + 1)) P m"
    unfolding u1 using len inP by (intro seg_put_outside[OF P(1)]) fastforce+
  have post1: "seg ?b1 m' post' 0"
    using len inpost by (intro seg_put_outside[OF post(1)]) fastforce+
  have oc: "?o + 8 \<le> c" using r by simp
  note L = link_block_seg[OF P1 P(2,3,4) post1 post(2,3,4) oc bounds(1,2) _ r(2) jf b3, unfolded l1, OF r(1)]
  have g1: "g' < 256" using rep(2) r(8) unat_byte_bound[of "?b ! (?o + 7)"] by linarith
  then have g': "unat (?b1 ! (?o + 7)) = g'" using len by (simp add: nth_put)
  have f: "b3 ! ?o = ?b ! ?o" "unat (b3 ! (?o + 7)) = g'" using L(3) oc u1(4) g' by simp_all
  have f2: "u16_at b3 (?o + 3) = u16_at ?b (?o + 3)" "u16_at b3 (?o + 5) = u16_at ?b (?o + 5)"
    unfolding u1(2,3)[symmetric] using L(2,3) len l1 oc by (intro u16_at_nth_cong; simp)+
  have "blocks_ok c u (pre' @ (off', e' - off') # post')"
  proof -
    note j = join_before_ok[OF P(2) bounds P(4) P(3) jf]
    show ?thesis using j post bounds by (auto simp: blocks_ok_append)
  qed
  then show "free_rep (p\<lparr>page_buf := b3\<rparr>) u fc c (pre' @ (off', e' - off') # post') g'"
    using L(1,2) r f f2 len l1 by (subst free_rep_buf) simp_all
  show "same_outside ({?o + 1, ?o + 2, ?o + 7} \<union> block_bytes P \<union> {off..<e}) ?b b3"
  proof -
    let ?A = "{?o + 1, ?o + 2, ?o + 7} \<union> block_bytes P \<union> {off..<e}"
    let ?at = "if P = [] then ?o + 1 else fst (last P)"
    have inblk: "{x..<x + k} \<subseteq> ?A" "x + 4 \<le> length ?b" if "(x, sz) \<in> set P" "k \<le> 4" for x sz k
      using that blocks_ok_bounds[OF P(2) that(1)] r(1) by (fastforce simp: block_bytes_def)+
    have lastP: "(fst (last P), snd (last P)) \<in> set P" if "P \<noteq> []" using that by simp
    have at: "{?at..<?at + 2} \<subseteq> ?A" "?at + 2 \<le> length ?b"
      using inblk[OF lastP, of 2] len by (cases "P = []"; auto)+
    have off': "{off'..<off' + 4} \<subseteq> ?A \<and> off' + 4 \<le> length ?b"
    proof (cases "off' = off")
      case True
      have "{off..<off + 4} \<subseteq> {off..<e}" using bounds by simp
      then show ?thesis using True bounds post(3,4) r(1) by auto
    next
      case False
      then have "P \<noteq> []" "off' = fst (last P)" using jf by (auto simp: join_before_def Let_def split: prod.splits if_splits)
      then show ?thesis using inblk[OF lastP, of 4] by simp
    qed
    define A where "A = ?A"
    have atA: "{?at..<?at + 2} \<subseteq> A" and offA: "{off'..<off' + 4} \<subseteq> A" "off' + 4 \<le> length ?b"
      using at off' by (simp_all only: A_def)
    have s1: "same_outside A ?b ?b1" using len by (intro same_outside_put) (auto simp: A_def)
    have s2: "same_outside A ?b (put ?b1 ?at (nat_to_be 2 off'))"
      using atA at(2) by (intro same_outside_put[OF s1]) simp_all
    have s3: "same_outside A ?b (put (put ?b1 ?at (nat_to_be 2 off')) off' (nat_to_be 2 m'))"
      using offA by (intro same_outside_put[OF s2] order_trans[OF _ offA(1)]) auto
    have "same_outside A ?b b3" unfolding b3 link_block_def
      using offA by (intro same_outside_put[OF s3] order_trans[OF _ offA(1)]) auto
    then show ?thesis by (simp only: A_def)
  qed
qed

lemma seg_join_behind:
  assumes "seg b m post 0" "join_behind e post = (e', r, post')"
  shows "\<exists>m'. seg b m' post' 0"
  using assms by (cases post) (auto simp: join_behind_def split: if_splits)

lemma put_same: "i < length b \<Longrightarrow> put b i [b ! i] = b"
  by (rule nth_equalityI) (auto simp: nth_put less_Suc_eq)

lemma put_slice_same: "i + n \<le> length b \<Longrightarrow> put b i (slice b i n) = b"
  by (rule nth_equalityI) (auto simp: nth_put slice_def)

lemma put_u16_same: "i + 2 \<le> length b \<Longrightarrow> put b i (nat_to_be 2 (u16_at b i)) = b"
  using put_slice_same[of i 2 b] nat_to_be_be_to_nat[of "slice b i 2"] by (simp add: u16_at_def)

lemma frag_put_same:
  assumes "free_rep p u fc c bs g"
  shows "put (page_buf p) (page_offset p + 7) [of_nat g] = page_buf p"
proof -
  note len = free_rep_len[OF assms]
  have "g = unat (page_buf p ! (page_offset p + 7))"
    using assms unfolding free_rep_buf[OF len] by blast
  then show ?thesis using len by (simp add: put_same)
qed

text \<open>The header bytes that describe the free space: first freeblock, content area, fragments.\<close>

definition free_fields :: "page \<Rightarrow> nat set" where
  "free_fields p = {page_offset p + 1, page_offset p + 2, page_offset p + 5, page_offset p + 6, page_offset p + 7}"

lemma same_outside_mono: "same_outside A b b' \<Longrightarrow> A \<subseteq> B \<Longrightarrow> same_outside B b b'"
  by (auto simp: same_outside_def)

lemma block_bytes_append [simp]: "block_bytes (xs @ ys) = block_bytes xs \<union> block_bytes ys"
  by (auto simp: block_bytes_def)

lemma join_before_touch:
  assumes "blocks_ok c u P" "\<forall>x\<in>set P. fst x < off" "join_before off P = (c, r, pre')"
  shows "P = [] \<and> off = c \<and> pre' = [] \<or> (\<exists>sz. P = [(c, sz)] \<and> pre' = [])"
proof (cases P rule: rev_cases)
  case Nil
  then show ?thesis using assms by (auto simp: join_before_def)
next
  case (snoc xs x)
  obtain b sz where x: "x = (b, sz)" by (cases x) auto
  have "b = c"
    using assms snoc x blocks_ok_bounds[OF assms(1), of b sz]
    by (auto simp: join_before_def split: if_splits)
  moreover have "xs = []"
  proof (rule ccontr)
    assume "xs \<noteq> []"
    then obtain y ys where "xs = y # ys" by (cases xs) auto
    then show False using assms(1) snoc x \<open>b = c\<close> blocks_ok_bounds[of _ u "ys @ [x]" b sz] by (cases y) fastforce
  qed
  ultimately show ?thesis using assms snoc x by (auto simp: join_before_def split: if_splits)
qed

lemma free_cell_range_empty:
  assumes rep: "free_rep p u fc c [] g" and off: "c \<le> off" "4 \<le> len" "off + len \<le> u"
    and fb: "free_blocks c [] off (off + len) = (c', bs', r)"
  shows "\<exists>b3. free_cell_range p off len u = Inr (p\<lparr>page_buf := b3\<rparr>) \<and>
     free_rep (p\<lparr>page_buf := b3\<rparr>) u fc c' bs' (g - r) \<and>
     same_outside (free_fields p \<union> {off..<off + len}) (page_buf p) b3"
proof -
  let ?b = "page_buf p" and ?o = "page_offset p" and ?e = "off + len"
  note len = free_rep_len[OF rep]
  have r: "u \<le> length ?b" "u \<le> 65536" "?o + 8 \<le> fc" "fc \<le> c" "u16_at ?b (?o + 1) = 0"
    using rep by (auto simp: free_rep_def)
  have fbe: "(c', bs', r) = (if off = c then (?e, [], 0) else (c, [(off, len)], 0))"
    using fb by (auto simp: free_blocks_def before_def behind_def join_before_def join_behind_def split: if_splits)
  have pre: "free_cell_range p off len u =
     (if off = c then write_cell_content_area p ?e
      else and_then (to_u16 off) (\<lambda>off_u16.
                and_then (write_first_freeblock p off_u16) (\<lambda>p.
                and_then (to_u16 len) (\<lambda>size_u16.
                write_freeblock p off_u16 size_u16 None))))"
    using off rep first_freeblock_rep[OF rep] by (auto simp: free_cell_range_def free_rep_def)
  show ?thesis
  proof (cases "off = c")
    case True
    let ?b3 = "put (put (put ?b (?o + 7) [of_nat g]) (?o + 1) (nat_to_be 2 0)) (?o + 5) (nat_to_be 2 ?e)"
    have b3: "?b3 = put ?b (?o + 5) (nat_to_be 2 ?e)"
      using frag_put_same[OF rep] put_u16_same[of "?o + 1" ?b] r(5) len by simp
    have run: "free_cell_range p off len u = Inr (p\<lparr>page_buf := ?b3\<rparr>)"
      unfolding pre b3 using True len by (simp add: write_simps write_bytes_ok)
    have "free_rep (p\<lparr>page_buf := ?b3\<rparr>) u fc ?e [] g" "same_outside (free_fields p) ?b ?b3"
      using off unfolding free_fields_def
      by (intro free_rep_absorb[OF rep, where m' = 0 and e' = ?e and post' = "[]"]; simp)+
    then show ?thesis using run fbe True
      by (intro exI[of _ ?b3]) (auto elim: same_outside_mono)
  next
    case False
    let ?b3 = "link_block (put ?b (?o + 7) [of_nat g]) (?o + 1) off 0 (?e - off)"
    have b3: "?b3 = link_block ?b (?o + 1) off 0 len" using frag_put_same[OF rep] by simp
    have run: "free_cell_range p off len u = Inr (p\<lparr>page_buf := ?b3\<rparr>)"
      unfolding pre b3 using False off r len
      by (simp add: to_u16_ok write_simps write_bytes_ok link_block_def write_freeblock_def)
    have jf: "join_before off [] = (off, 0, [])" by (simp add: join_before_def)
    have "free_rep (p\<lparr>page_buf := ?b3\<rparr>) u fc c ([] @ (off, ?e - off) # []) g"
      "same_outside ({?o + 1, ?o + 2, ?o + 7} \<union> block_bytes [] \<union> {off..<?e}) ?b ?b3"
      using r off
      by (intro free_rep_link[OF rep _ _ _ _ _ _ _ _ _ _ _ jf, where e = ?e and e' = ?e and m = 0 and m' = 0 and post' = "[]"]; simp add: range_free_def)+
    then show ?thesis using run fbe False
      by (intro exI[of _ ?b3]) (auto simp: free_fields_def block_bytes_def elim: same_outside_mono)
  qed
qed

lemma seg_write_header:
  assumes "seg b m bs 0" "blocks_ok lo u bs" "h + length ys \<le> lo" "h + length ys \<le> length b"
  shows "seg (put b h ys) m bs 0"
proof (rule seg_put_outside[OF assms(1,4)])
  fix x sz assume "(x, sz) \<in> set bs"
  then show "x + 4 \<le> h \<or> h + length ys \<le> x" using blocks_ok_bounds[OF assms(2)] assms(3) by fastforce
qed

text \<open>The block list cut at the freed range, and the two merges.\<close>

lemma free_blocks_split:
  assumes rep: "free_rep p u fc c bs g" and off: "c \<le> off" "off + 4 \<le> e" "e \<le> u"
    and free: "range_free off e bs" and fb: "free_blocks c bs off e = (c', bs', r)"
  obtains P Q m m' e' r1 post off' r2 pre where
    "bs = P @ Q" "P = before off bs" "Q = behind off bs"
    "seg (page_buf p) (u16_at (page_buf p) (page_offset p + 1)) P m" "seg (page_buf p) m Q 0"
    "blocks_ok c u P" "range_free off e P" "range_free off e Q" "blocks_ok c u Q"
    "join_behind e Q = (e', r1, post)" "join_before off P = (off', r2, pre)"
    "e \<le> e'" "e' \<le> u" "blocks_ok (e' + 4) u post" "c \<le> off'" "off' \<le> off"
    "seg (page_buf p) m' post 0" "r = r1 + r2"
    "(c', bs') = (if off' = c then (e', pre @ post) else (c, pre @ (off', e' - off') # post))"
proof -
  let ?b = "page_buf p" and ?P = "before off bs" and ?Q = "behind off bs"
  have u: "blocks_ok c u bs" "seg ?b (u16_at ?b (page_offset p + 1)) bs 0"
    using rep by (auto simp: free_rep_def)
  obtain m where seg: "seg ?b (u16_at ?b (page_offset p + 1)) ?P m" "seg ?b m ?Q 0"
    using u(2) seg_append[of ?b _ ?P ?Q] unfolding before_behind by blast
  have ok: "blocks_ok c u ?P" "range_free off e ?P" "range_free off e ?Q"
    "blocks_ok (if ?P = [] then c else fst (last ?P) + snd (last ?P) + 4) u ?Q"
    using u(1) free blocks_ok_append[of c u ?P ?Q] range_free_append[of off e ?P ?Q]
    unfolding before_behind by simp_all
  have "c \<le> (if ?P = [] then c else fst (last ?P) + snd (last ?P) + 4)"
    using blocks_ok_bounds[OF ok(1), of "fst (last ?P)" "snd (last ?P)"] by auto
  note okQ = blocks_ok_mono[OF ok(4) this]
  obtain e' r1 post where jb: "join_behind e ?Q = (e', r1, post)" by (cases "join_behind e ?Q") auto
  obtain off' r2 pre where jf: "join_before off ?P = (off', r2, pre)" by (cases "join_before off ?P") auto
  note b = join_behind_ok[OF ok(4) off(2,3) ok(3) behind_hd jb]
  note f = join_before_ok[OF ok(1) off(1,2) ok(2) before_less jf]
  obtain m' where "seg ?b m' post 0" using seg_join_behind[OF seg(2) jb] by blast
  moreover have "r = r1 + r2 \<and>
      (c', bs') = (if off' = c then (e', pre @ post) else (c, pre @ (off', e' - off') # post))"
    using fb jb jf by (simp add: free_blocks_def split: if_splits)
  ultimately show ?thesis
    using that[OF before_behind[symmetric] refl refl seg ok(1-3) okQ jb jf b(1-3) f(1,2)] by blast
qed

lemma free_cell_range_nonempty:
  assumes rep: "free_rep p u fc c bs g" "bs \<noteq> []" and off: "c \<le> off" "4 \<le> len" "off + len \<le> u"
    and free: "range_free off (off + len) bs"
    and fb: "free_blocks c bs off (off + len) = (c', bs', r)" and r: "r \<le> g"
  shows "\<exists>b3. free_cell_range p off len u = Inr (p\<lparr>page_buf := b3\<rparr>) \<and>
     free_rep (p\<lparr>page_buf := b3\<rparr>) u fc c' bs' (g - r) \<and>
     same_outside (free_fields p \<union> block_bytes bs \<union> {off..<off + len}) (page_buf p) b3"
proof -
  let ?b = "page_buf p" and ?o = "page_offset p" and ?e = "off + len"
  note len = free_rep_len[OF rep(1)]
  have e4: "off + 4 \<le> ?e" "\<not> u - 4 < off" using off by linarith+
  have u: "u \<le> length ?b" "u \<le> 65536" "?o + 8 \<le> fc" "fc \<le> c" "cell_content_area p = Inr c"
    "num_frag_free_bytes p = Inr g" "blocks_ok c u bs" "seg ?b (u16_at ?b (?o + 1)) bs 0"
    using rep(1) by (auto simp: free_rep_def)
  have fst_bs: "first_freeblock p = Inr (fst (hd bs))" "u16_at ?b (?o + 1) = fst (hd bs)" "fst (hd bs) \<noteq> 0"
    using first_freeblock_rep[OF rep(1)] rep(2) u(8) by (cases bs; auto)+
  obtain P Q m m' e' r1 post off' r2 pre where PQ: "bs = P @ Q" "P = before off bs" "Q = behind off bs"
    and seg: "seg ?b (u16_at ?b (?o + 1)) P m" "seg ?b m Q 0"
    and ok: "blocks_ok c u P" "range_free off ?e P" "range_free off ?e Q" "blocks_ok c u Q"
    and jb: "join_behind ?e Q = (e', r1, post)" and jf: "join_before off P = (off', r2, pre)"
    and b: "?e \<le> e'" "e' \<le> u" "blocks_ok (e' + 4) u post" and f: "c \<le> off'" "off' \<le> off"
    and m': "seg ?b m' post 0" and r12: "r = r1 + r2"
    and fbe: "(c', bs') = (if off' = c then (e', pre @ post) else (c, pre @ (off', e' - off') # post))"
    by (rule free_blocks_split[OF rep(1) off(1) e4(1) off(3) free fb])
  have less: "\<forall>x\<in>set P. fst x < off" and hd: "Q \<noteq> [] \<longrightarrow> off \<le> fst (hd Q)"
    unfolding PQ(2,3) by (rule before_less behind_hd)+
  let ?prev = "if P = [] then None else Some (fst (last P))"
  have scan: "free_range_scan p off None (fst (hd bs)) = Inr (?prev, start_of Q)"
    using free_range_scan_eq[OF u(8) rep(2) u(7,1), of None off] fst_bs(2)
    unfolding PQ(2,3)[symmetric] start_of_if by simp
  have nxt: "\<not> (case start_of Q of Some next \<Rightarrow> next + 4 > u | None \<Rightarrow> False)"
    using ok(4) by (cases Q) auto
  let ?p1 = "p\<lparr>page_buf := put ?b (?o + 7) [of_nat (g - r)]\<rparr>"
  have run: "free_cell_range p off len u = free_range_store ?p1 (fst (hd bs)) c off' e' ?prev (start_of post)"
    using off e4(2) u fst_bs scan nxt r r12 len
      merge_next_eq[OF seg(2) ok(4) u(1) e4(1) ok(3) hd jb] merge_prev_eq[OF seg(1) e4(1) ok(2) less jf]
    by (simp add: free_cell_range_def write_simps write_bytes_ok)
  have m1: "seg (page_buf ?p1) m' post 0"
    using seg_write_header[OF m' b(3), of "?o + 7" "[of_nat (g - r)]"] b(1) off u len by simp
  show ?thesis
  proof (cases "off' = c")
    case True
    let ?b3 = "put (put (put ?b (?o + 7) [of_nat (g - r)]) (?o + 1) (nat_to_be 2 m')) (?o + 5) (nat_to_be 2 e')"
    have e': "c \<le> e'" using b(1) off by linarith
    have P: "P = [] \<and> pre = [] \<or> (\<exists>sz. P = [(c, sz)] \<and> pre = [])"
      using join_before_touch[OF ok(1) less] jf True by blast
    then have guard: "?prev = None \<or> ?prev = Some (fst (hd bs))" using PQ(1) by auto
    have store: "free_cell_range p off len u = Inr (p\<lparr>page_buf := ?b3\<rparr>)"
      unfolding run True
      using free_range_store_absorb[of ?p1 c e' u, OF _ b(2) _ u(2) e' guard m1 b(3)] u len by simp
    have "free_rep (p\<lparr>page_buf := ?b3\<rparr>) u fc e' post (g - r)" "same_outside (free_fields p) ?b ?b3"
      unfolding free_fields_def using free_rep_absorb[OF rep(1) _ e' b(2) m' b(3), of "g - r" ?b3] by simp_all
    then show ?thesis using store fbe True P
      by (intro exI[of _ ?b3]) (auto elim: same_outside_mono)
  next
    case False
    let ?at = "if P = [] then ?o + 1 else fst (last P)"
    let ?b3 = "link_block (put ?b (?o + 7) [of_nat (g - r)]) ?at off' m' (e' - off')"
    have "?at + 2 \<le> length ?b"
      using len u(1) blocks_ok_bounds[OF ok(1), of "fst (last P)" "snd (last P)"] by auto
    then have store: "free_cell_range p off len u = Inr (p\<lparr>page_buf := ?b3\<rparr>)"
      unfolding run
      using free_range_store_link[of c off' e' u ?p1 ?at ?prev, OF _ _ b(2) _ u(2) _ _ m1 b(3)] False f e4 b(1) u len
      by simp
    have "free_rep (p\<lparr>page_buf := ?b3\<rparr>) u fc c (pre @ (off', e' - off') # post) (g - r)"
      "same_outside ({?o + 1, ?o + 2, ?o + 7} \<union> block_bytes P \<union> {off..<?e}) ?b ?b3"
      using free_rep_link[OF rep(1) _ seg(1) ok(1) less ok(2) m' b(3,1,2) off(1) e4(1) jf, of "g - r" ?b3] by simp_all
    then show ?thesis using store fbe False PQ(1)
      by (intro exI[of _ ?b3]) (auto simp: free_fields_def elim!: same_outside_mono)
  qed
qed

lemma free_cell_range_eq:
  assumes "free_rep p u fc c bs g" "c \<le> off" "4 \<le> len" "off + len \<le> u"
    "range_free off (off + len) bs" "free_blocks c bs off (off + len) = (c', bs', r)" "r \<le> g"
  shows "\<exists>b3. free_cell_range p off len u = Inr (p\<lparr>page_buf := b3\<rparr>) \<and>
     free_rep (p\<lparr>page_buf := b3\<rparr>) u fc c' bs' (g - r) \<and>
     same_outside (free_fields p \<union> block_bytes bs \<union> {off..<off + len}) (page_buf p) b3"
proof (cases "bs = []")
  case True
  then show ?thesis
    using free_cell_range_empty[of p u fc c g off len] assms by (auto simp: block_bytes_def)
next
  case False
  then show ?thesis using free_cell_range_nonempty assms by blast
qed

section \<open>Taking a slot from the freeblock list\<close>

text \<open>
  The specification of \<open>find_free_slot\<close> on block lists: first fit. A block that would be left
  with fewer than four bytes leaves the list and its rest becomes fragments, unless the page
  already has more than 57 of them; any other block gives its last bytes.
\<close>

fun take_slot :: "nat \<Rightarrow> nat \<Rightarrow> (nat \<times> nat) list \<Rightarrow> ((nat \<times> nat) list \<times> nat \<times> nat) option" where
  "take_slot a g [] = None"
| "take_slot a g ((b, sz) # bs) =
     (if sz < a then map_option (\<lambda>(bs', g', s). ((b, sz) # bs', g', s)) (take_slot a g bs)
      else if sz - a < 4 then (if g > 57 then None else Some (bs, g + (sz - a), b))
      else Some ((b, sz - a) # bs, g, b + (sz - a)))"

lemma take_slot_ok:
  assumes "blocks_ok lo u bs" "take_slot a g bs = Some (bs', g', s)"
  shows "blocks_ok lo u bs'" "sizes bs' + g' + a = sizes bs + g" "g' \<le> max g 60"
    "{s..<s + a} \<subseteq> block_bytes bs" "block_bytes bs' \<subseteq> block_bytes bs - {s..<s + a}"
proof -
  have "blocks_ok lo u bs' \<and> sizes bs' + g' + a = sizes bs + g \<and> g' \<le> max g 60 \<and>
      {s..<s + a} \<subseteq> block_bytes bs \<and> block_bytes bs' \<subseteq> block_bytes bs - {s..<s + a}"
    using assms
  proof (induction bs arbitrary: lo bs')
    case (Cons x bs)
    obtain b sz where x: "x = (b, sz)" by (cases x) auto
    have ok: "lo \<le> b" "4 \<le> sz" "b + sz \<le> u" "blocks_ok (b + sz + 4) u bs" using Cons.prems x by auto
    have above: "b + sz \<le> y" if "y \<in> block_bytes bs" for y
      using that blocks_ok_bounds[OF ok(4)] by (fastforce simp: block_bytes_def)
    then have apart: "block_bytes bs \<inter> {b..<b + sz} = {}" by fastforce
    have bb: "block_bytes (y # ys) = {fst y..<fst y + snd y} \<union> block_bytes ys" for y ys
      by (auto simp: block_bytes_def)
    consider (small) "sz < a" | (whole) "a \<le> sz" "sz - a < 4" | (split) "a \<le> sz" "4 \<le> sz - a" by linarith
    then show ?case
    proof cases
      case small
      then obtain bs1 where bs1: "take_slot a g bs = Some (bs1, g', s)" "bs' = (b, sz) # bs1"
        using Cons.prems x by auto
      note IH = Cons.IH[OF ok(4) bs1(1)]
      then have "{s..<s + a} \<inter> {b..<b + sz} = {}" using apart by blast
      then show ?thesis using IH bs1 ok x by (auto simp: bb)
    next
      case whole
      then show ?thesis
        using Cons.prems x ok apart blocks_ok_mono[OF ok(4), of lo] by (auto simp: bb split: if_splits)
    next
      case split
      then have "bs' = (b, sz - a) # bs" "g' = g" "s = b + (sz - a)" using Cons.prems x by auto
      then show ?thesis
        using x split ok apart blocks_ok_mono[OF ok(4), of "b + (sz - a) + 4"]
        by (auto simp: bb dest: above)
    qed
  qed simp
  then show "blocks_ok lo u bs'" "sizes bs' + g' + a = sizes bs + g" "g' \<le> max g 60"
    "{s..<s + a} \<subseteq> block_bytes bs" "block_bytes bs' \<subseteq> block_bytes bs - {s..<s + a}" by blast+
qed

text \<open>Taking a block out of the list by redirecting the pointer to it.\<close>

lemma seg_unlink:
  assumes seg: "seg b (u16_at b h) (P @ (x, sz) # Q) 0" and ok: "blocks_ok c u (P @ (x, sz) # Q)"
    and len: "h + 2 \<le> c" "u \<le> length b"
    and b': "b' = put b (if P = [] then h else fst (last P)) (nat_to_be 2 (u16_at b x))"
  shows "seg b' (u16_at b' h) (P @ Q) 0"
proof (cases P rule: rev_cases)
  case Nil
  have Q: "seg b (u16_at b x) Q 0" "blocks_ok (x + sz + 4) u Q" "c \<le> x" "x + sz \<le> u"
    using seg ok Nil by auto
  have "seg b' (u16_at b x) Q 0"
    unfolding b' using Nil len Q(3,4) seg_write_header[OF Q(1,2), of h] by simp
  then show ?thesis using Nil len Q(3,4) u16_at_bound[of b x] by (simp add: b' u16_at_put_same)
next
  case (snoc P0 y)
  obtain q s where y: "y = (q, s)" by (cases y) auto
  have P0: "seg b (u16_at b h) P0 q" "q \<noteq> 0" "q + 4 \<le> length b" "u16_at b (q + 2) = s"
    "seg b (u16_at b x) Q 0"
    using seg snoc y by (auto simp: seg_append)
  have at: "(if P = [] then h else fst (last P)) = q" using snoc y by simp
  have ok': "c \<le> q" "blocks_ok (x + sz + 4) u Q" "q + s + 4 \<le> x" "4 \<le> s" "4 \<le> sz"
    using ok snoc y blocks_ok_bounds[OF ok, of q s] by (auto simp: blocks_ok_append)
  have gap: "v + 4 \<le> q" if "(v, t) \<in> set P0" for v t
    using that ok blocks_ok_gap[of c u P0 q s "(x, sz) # Q" v t] by (simp add: snoc y)
  have "seg b' (u16_at b h) P0 q"
    unfolding b' at using P0(3) gap by (intro seg_put_outside[OF P0(1)]) fastforce+
  moreover have "seg b' (u16_at b x) Q 0"
    unfolding b' at using ok' P0(3) by (intro seg_write_header[OF P0(5) ok'(2)]) auto
  moreover have "u16_at b' q = u16_at b x" "u16_at b' (q + 2) = s" "u16_at b' h = u16_at b h"
    "length b' = length b"
    unfolding b' at using P0 ok' len u16_at_bound[of b x]
    by (simp_all add: u16_at_put_same u16_at_put_other)
  ultimately show ?thesis using snoc y P0 by (simp add: seg_append)
qed

lemma seg_shrink:
  assumes seg: "seg b (u16_at b h) (P @ (x, sz) # Q) 0" and ok: "blocks_ok c u (P @ (x, sz) # Q)"
    and len: "h + 2 \<le> c" "u \<le> length b" "v < 65536"
    and b': "b' = put b (x + 2) (nat_to_be 2 v)"
  shows "seg b' (u16_at b' h) (P @ (x, v) # Q) 0"
proof -
  obtain PQ: "seg b (u16_at b h) P x" "x \<noteq> 0" "x + 4 \<le> length b" "seg b (u16_at b x) Q 0"
    using seg by (auto simp: seg_append)
  have ok': "c \<le> x" "4 \<le> sz" "x + sz \<le> u" "blocks_ok (x + sz + 4) u Q"
    using ok blocks_ok_bounds[OF ok, of x sz] by (auto simp: blocks_ok_append)
  have gap: "y + 4 \<le> x" if "(y, t) \<in> set P" for y t
    using blocks_ok_gap[OF ok that] by simp
  have "seg b' (u16_at b h) P x"
    unfolding b' using PQ(3) gap by (intro seg_put_outside[OF PQ(1)]) fastforce+
  moreover have "seg b' (u16_at b x) Q 0"
    unfolding b' using ok' PQ(3) by (intro seg_write_header[OF PQ(4) ok'(4)]) auto
  moreover have "u16_at b' x = u16_at b x" "u16_at b' (x + 2) = v" "u16_at b' h = u16_at b h" "length b' = length b"
    unfolding b' using PQ ok' len by (simp_all add: u16_at_put_same u16_at_put_other)
  ultimately show ?thesis using PQ by (auto simp: seg_append)
qed

lemma free_rep_update:
  assumes rep: "free_rep p u fc c bs g" and b': "length b' = length (page_buf p)"
    and same: "\<forall>j\<in>{page_offset p, page_offset p + 3, page_offset p + 4, page_offset p + 5, page_offset p + 6}.
        b' ! j = page_buf p ! j"
    and g': "b' ! (page_offset p + 7) = of_nat g'" "g' < 256"
    and seg: "seg b' (u16_at b' (page_offset p + 1)) bs' 0" "blocks_ok c u bs'"
  shows "free_rep (p\<lparr>page_buf := b'\<rparr>) u fc c bs' g'"
proof -
  note len = free_rep_len[OF rep]
  have "u16_at b' (page_offset p + 3) = u16_at (page_buf p) (page_offset p + 3)"
    "u16_at b' (page_offset p + 5) = u16_at (page_buf p) (page_offset p + 5)"
    using len b' same by (auto intro!: u16_at_nth_cong simp: numeral_eq_Suc)
  moreover have "unat (of_nat g' :: byte) = g'" using g'(2) by (simp add: unat_of_nat)
  ultimately show ?thesis
    using rep len b' same g' seg by (simp add: free_rep_buf)
qed

lemma free_rep_cut:
  assumes rep: "free_rep p u fc c (P @ (x, sz) # Q) g" and g': "g' < 256"
    and b': "b' = put (put (page_buf p) (if P = [] then page_offset p + 1 else fst (last P))
                  (nat_to_be 2 (u16_at (page_buf p) x))) (page_offset p + 7) [of_nat g']"
  shows "free_rep (p\<lparr>page_buf := b'\<rparr>) u fc c (P @ Q) g'"
    "same_outside (free_fields p \<union> block_bytes P) (page_buf p) b'"
proof -
  let ?b = "page_buf p" and ?o = "page_offset p"
  let ?at = "if P = [] then ?o + 1 else fst (last P)"
  let ?b1 = "put ?b ?at (nat_to_be 2 (u16_at ?b x))"
  have r: "u \<le> length ?b" "?o + 8 \<le> c" "c \<le> u" "seg ?b (u16_at ?b (?o + 1)) (P @ (x, sz) # Q) 0"
    "blocks_ok c u (P @ (x, sz) # Q)"
    using rep by (auto simp: free_rep_def)
  have at: "P \<noteq> [] \<Longrightarrow> c \<le> ?at" "?at + 2 \<le> length ?b" "{?at..<?at + 2} \<subseteq> free_fields p \<union> block_bytes P"
  proof -
    have l: "P \<noteq> [] \<Longrightarrow> c \<le> fst (last P) \<and> 4 \<le> snd (last P) \<and> fst (last P) + snd (last P) \<le> u"
      using blocks_ok_bounds[OF r(5), of "fst (last P)" "snd (last P)"] by simp
    then show "P \<noteq> [] \<Longrightarrow> c \<le> ?at" "?at + 2 \<le> length ?b" using r by fastforce+
    have "P \<noteq> [] \<Longrightarrow> {fst (last P)..<fst (last P) + snd (last P)} \<subseteq> block_bytes P"
      by (force simp: block_bytes_def intro: last_in_set)
    moreover have "P \<noteq> [] \<Longrightarrow> {fst (last P)..<fst (last P) + 2} \<subseteq> {fst (last P)..<fst (last P) + snd (last P)}"
      using l by auto
    moreover have "{?o + 1..<?o + 1 + 2} \<subseteq> free_fields p" by (auto simp: free_fields_def)
    ultimately show "{?at..<?at + 2} \<subseteq> free_fields p \<union> block_bytes P"
      by (cases "P = []") (simp_all only: simp_thms if_True if_False, blast+)
  qed
  have ok: "blocks_ok c u (P @ Q)"
    using r(5) blocks_ok_mono[of "x + sz + 4" u Q] by (auto simp: blocks_ok_append)
  have "seg ?b1 (u16_at ?b1 (?o + 1)) (P @ Q) 0"
    using seg_unlink[OF r(4,5)] r by simp
  then have "seg b' (u16_at b' (?o + 1)) (P @ Q) 0"
    unfolding b' using seg_write_header[OF _ ok, of ?b1] r at by (simp add: u16_at_put_other)
  then show "free_rep (p\<lparr>page_buf := b'\<rparr>) u fc c (P @ Q) g'"
    using at(1,2) r by (intro free_rep_update[OF rep _ _ _ g' _ ok]) (auto simp: b' nth_put)
  show "same_outside (free_fields p \<union> block_bytes P) ?b b'"
    unfolding b' using at r
    by (intro same_outside_put same_outside_refl) (auto simp: free_fields_def)
qed

lemma free_rep_shrink:
  assumes rep: "free_rep p u fc c (P @ (x, sz) # Q) g" and v: "4 \<le> v" "v \<le> sz"
    and b': "b' = put (page_buf p) (x + 2) (nat_to_be 2 v)"
  shows "free_rep (p\<lparr>page_buf := b'\<rparr>) u fc c (P @ (x, v) # Q) g"
    "same_outside (block_bytes [(x, sz)]) (page_buf p) b'"
proof -
  let ?b = "page_buf p" and ?o = "page_offset p"
  note len = free_rep_len[OF rep]
  have r: "u \<le> length ?b" "u \<le> 65536" "?o + 8 \<le> c" "seg ?b (u16_at ?b (?o + 1)) (P @ (x, sz) # Q) 0"
    "blocks_ok c u (P @ (x, sz) # Q)"
    using rep by (auto simp: free_rep_def)
  have g: "?b ! (?o + 7) = of_nat g" "g < 256"
    using rep unat_byte_bound[of "?b ! (?o + 7)"] unfolding free_rep_buf[OF len] by auto
  have x: "c \<le> x" "4 \<le> sz" "x + sz \<le> u" using blocks_ok_bounds[OF r(5), of x sz] by auto
  have ok: "blocks_ok c u (P @ (x, v) # Q)"
    using r(5) v blocks_ok_mono[of "x + sz + 4" u Q "x + v + 4"] by (auto simp: blocks_ok_append)
  have "seg b' (u16_at b' (?o + 1)) (P @ (x, v) # Q) 0"
    using v x r by (intro seg_shrink[OF r(4,5) _ _ _ b']) linarith+
  then show "free_rep (p\<lparr>page_buf := b'\<rparr>) u fc c (P @ (x, v) # Q) g"
    using x r g by (intro free_rep_update[OF rep _ _ _ g(2) _ ok]) (auto simp: b' nth_put)
  show "same_outside (block_bytes [(x, sz)]) ?b b'"
    unfolding b' using x r by (intro same_outside_put same_outside_refl) (auto simp: block_bytes_def)
qed

lemma find_free_slot_loop_eq:
  assumes rep: "free_rep p u fc c (P @ B) g" and B: "B \<noteq> []" "cur = fst (hd B)" and a: "a \<le> u"
    and prev: "prev = (if P = [] then None else Some (fst (last P)))"
  shows "case take_slot a g B of
      None \<Rightarrow> find_free_slot_loop p u a prev cur = Inr (p, None)
    | Some (B', g', s) \<Rightarrow> \<exists>b'. find_free_slot_loop p u a prev cur = Inr (p\<lparr>page_buf := b'\<rparr>, Some s) \<and>
        free_rep (p\<lparr>page_buf := b'\<rparr>) u fc c (P @ B') g' \<and>
        same_outside (free_fields p \<union> block_bytes (P @ B)) (page_buf p) b'"
  using assms
proof (induction B arbitrary: P prev cur)
  case (Cons x Q)
  let ?b = "page_buf p" and ?o = "page_offset p"
  obtain sz where x: "x = (cur, sz)" using Cons.prems(3) by (cases x) auto
  note rep = Cons.prems(1)[unfolded x]
  have r: "u \<le> length ?b" "u \<le> 65536" "num_frag_free_bytes p = Inr g"
    "blocks_ok c u (P @ (cur, sz) # Q)" "seg ?b (u16_at ?b (?o + 1)) (P @ (cur, sz) # Q) 0"
    using rep by (auto simp: free_rep_def)
  have cur: "c \<le> cur" "4 \<le> sz" "cur + sz \<le> u" using blocks_ok_bounds[OF r(4), of cur sz] by auto
  have s: "cur + 4 \<le> length ?b" "u16_at ?b (cur + 2) = sz" "seg ?b (u16_at ?b cur) Q 0"
    "blocks_ok (cur + sz + 4) u Q"
    using r(4,5) by (auto simp: seg_append blocks_ok_append)
  have rd: "to_u16 cur = Inr cur" "read_freeblock p cur = Inr (u16_at ?b cur, sz)" "\<not> cur + 4 > u"
    using cur s r by (auto simp: to_u16_ok read_freeblock_def read_u16_simps)
  have prevP: "to_u16 (fst (last P)) = Inr (fst (last P))" "fst (last P) + 2 \<le> length ?b" if "P \<noteq> []"
    using that blocks_ok_bounds[OF r(4), of "fst (last P)" "snd (last P)"] r by (auto intro: to_u16_ok)
  consider (small) "sz < a" | (whole) "a \<le> sz" "sz - a < 4" | (split) "a \<le> sz" "4 \<le> sz - a" by linarith
  then show ?case
  proof cases
    case small
    show ?thesis
    proof (cases Q)
      case Nil
      then show ?thesis using small s(3) rd x by (subst find_free_slot_loop.simps) simp
    next
      case (Cons y Q')
      then have nx: "u16_at ?b cur = fst (hd Q)" "u16_at ?b cur \<noteq> 0" "cur < u16_at ?b cur"
        using s(3,4) by (cases y; auto)+
      have "find_free_slot_loop p u a prev cur = find_free_slot_loop p u a (Some cur) (u16_at ?b cur)"
        using small rd nx by (subst find_free_slot_loop.simps) simp
      then show ?thesis
        using Cons.IH[of "P @ [(cur, sz)]" "u16_at ?b cur" "Some cur"] rep nx(1) Cons a small x
        by (auto split: option.splits)
    qed
  next
    case whole
    let ?at = "if P = [] then ?o + 1 else fst (last P)"
    let ?b1 = "put ?b ?at (nat_to_be 2 (u16_at ?b cur))"
    let ?b' = "put ?b1 (?o + 7) [of_nat (g + (sz - a))]"
    show ?thesis
    proof (cases "g > 57")
      case True
      then show ?thesis using whole rd r(3) x by (subst find_free_slot_loop.simps) simp
    next
      case False
      have len: "?o + 8 \<le> length ?b" by (rule free_rep_len[OF rep])
      have "num_frag_free_bytes (p\<lparr>page_buf := ?b1\<rparr>) = Inr g"
      proof -
        have "?b1 ! (?o + 7) = ?b ! (?o + 7)"
          using len blocks_ok_bounds[OF r(4), of "fst (last P)" "snd (last P)"] rep prevP
          by (auto simp: nth_put free_rep_def)
        then show ?thesis using r(3) len prevP
          by (simp add: num_frag_free_bytes_def read_u8_def buf_u8_def)
      qed
      then have "find_free_slot_loop p u a prev cur = Inr (p\<lparr>page_buf := ?b'\<rparr>, Some cur)"
        using whole False rd r(3) x Cons.prems(5) prevP len
        by (subst find_free_slot_loop.simps) (auto simp: write_simps write_bytes_ok)
      moreover have "free_rep (p\<lparr>page_buf := ?b'\<rparr>) u fc c (P @ Q) (g + (sz - a))"
        "same_outside (free_fields p \<union> block_bytes P) ?b ?b'"
        using free_rep_cut[OF rep, of "g + (sz - a)" ?b'] whole False by simp_all
      ultimately show ?thesis using whole False x by (auto elim!: same_outside_mono)
    qed
  next
    case split
    let ?b' = "put ?b (cur + 2) (nat_to_be 2 (sz - a))"
    have "find_free_slot_loop p u a prev cur = Inr (p\<lparr>page_buf := ?b'\<rparr>, Some (cur + (sz - a)))"
    proof -
      have "\<not> sz - a + cur > u - a" "\<not> a > sz" "\<not> sz - a < 4" using split cur by linarith+
      then show ?thesis using rd s(1)
        by (subst find_free_slot_loop.simps) (simp add: write_simps write_bytes_ok Let_def)
    qed
    moreover have "free_rep (p\<lparr>page_buf := ?b'\<rparr>) u fc c (P @ (cur, sz - a) # Q) g"
      "same_outside (block_bytes [(cur, sz)]) ?b ?b'"
      using free_rep_shrink[OF rep split(2)] by simp_all
    ultimately show ?thesis using split x
      by (auto simp: block_bytes_def elim!: same_outside_mono)
  qed
qed simp

lemma find_free_slot_eq:
  assumes rep: "free_rep p u fc c bs g" and a: "a \<le> u"
  shows "case take_slot a g bs of
      None \<Rightarrow> find_free_slot p u a = Inr (p, None)
    | Some (bs', g', s) \<Rightarrow> \<exists>b'. find_free_slot p u a = Inr (p\<lparr>page_buf := b'\<rparr>, Some s) \<and>
        free_rep (p\<lparr>page_buf := b'\<rparr>) u fc c bs' g' \<and>
        same_outside (free_fields p \<union> block_bytes bs) (page_buf p) b'"
proof (cases bs)
  case Nil
  then show ?thesis using first_freeblock_rep[OF rep] a by (simp add: find_free_slot_def)
next
  case (Cons x Q)
  have "fst x \<noteq> 0" using rep Cons by (cases x) (auto simp: free_rep_def)
  then have "find_free_slot p u a = find_free_slot_loop p u a None (fst x)"
    using first_freeblock_rep[OF rep] Cons a by (cases x) (simp add: find_free_slot_def)
  then show ?thesis
    using find_free_slot_loop_eq[of p u fc c "[]" bs g "fst x" a None] rep Cons a
    by (auto split: option.splits)
qed

section \<open>Rejected ranges\<close>

lemma blocks_ok_last:
  assumes "blocks_ok lo u bs" "(b, sz) \<in> set bs" "\<forall>x\<in>set bs. fst x < off" "off < b + sz"
  shows "last bs = (b, sz)"
proof -
  obtain xs ys where bs: "bs = xs @ (b, sz) # ys" using assms(2) split_list by metis
  show ?thesis
  proof (cases ys rule: rev_cases)
    case (snoc zs z)
    have "b + sz + 4 \<le> fst z"
      using assms(1) bs snoc blocks_ok_bounds[of "b + sz + 4" u "zs @ [z]" "fst z" "snd z"]
      by (auto simp: blocks_ok_append)
    then show ?thesis using assms(3,4) bs snoc by auto
  qed (simp add: bs)
qed

lemma seg_in: "seg b pc bs q \<Longrightarrow> (x, sz) \<in> set bs \<Longrightarrow> u16_at b (x + 2) = sz \<and> x + 4 \<le> length b"
  by (induction bs arbitrary: pc) auto

lemma merge_next_cases: "merge_next p u e nb = Inl err \<Longrightarrow> seg (page_buf p) m post 0 \<Longrightarrow>
    nb = start_of post \<Longrightarrow> err = Corrupt"
  by (cases post) (auto simp: merge_next_def read_u16_simps split: if_splits)

lemma free_cell_range_overlap:
  assumes rep: "free_rep p u fc c bs g" and off: "4 \<le> len" "off + len \<le> u"
    and bad: "off < c \<or> \<not> range_free off (off + len) bs"
  shows "free_cell_range p off len u = Inl Corrupt"
proof (cases "bs = []")
  case True
  have "\<not> u - 4 < off" using off by linarith
  then show ?thesis
    using rep first_freeblock_rep[OF rep] off bad True
    by (simp add: free_cell_range_def free_rep_def range_free_def)
next
  case False
  let ?b = "page_buf p" and ?o = "page_offset p" and ?e = "off + len"
  let ?P = "before off bs" and ?Q = "behind off bs"
  let ?prev = "if ?P = [] then None else Some (fst (last ?P))"
  have u: "u \<le> length ?b" "cell_content_area p = Inr c" "num_frag_free_bytes p = Inr g"
    "blocks_ok c u bs" "seg ?b (u16_at ?b (?o + 1)) bs 0"
    using rep by (auto simp: free_rep_def)
  have fst_bs: "first_freeblock p = Inr (fst (hd bs))" "u16_at ?b (?o + 1) = fst (hd bs)" "fst (hd bs) \<noteq> 0"
    using first_freeblock_rep[OF rep] False u(5) by (cases bs; auto)+
  obtain m where seg: "seg ?b (u16_at ?b (?o + 1)) ?P m" "seg ?b m ?Q 0"
    using u(5) seg_append[of ?b _ ?P ?Q] unfolding before_behind by blast
  have ok: "blocks_ok c u ?P" "blocks_ok (if ?P = [] then c else fst (last ?P) + snd (last ?P) + 4) u ?Q"
    using u(4) blocks_ok_append[of c u ?P ?Q] unfolding before_behind by simp_all
  have scan: "free_range_scan p off None (fst (hd bs)) = Inr (?prev, start_of ?Q)"
    using free_range_scan_eq[OF u(5) False u(4,1), of None off] fst_bs(2) unfolding start_of_if by simp
  have run: "free_cell_range p off len u =
      and_then (merge_next p u ?e (start_of ?Q)) (\<lambda>(end1, removed1, next_block).
      and_then (merge_prev p off ?prev) (\<lambda>(off, removed2).
      if removed1 + removed2 > g then Inl Corrupt
      else and_then (write_fragmented_bytes_count p (g - (removed1 + removed2))) (\<lambda>p.
           free_range_store p (fst (hd bs)) c off end1 ?prev next_block)))"
  proof -
    have "\<not> u - 4 < off" "\<not> (case start_of ?Q of Some next \<Rightarrow> next + 4 > u | None \<Rightarrow> False)"
      using off ok(2) by (linarith, cases ?Q) auto
    then show ?thesis using off fst_bs scan u(2,3) by (simp add: free_cell_range_def)
  qed
  show ?thesis
  proof (cases "off < c")
    case True
    then have "?P = []" using before_less[of off bs] blocks_ok_bounds[OF ok(1)]
      by (cases ?P) fastforce+
    then show ?thesis
      using True merge_next_cases[OF _ seg(2) refl, of u ?e] free_rep_len[OF rep]
      by (cases "merge_next p u ?e (start_of ?Q)")
        (auto simp: run merge_prev_def free_range_store_def write_simps write_bytes_ok)
  next
    case False
    then obtain b sz where b: "(b, sz) \<in> set ?P \<union> set ?Q" "b < ?e" "off < b + sz"
      using bad before_behind[of off bs] by (fastforce simp: range_free_def simp flip: set_append)
    show ?thesis
    proof (cases "(b, sz) \<in> set ?P")
      case True
      have l: "last ?P = (b, sz)" by (rule blocks_ok_last[OF ok(1) True before_less b(3)])
      have "u16_at ?b (b + 2) = sz" "b + 4 \<le> length ?b" using seg_in[OF seg(1) True] by auto
      then have "merge_prev p off ?prev = Inl Corrupt"
        using True l b(3) by (auto simp: merge_prev_def read_u16_simps)
      then show ?thesis using merge_next_cases[OF _ seg(2) refl, of u ?e]
        by (cases "merge_next p u ?e (start_of ?Q)") (auto simp: run)
    next
      case False
      then have "?Q \<noteq> []" "fst (hd ?Q) < ?e"
        using b ok(2) blocks_ok_bounds[of "fst (hd ?Q) + snd (hd ?Q) + 4" u "tl ?Q" b sz]
        by (cases ?Q; force)+
      then have "merge_next p u ?e (start_of ?Q) = Inl Corrupt"
        by (cases ?Q) (auto simp: merge_next_def)
      then show ?thesis by (simp add: run)
    qed
  qed
qed

section \<open>Properties of the page space operations\<close>

lemma compute_free_space_rep:
  assumes rep: "free_rep p u fc c bs g" and u: "page_offset p + 12 \<le> u" "c + sizes bs + g \<le> u"
  shows "compute_free_space p u = Inr (free_total fc c bs g)"
proof -
  have r: "u \<le> length (page_buf p)" "u \<le> 65536" "fc \<le> c" using rep by (auto simp: free_rep_def)
  show ?thesis unfolding compute_free_space_iff[OF r(1,2) u(1)]
    using rep u(2) by (intro exI[of _ fc] exI[of _ c] exI[of _ bs] exI[of _ g]) (auto simp: free_rep_def free_total_def)
qed

definition sample_free_page :: page where
  "sample_free_page = \<lparr>page_id = 2,
     page_buf = [13, 0, 24, 0, 1, 0, 20, 2, 0, 20, 0, 0, 0, 0, 0, 0, 0, 0, 0, 0,
                 1, 1, 7, 7, 0, 36, 0, 8, 0, 0, 0, 0, 7, 7, 7, 7, 0, 0, 0, 4, 9, 9, 9, 9, 9, 9, 9, 9],
     overflow_cells = []\<rparr>"

lemma sample_free_page_rep: "free_rep sample_free_page 48 10 20 [(24, 8), (36, 4)] 2"
proof -
  have "(48::nat) \<le> 65536" by simp
  moreover have "48 \<le> length (page_buf sample_free_page) \<and> page_offset sample_free_page + 8 \<le> 10 \<and>
      unallocated_region_start sample_free_page = Inr 10 \<and> num_frag_free_bytes sample_free_page = Inr 2 \<and>
      blocks_ok 20 48 [(24, 8), (36, 4)]" by code_simp
  moreover have "cell_content_area sample_free_page = Inr 20"
    by (simp add: sample_free_page_def cell_content_area_def content_area_value_def read_u16_def
        buf_be_def page_offset_def slice_def)
  moreover have "seg (page_buf sample_free_page) (u16_at (page_buf sample_free_page)
      (page_offset sample_free_page + 1)) [(24, 8), (36, 4)] 0" by code_simp
  ultimately show ?thesis by (simp add: free_rep_def)
qed

text \<open>
  C15. On a page whose content area does not start inside the cell pointer array,
  \<open>compute_free_space\<close> succeeds exactly when the freeblock list of the page is a chain of
  ascending, non-touching blocks of at least four bytes inside the page and the total fits,
  and the result is the unallocated region plus all freeblocks plus the fragments.
\<close>

theorem compute_free_space_exact:
  assumes "u \<le> length (page_buf p)" "u \<le> 65536" "page_offset p + 12 \<le> u"
    "unallocated_region_start p = Inr fc" "cell_content_area p = Inr c" "fc \<le> c"
  shows "compute_free_space p u = Inr f \<longleftrightarrow>
     (\<exists>bs g. free_rep p u fc c bs g \<and> c + sizes bs + g \<le> u \<and> f = free_total fc c bs g)"
proof -
  have "page_offset p + 8 \<le> fc"
    using assms(4) by (auto simp: unallocated_region_start_Inr page_header_size_def header_size_of_def)
  then show ?thesis
    using assms unfolding compute_free_space_iff[OF assms(1-3)]
    by (auto simp: free_rep_def free_total_def)
qed

theorem compute_free_space_exact_witness:
  "compute_free_space sample_free_page 48 = Inr 24"
proof -
  have "48 \<le> length (page_buf sample_free_page)" "page_offset sample_free_page + 12 \<le> 48"
    "unallocated_region_start sample_free_page = Inr 10" by code_simp+
  moreover have "cell_content_area sample_free_page = Inr 20"
    using sample_free_page_rep by (simp add: free_rep_def)
  moreover have "20 + sizes [(24, 8), (36, 4)] + 2 \<le> 48 \<and> 24 = free_total 10 20 [(24, 8), (36, 4)] 2"
    by code_simp
  ultimately show ?thesis
    using compute_free_space_exact[of 48 sample_free_page 10 20 24] sample_free_page_rep by auto
qed

text \<open>
  C2. Freeing a range inside the content area that does not meet a freeblock implements the
  merge of block lists: the page then represents the merged free space, its free space grew
  by exactly the length of the range, and no byte changed outside the free-space fields of
  the header, the old freeblocks and the freed range. So no live cell is touched.
\<close>

theorem free_cell_range_refines:
  assumes "free_rep p u fc c bs g" "c \<le> off" "4 \<le> len" "off + len \<le> u"
    "range_free off (off + len) bs" "free_blocks c bs off (off + len) = (c', bs', r)" "r \<le> g"
  shows "\<exists>b'. free_cell_range p off len u = Inr (p\<lparr>page_buf := b'\<rparr>) \<and>
     free_rep (p\<lparr>page_buf := b'\<rparr>) u fc c' bs' (g - r) \<and>
     free_total fc c' bs' (g - r) = free_total fc c bs g + len \<and>
     same_outside (free_fields p \<union> block_bytes bs \<union> {off..<off + len}) (page_buf p) b'"
proof -
  have "blocks_ok c u bs" "fc \<le> c" "off + 4 \<le> off + len" using assms(1,3) by (auto simp: free_rep_def)
  note fb = free_blocks_ok[OF this(1) assms(2) this(3) assms(4,5,6)]
  have "free_total fc c' bs' (g - r) = free_total fc c bs g + len"
    using fb assms(7) \<open>fc \<le> c\<close> by (simp add: free_total_def)
  then show ?thesis using free_cell_range_eq[OF assms] by blast
qed

theorem free_cell_range_refines_witness:
  "\<exists>b'. free_cell_range sample_free_page 32 4 48 = Inr (sample_free_page\<lparr>page_buf := b'\<rparr>) \<and>
     free_rep (sample_free_page\<lparr>page_buf := b'\<rparr>) 48 10 20 [(24, 16)] 2"
proof -
  have "range_free 32 (32 + 4) [(24, 8), (36, 4)]" "free_blocks 20 [(24, 8), (36, 4)] 32 (32 + 4) = (20, [(24, 16)], 0)"
    by code_simp+
  then show ?thesis using free_cell_range_refines[OF sample_free_page_rep, of 32 4 20 "[(24, 16)]" 0] by auto
qed

text \<open>
  C29. Every other range is refused: on a page with a well-formed free space, a range that starts
  in front of the content area, is shorter than a freeblock, leaves the page or meets a
  freeblock (a double free) gives the corruption error, never a panic or a changed page.
\<close>

theorem free_cell_range_rejects:
  assumes "free_rep p u fc c bs g"
    "len < 4 \<or> u < off + len \<or> off < c \<or> \<not> range_free off (off + len) bs"
  shows "free_cell_range p off len u = Inl Corrupt"
  using assms free_cell_range_overlap[OF assms(1), of len off]
  by (cases "len < 4 \<or> off + len > u") (auto simp: free_cell_range_def)

theorem free_cell_range_rejects_witness: "free_cell_range sample_free_page 28 8 48 = Inl Corrupt"
proof -
  have "\<not> range_free 28 (28 + 8) [(24, 8), (36, 4)]" by code_simp
  then show ?thesis using free_cell_range_rejects[OF sample_free_page_rep, of 8 28] by simp
qed

text \<open>
  C6. Taking a slot implements first fit on the block list. A returned slot lies inside an old
  freeblock and outside every remaining one, the free space shrinks by exactly the amount
  taken, the fragment count stays at most 60 if it was, and no byte changes outside the
  free-space fields and the freeblocks; without a slot the page is unchanged.
\<close>

theorem find_free_slot_refines:
  assumes "free_rep p u fc c bs g" "a \<le> u" "g \<le> 60"
  shows "case take_slot a g bs of
      None \<Rightarrow> find_free_slot p u a = Inr (p, None)
    | Some (bs', g', s) \<Rightarrow>
        (\<exists>b'. find_free_slot p u a = Inr (p\<lparr>page_buf := b'\<rparr>, Some s) \<and>
          free_rep (p\<lparr>page_buf := b'\<rparr>) u fc c bs' g' \<and>
          same_outside (free_fields p \<union> block_bytes bs) (page_buf p) b') \<and>
        free_total fc c bs' g' + a = free_total fc c bs g \<and> g' \<le> 60 \<and>
        {s..<s + a} \<subseteq> block_bytes bs \<and> block_bytes bs' \<subseteq> block_bytes bs - {s..<s + a}"
proof (cases "take_slot a g bs")
  case None
  then show ?thesis using find_free_slot_eq[OF assms(1,2)] by simp
next
  case (Some t)
  obtain bs' g' s where t: "t = (bs', g', s)" by (cases t) auto
  have "blocks_ok c u bs" using assms(1) by (simp add: free_rep_def)
  note take_slot_ok[OF this Some[unfolded t]]
  then show ?thesis using find_free_slot_eq[OF assms(1,2)] Some t assms(3) by (auto simp: free_total_def)
qed

theorem find_free_slot_refines_witness:
  "\<exists>b'. find_free_slot sample_free_page 48 7 = Inr (sample_free_page\<lparr>page_buf := b'\<rparr>, Some 24) \<and>
     free_rep (sample_free_page\<lparr>page_buf := b'\<rparr>) 48 10 20 [(36, 4)] 3"
proof -
  have "take_slot 7 2 [(24, 8), (36, 4)] = Some ([(36, 4)], 3, 24)" by code_simp
  then show ?thesis using find_free_slot_refines[OF sample_free_page_rep, of 7] by auto
qed

text \<open>
  C30. Initialising a page, whatever its buffer held, gives an empty page of the requested type
  without overflow cells, on which everything behind the header is unallocated.
\<close>

theorem btree_init_page_empty:
  assumes "u \<le> length (page_buf p)" "u \<le> 65536" "page_offset p + 12 \<le> u"
    "fc = page_offset p + header_size_of (page_type_code t)"
  shows "\<exists>p'. btree_init_page p t u = Inr p' \<and> get_page_type p' = Inr t \<and> cell_count p' = Inr 0 \<and>
     overflow_cells p' = [] \<and> free_rep p' u fc u [] 0 \<and> compute_free_space p' u = Inr (u - fc)"
proof -
  let ?o = "page_offset p" and ?b = "page_buf p"
  define b' where "b' = put (put (put (put (put (put ?b ?o [page_type_code t]) (?o + 1) (nat_to_be 2 0))
    (?o + 3) (nat_to_be 2 0)) (?o + 5) (nat_to_be 2 u)) (?o + 7) [0]) (?o + 8) (nat_to_be 4 0)"
  let ?p' = "p\<lparr>page_buf := b', overflow_cells := []\<rparr>"
  have len: "?o + 12 \<le> length ?b" "length b' = length ?b" using assms by (simp_all add: b'_def)
  have po: "page_offset ?p' = ?o" "page_offset (p\<lparr>overflow_cells := []\<rparr>) = ?o" by (simp_all add: page_offset_def)
  have "btree_init_page p t u = Inr ?p'"
    using len(1) po(2) by (simp add: btree_init_page_def write_simps write_page_type_def write_u8_def
        write_rightmost_ptr_def write_u32_def write_bytes_ok b'_def)
  moreover have f: "b' ! ?o = page_type_code t" "b' ! (?o + 7) = 0" "u16_at b' (?o + 1) = 0"
    "u16_at b' (?o + 3) = 0" "u16_at b' (?o + 5) = u mod 65536"
    using len(1) by (simp_all add: b'_def nth_put u16_at_put_other u16_at_put_same)
  moreover have "get_page_type ?p' = Inr t"
    using f(1) len po by (cases t) (simp_all add: get_page_type_def read_u8_def buf_u8_def
        page_type_try_from_def page_type_code_def)
  moreover have "cell_count ?p' = Inr 0" using f(4) len po by (simp add: cell_count_def read_u16_simps)
  moreover have rep: "free_rep ?p' u fc u [] 0"
  proof -
    have "content_area_value (u mod 65536) = u" using assms by (intro content_area_value_mod) linarith+
    moreover have "8 \<le> header_size_of (page_type_code t)" "header_size_of (page_type_code t) \<le> 12"
      by (simp_all add: header_size_of_def)
    ultimately show ?thesis using f len po assms by (simp add: free_rep_buf)
  qed
  moreover have "compute_free_space ?p' u = Inr (u - fc)"
    using compute_free_space_rep[OF rep] assms po by (simp add: free_total_def)
  ultimately show ?thesis by auto
qed

theorem btree_init_page_empty_witness:
  "\<exists>p'. btree_init_page sample_free_page TableInterior 48 = Inr p' \<and> compute_free_space p' 48 = Inr 36"
proof -
  have h: "48 \<le> length (page_buf sample_free_page)" "page_offset sample_free_page + 12 \<le> 48"
    "page_offset sample_free_page + header_size_of (page_type_code TableInterior) = 12" by code_simp+
  have "(48::nat) \<le> 65536" "(48::nat) - 12 = 36" by simp_all
  then show ?thesis using btree_init_page_empty[OF h(1) _ h(2) h(3)[symmetric]] by metis
qed

end
