(* ===== verification/PageState.thy ===== *)
theory PageState
  imports Prelude
begin

text \<open>
  The state of a page in memory beside its contents, from \<^verbatim>\<open>core/storage/pager.rs\<close>: the flag
  word, the pin count and the packed WAL tag (frame and checkpoint epoch) with its two
  sentinel values. Flags and tag are machine words and the operations are the bit operations
  of the source; they are executed one at a time, \<open>try_set_wal_tag\<close> too, which loads the tag and
  stores it in two atomic operations.
\<close>

section \<open>The packed WAL tag\<close>

definition TAG_UNSET :: u64 where
  "TAG_UNSET = - 1"

definition TAG_WRITE_PENDING :: u64 where
  "TAG_WRITE_PENDING = - 2"

definition FRAME_MAX :: u64 where
  "FRAME_MAX = 2 ^ 44 - 1"

definition EPOCH_MAX :: u32 where
  "EPOCH_MAX = 2 ^ 20 - 1"

definition pack_tag_pair :: "u64 \<Rightarrow> u32 \<Rightarrow> u64" where
  "pack_tag_pair frame sq = push_bit 44 (ucast sq) OR (frame AND FRAME_MAX)"

definition unpack_tag_pair :: "u64 \<Rightarrow> u64 \<times> u32" where
  "unpack_tag_pair tag =
     (tag AND FRAME_MAX, ucast (drop_bit 44 tag AND ucast EPOCH_MAX))"

section \<open>Page state\<close>

record page_inner =
  flags :: u64
  inner_id :: nat
  pin_count :: nat
  wal_tag :: u64
  buffer :: "byte list option"
  pending_cells :: "(nat \<times> byte list) list"

definition PAGE_LOCKED :: u64 where "PAGE_LOCKED = 2"
definition PAGE_DIRTY :: u64 where "PAGE_DIRTY = 8"
definition PAGE_LOADED :: u64 where "PAGE_LOADED = 16"
definition PAGE_SPILLED :: u64 where "PAGE_SPILLED = 32"

definition unloaded :: "nat \<Rightarrow> page_inner" where
  "unloaded i = \<lparr>flags = 0, inner_id = i, pin_count = 0, wal_tag = TAG_UNSET, buffer = None,
     pending_cells = []\<rparr>"

definition set_buffer :: "byte list \<Rightarrow> page_inner \<Rightarrow> page_inner" where
  "set_buffer b p = p\<lparr>buffer := Some b\<rparr>"

definition take_buffer :: "page_inner \<Rightarrow> page_inner" where
  "take_buffer p = p\<lparr>buffer := None\<rparr>"

definition is_locked :: "page_inner \<Rightarrow> bool" where
  "is_locked p \<longleftrightarrow> flags p AND PAGE_LOCKED \<noteq> 0"

definition set_locked :: "page_inner \<Rightarrow> page_inner" where
  "set_locked p = p\<lparr>flags := flags p OR PAGE_LOCKED\<rparr>"

definition clear_locked :: "page_inner \<Rightarrow> page_inner" where
  "clear_locked p = p\<lparr>flags := flags p AND NOT PAGE_LOCKED\<rparr>"

definition is_dirty :: "page_inner \<Rightarrow> bool" where
  "is_dirty p \<longleftrightarrow> flags p AND PAGE_DIRTY \<noteq> 0"

definition clear_wal_tag :: "page_inner \<Rightarrow> page_inner" where
  "clear_wal_tag p = p\<lparr>wal_tag := TAG_UNSET\<rparr>"

definition set_dirty :: "page_inner \<Rightarrow> page_inner" where
  "set_dirty p =
     (let p = clear_wal_tag p;
          p = p\<lparr>flags := flags p AND NOT PAGE_SPILLED\<rparr>
      in p\<lparr>flags := flags p OR PAGE_DIRTY\<rparr>)"

definition clear_dirty :: "page_inner \<Rightarrow> page_inner" where
  "clear_dirty p = clear_wal_tag (p\<lparr>flags := flags p AND NOT PAGE_DIRTY\<rparr>)"

definition clear_dirty_keep_wal_tag :: "page_inner \<Rightarrow> page_inner" where
  "clear_dirty_keep_wal_tag p = p\<lparr>flags := flags p AND NOT PAGE_DIRTY\<rparr>"

definition is_spilled :: "page_inner \<Rightarrow> bool" where
  "is_spilled p \<longleftrightarrow> flags p AND PAGE_SPILLED \<noteq> 0"

definition set_spilled :: "page_inner \<Rightarrow> page_inner" where
  "set_spilled p = p\<lparr>flags := flags p OR PAGE_SPILLED\<rparr>"

definition clear_spilled :: "page_inner \<Rightarrow> page_inner" where
  "clear_spilled p = p\<lparr>flags := flags p AND NOT PAGE_SPILLED\<rparr>"

definition is_loaded :: "page_inner \<Rightarrow> bool" where
  "is_loaded p \<longleftrightarrow> flags p AND PAGE_LOADED \<noteq> 0"

definition set_loaded :: "page_inner \<Rightarrow> page_inner" where
  "set_loaded p = p\<lparr>flags := flags p OR PAGE_LOADED\<rparr>"

definition clear_loaded :: "page_inner \<Rightarrow> page_inner" where
  "clear_loaded p = p\<lparr>flags := flags p AND NOT PAGE_LOADED\<rparr>"

definition pin :: "page_inner \<Rightarrow> page_inner" where
  "pin p = p\<lparr>pin_count := pin_count p + 1\<rparr>"

definition try_unpin :: "page_inner \<Rightarrow> bool \<times> page_inner" where
  "try_unpin p = (if pin_count p = 0 then (False, p) else (True, p\<lparr>pin_count := pin_count p - 1\<rparr>))"

definition unpin :: "page_inner \<Rightarrow> page_inner result" where
  "unpin p = (let (was_pinned, p) = try_unpin p in if was_pinned then Inr p else Inl Panic)"

definition is_pinned :: "page_inner \<Rightarrow> bool" where
  "is_pinned p \<longleftrightarrow> pin_count p > 0"

definition set_wal_tag :: "u64 \<Rightarrow> u32 \<Rightarrow> page_inner \<Rightarrow> page_inner" where
  "set_wal_tag frame epoch p = p\<lparr>wal_tag := pack_tag_pair frame (epoch AND EPOCH_MAX)\<rparr>"

definition wal_tag_pair :: "page_inner \<Rightarrow> u64 \<times> u32" where
  "wal_tag_pair p = unpack_tag_pair (wal_tag p)"

definition has_wal_tag :: "page_inner \<Rightarrow> bool" where
  "has_wal_tag p \<longleftrightarrow> wal_tag p \<noteq> TAG_UNSET \<and> wal_tag p \<noteq> TAG_WRITE_PENDING"

definition set_write_pending :: "page_inner \<Rightarrow> page_inner" where
  "set_write_pending p = p\<lparr>wal_tag := TAG_WRITE_PENDING\<rparr>"

definition try_set_wal_tag :: "u64 \<Rightarrow> u32 \<Rightarrow> page_inner \<Rightarrow> bool \<times> page_inner" where
  "try_set_wal_tag frame epoch p =
     (let new_tag = pack_tag_pair frame epoch
      in if wal_tag p = TAG_UNSET then (False, p) else (True, p\<lparr>wal_tag := new_tag\<rparr>))"

definition is_valid_for_checkpoint :: "u64 \<Rightarrow> u32 \<Rightarrow> page_inner \<Rightarrow> bool" where
  "is_valid_for_checkpoint target_frame epoch p \<longleftrightarrow>
     (let (f, s) = wal_tag_pair p
      in f = target_frame \<and> s = epoch \<and> \<not> is_dirty p \<and> is_loaded p \<and> \<not> is_locked p)"

section \<open>Flags\<close>

lemma flag_bits:
  "PAGE_LOCKED = 2 ^ 1" "PAGE_DIRTY = 2 ^ 3" "PAGE_LOADED = 2 ^ 4" "PAGE_SPILLED = 2 ^ 5"
  by (simp_all add: PAGE_LOCKED_def PAGE_DIRTY_def PAGE_LOADED_def PAGE_SPILLED_def)

lemma flag_reads:
  "is_locked p \<longleftrightarrow> bit (flags p) 1" "is_dirty p \<longleftrightarrow> bit (flags p) 3"
  "is_loaded p \<longleftrightarrow> bit (flags p) 4" "is_spilled p \<longleftrightarrow> bit (flags p) 5"
  unfolding is_locked_def is_dirty_def is_loaded_def is_spilled_def flag_bits and_exp_eq_0_iff_not_bit by simp_all

lemma flag_bit:
  "bit PAGE_LOCKED n \<longleftrightarrow> n = 1" "bit PAGE_DIRTY n \<longleftrightarrow> n = 3"
  "bit PAGE_LOADED n \<longleftrightarrow> n = 4" "bit PAGE_SPILLED n \<longleftrightarrow> n = 5"
  by (simp_all only: flag_bits bit_exp_iff possible_bit_word) auto

lemma flag_writes:
  "bit (flags (set_locked p)) n \<longleftrightarrow> n = 1 \<or> bit (flags p) n"
  "bit (flags (clear_locked p)) n \<longleftrightarrow> n \<noteq> 1 \<and> bit (flags p) n"
  "bit (flags (set_dirty p)) n \<longleftrightarrow> n = 3 \<or> n \<noteq> 5 \<and> bit (flags p) n"
  "bit (flags (clear_dirty p)) n \<longleftrightarrow> n \<noteq> 3 \<and> bit (flags p) n"
  "bit (flags (clear_dirty_keep_wal_tag p)) n \<longleftrightarrow> n \<noteq> 3 \<and> bit (flags p) n"
  "bit (flags (set_spilled p)) n \<longleftrightarrow> n = 5 \<or> bit (flags p) n"
  "bit (flags (clear_spilled p)) n \<longleftrightarrow> n \<noteq> 5 \<and> bit (flags p) n"
  "bit (flags (set_loaded p)) n \<longleftrightarrow> n = 4 \<or> bit (flags p) n"
  "bit (flags (clear_loaded p)) n \<longleftrightarrow> n \<noteq> 4 \<and> bit (flags p) n"
  unfolding set_locked_def clear_locked_def set_dirty_def clear_dirty_def clear_dirty_keep_wal_tag_def
    set_spilled_def clear_spilled_def set_loaded_def clear_loaded_def clear_wal_tag_def Let_def
  by (auto simp: bit_simps flag_bit dest: bit_imp_le_length)

lemmas page_flag_simps = flag_reads flag_writes

lemma tag_frame_masks: "FRAME_MAX = mask 44" "EPOCH_MAX = mask 20"
  by (simp_all add: FRAME_MAX_def EPOCH_MAX_def mask_eq_exp_minus_1)

text \<open>Packing keeps the low 44 bits of the frame and the low 20 bits of the epoch.\<close>

lemma unpack_pack_tag:
  "unpack_tag_pair (pack_tag_pair frame epoch) = (frame AND FRAME_MAX, epoch AND EPOCH_MAX)"
proof -
  have "(push_bit 44 (ucast epoch) OR (frame AND FRAME_MAX)) AND FRAME_MAX = frame AND FRAME_MAX"
    by (rule bit_eqI) (auto simp: tag_frame_masks bit_simps)
  moreover have "ucast (drop_bit 44 (push_bit 44 (ucast epoch) OR (frame AND FRAME_MAX)) AND (ucast EPOCH_MAX :: u64))
      = epoch AND EPOCH_MAX"
    by (rule bit_eqI) (auto simp: tag_frame_masks bit_simps)
  ultimately show ?thesis by (simp add: unpack_tag_pair_def pack_tag_pair_def)
qed

lemma pack_unpack_tag: "(case unpack_tag_pair t of (f, e) \<Rightarrow> pack_tag_pair f e) = t"
proof -
  have "push_bit 44 (ucast (ucast (drop_bit 44 t AND (ucast EPOCH_MAX :: u64)) :: u32)) OR (t AND FRAME_MAX AND FRAME_MAX) = t"
  proof (rule bit_eqI)
    fix n assume "possible_bit TYPE(u64) n"
    then have "n < 64" by simp
    then show "bit (push_bit 44 (ucast (ucast (drop_bit 44 t AND (ucast EPOCH_MAX :: u64)) :: u32)) OR
        (t AND FRAME_MAX AND FRAME_MAX)) n = bit t n"
      by (cases "n < 44") (auto simp: tag_frame_masks bit_simps)
  qed
  then show ?thesis by (simp add: unpack_tag_pair_def pack_tag_pair_def)
qed

lemma pack_tag_eq_iff:
  "pack_tag_pair f e = t \<longleftrightarrow> unpack_tag_pair t = (f AND FRAME_MAX, e AND EPOCH_MAX)"
proof
  assume "unpack_tag_pair t = (f AND FRAME_MAX, e AND EPOCH_MAX)"
  then have "pack_tag_pair (f AND FRAME_MAX) (e AND EPOCH_MAX) = t" using pack_unpack_tag[of t] by simp
  moreover have "pack_tag_pair (f AND FRAME_MAX) (e AND EPOCH_MAX) = pack_tag_pair f e"
    by (rule bit_eqI) (auto simp: pack_tag_pair_def tag_frame_masks bit_simps)
  ultimately show "pack_tag_pair f e = t" by simp
qed (use unpack_pack_tag in auto)

lemma unpack_sentinels:
  "unpack_tag_pair TAG_UNSET = (FRAME_MAX, EPOCH_MAX)"
  "unpack_tag_pair TAG_WRITE_PENDING = (FRAME_MAX - 1, EPOCH_MAX)"
  by code_simp+

lemma and_mask_id: "unat w < 2 ^ n \<Longrightarrow> w AND mask n = (w :: 'a::len word)"
  by (simp add: word_unat_eq_iff unsigned_take_bit_eq take_bit_nat_eq_self flip: take_bit_eq_mask)

lemma frame_max_id: "f \<le> FRAME_MAX \<Longrightarrow> f AND FRAME_MAX = f" "e \<le> EPOCH_MAX \<Longrightarrow> e AND EPOCH_MAX = e"
proof -
  have "unat FRAME_MAX = 2 ^ 44 - 1" "unat EPOCH_MAX = 2 ^ 20 - 1"
    by (simp_all add: FRAME_MAX_def EPOCH_MAX_def)
  then show "f \<le> FRAME_MAX \<Longrightarrow> f AND FRAME_MAX = f" "e \<le> EPOCH_MAX \<Longrightarrow> e AND EPOCH_MAX = e"
    unfolding tag_frame_masks word_le_nat_alt by (auto intro!: and_mask_id)
qed

section \<open>Properties of page states\<close>



lemma unat_and_mask: "unat (w AND mask n) = unat (w :: 'a::len word) mod 2 ^ n"
  unfolding take_bit_eq_mask[symmetric] unsigned_take_bit_eq by (simp only: take_bit_eq_mod)

text \<open>
  C38. For every frame and epoch the tag holds the frame modulo \<open>2 ^ 44\<close> and the epoch modulo \<open>2 ^ 20\<close>,
  and it is valid unless these two are a sentinel's. So a frame or an epoch outside its bit field is cut
  off and names another frame, where the documentation of \<open>set_wal_tag\<close> promises an unset tag.
\<close>

theorem set_wal_tag_truncates:
  "(case wal_tag_pair (set_wal_tag frame epoch p) of (f, e) \<Rightarrow>
      unat f = unat frame mod 2 ^ 44 \<and> unat e = unat epoch mod 2 ^ 20) \<and>
   (has_wal_tag (set_wal_tag frame epoch p) \<longleftrightarrow>
      (unat epoch mod 2 ^ 20, unat frame mod 2 ^ 44) \<notin> {(2 ^ 20 - 1, 2 ^ 44 - 1), (2 ^ 20 - 1, 2 ^ 44 - 2)})"
proof -
  have m: "unat (frame AND FRAME_MAX) = unat frame mod 2 ^ 44" "unat (epoch AND EPOCH_MAX) = unat epoch mod 2 ^ 20"
    unfolding tag_frame_masks by (rule unat_and_mask)+
  have "unat FRAME_MAX = 2 ^ 44 - 1" "unat (FRAME_MAX - 1) = 2 ^ 44 - 2" "unat EPOCH_MAX = 2 ^ 20 - 1"
    by (simp_all add: FRAME_MAX_def EPOCH_MAX_def)
  note max = this
  have e: "frame AND FRAME_MAX = FRAME_MAX \<longleftrightarrow> unat frame mod 2 ^ 44 = 2 ^ 44 - 1"
    "frame AND FRAME_MAX = FRAME_MAX - 1 \<longleftrightarrow> unat frame mod 2 ^ 44 = 2 ^ 44 - 2"
    "epoch AND EPOCH_MAX = EPOCH_MAX \<longleftrightarrow> unat epoch mod 2 ^ 20 = 2 ^ 20 - 1"
    by (simp_all only: word_unat_eq_iff m max)
  have "has_wal_tag (set_wal_tag frame epoch p) \<longleftrightarrow>
      \<not> (frame AND FRAME_MAX = FRAME_MAX \<and> epoch AND EPOCH_MAX = EPOCH_MAX) \<and>
      \<not> (frame AND FRAME_MAX = FRAME_MAX - 1 \<and> epoch AND EPOCH_MAX = EPOCH_MAX)"
    by (auto simp: set_wal_tag_def has_wal_tag_def pack_tag_eq_iff unpack_sentinels and.assoc)
  then have "has_wal_tag (set_wal_tag frame epoch p) \<longleftrightarrow>
      (unat epoch mod 2 ^ 20, unat frame mod 2 ^ 44) \<notin> {(2 ^ 20 - 1, 2 ^ 44 - 1), (2 ^ 20 - 1, 2 ^ 44 - 2)}"
    unfolding e by blast
  moreover have "wal_tag_pair (set_wal_tag frame epoch p) = (frame AND FRAME_MAX, epoch AND EPOCH_MAX)"
    by (simp add: wal_tag_pair_def set_wal_tag_def unpack_pack_tag and.assoc)
  ultimately show ?thesis using m by (simp only: prod.case)
qed

text \<open>The operations that other code runs on a page while its WAL write is in flight.\<close>

datatype page_event =
    SetDirty | ClearDirty | ClearDirtyKeepTag | SetLocked | ClearLocked | SetSpilled | ClearSpilled
  | SetLoaded | ClearLoaded | Pin | TryUnpin | ClearTag

fun page_step :: "page_event \<Rightarrow> page_inner \<Rightarrow> page_inner" where
  "page_step SetDirty p = set_dirty p"
| "page_step ClearDirty p = clear_dirty p"
| "page_step ClearDirtyKeepTag p = clear_dirty_keep_wal_tag p"
| "page_step SetLocked p = set_locked p"
| "page_step ClearLocked p = clear_locked p"
| "page_step SetSpilled p = set_spilled p"
| "page_step ClearSpilled p = clear_spilled p"
| "page_step SetLoaded p = set_loaded p"
| "page_step ClearLoaded p = clear_loaded p"
| "page_step Pin p = pin p"
| "page_step TryUnpin p = snd (try_unpin p)"
| "page_step ClearTag p = clear_wal_tag p"

definition run_page :: "page_event list \<Rightarrow> page_inner \<Rightarrow> page_inner" where
  "run_page es p = fold page_step es p"

lemma wal_tag_step:
  "wal_tag (page_step e p) = (if e \<in> {SetDirty, ClearDirty, ClearTag} then TAG_UNSET else wal_tag p)"
  by (cases e) (auto simp: set_dirty_def clear_dirty_def clear_dirty_keep_wal_tag_def set_locked_def
      clear_locked_def set_spilled_def clear_spilled_def set_loaded_def clear_loaded_def pin_def
      try_unpin_def clear_wal_tag_def Let_def)

lemma wal_tag_run:
  "wal_tag (run_page es p) = (if set es \<inter> {SetDirty, ClearDirty, ClearTag} = {} then wal_tag p else TAG_UNSET)"
  unfolding run_page_def
  by (induction es arbitrary: p) (auto simp: wal_tag_step simp del: page_step.simps)

text \<open>
  C36. Detection of writes that race with a WAL write: after \<open>set_write_pending\<close> and any sequence
  of page operations, \<open>try_set_wal_tag\<close> attributes the written frame to the page exactly
  when no operation of the sequence modified the page; otherwise the page keeps no valid tag
  and is not used for a checkpoint of any other frame than the sentinel's.
\<close>

theorem wal_write_detects_modification:
  "case try_set_wal_tag frame epoch (run_page es (set_write_pending p)) of (ok, p') \<Rightarrow>
     (ok \<longleftrightarrow> set es \<inter> {SetDirty, ClearDirty, ClearTag} = {}) \<and>
     (if ok then wal_tag_pair p' = (frame AND FRAME_MAX, epoch AND EPOCH_MAX)
      else \<not> has_wal_tag p' \<and> wal_tag_pair p' = (FRAME_MAX, EPOCH_MAX))"
proof -
  have "TAG_WRITE_PENDING \<noteq> TAG_UNSET" by (simp add: TAG_WRITE_PENDING_def TAG_UNSET_def)
  then show ?thesis
    using wal_tag_run[of es "set_write_pending p"]
    by (auto simp: try_set_wal_tag_def set_write_pending_def wal_tag_pair_def has_wal_tag_def
        unpack_pack_tag unpack_sentinels Let_def)
qed

section \<open>The flag word as a set of flags\<close>

datatype page_flag = FLocked | FDirty | FLoaded | FSpilled

fun flag_mask :: "page_flag \<Rightarrow> u64" where
  "flag_mask FLocked = PAGE_LOCKED"
| "flag_mask FDirty = PAGE_DIRTY"
| "flag_mask FLoaded = PAGE_LOADED"
| "flag_mask FSpilled = PAGE_SPILLED"

record page_view =
  view_flags :: "page_flag set"
  view_tag :: u64
  view_pins :: nat

definition view_of :: "page_inner \<Rightarrow> page_view" where
  "view_of p = \<lparr>view_flags = {f. flags p AND flag_mask f \<noteq> 0}, view_tag = wal_tag p, view_pins = pin_count p\<rparr>"

fun view_step :: "page_event \<Rightarrow> page_view \<Rightarrow> page_view" where
  "view_step SetDirty v = v\<lparr>view_flags := insert FDirty (view_flags v - {FSpilled}), view_tag := TAG_UNSET\<rparr>"
| "view_step ClearDirty v = v\<lparr>view_flags := view_flags v - {FDirty}, view_tag := TAG_UNSET\<rparr>"
| "view_step ClearDirtyKeepTag v = v\<lparr>view_flags := view_flags v - {FDirty}\<rparr>"
| "view_step SetLocked v = v\<lparr>view_flags := insert FLocked (view_flags v)\<rparr>"
| "view_step ClearLocked v = v\<lparr>view_flags := view_flags v - {FLocked}\<rparr>"
| "view_step SetSpilled v = v\<lparr>view_flags := insert FSpilled (view_flags v)\<rparr>"
| "view_step ClearSpilled v = v\<lparr>view_flags := view_flags v - {FSpilled}\<rparr>"
| "view_step SetLoaded v = v\<lparr>view_flags := insert FLoaded (view_flags v)\<rparr>"
| "view_step ClearLoaded v = v\<lparr>view_flags := view_flags v - {FLoaded}\<rparr>"
| "view_step Pin v = v\<lparr>view_pins := view_pins v + 1\<rparr>"
| "view_step TryUnpin v = v\<lparr>view_pins := view_pins v - 1\<rparr>"
| "view_step ClearTag v = v\<lparr>view_tag := TAG_UNSET\<rparr>"

definition ALL_FLAGS :: u64 where
  "ALL_FLAGS = PAGE_LOCKED OR PAGE_DIRTY OR PAGE_LOADED OR PAGE_SPILLED"

fun flag_index :: "page_flag \<Rightarrow> nat" where
  "flag_index FLocked = 1"
| "flag_index FDirty = 3"
| "flag_index FLoaded = 4"
| "flag_index FSpilled = 5"

lemma view_flags_bits: "view_flags (view_of p) = {f. bit (flags p) (flag_index f)}"
proof -
  have "flags p AND flag_mask f \<noteq> 0 \<longleftrightarrow> bit (flags p) (flag_index f)" for f
    by (cases f) (simp_all only: flag_mask.simps flag_index.simps flag_bits and_exp_eq_0_iff_not_bit not_not)
  then show ?thesis by (simp add: view_of_def)
qed

lemma flag_index_eq [simp]: "flag_index f = 1 \<longleftrightarrow> f = FLocked" "flag_index f = Suc 0 \<longleftrightarrow> f = FLocked" "flag_index f = 3 \<longleftrightarrow> f = FDirty"
  "flag_index f = 4 \<longleftrightarrow> f = FLoaded" "flag_index f = 5 \<longleftrightarrow> f = FSpilled"
  by (cases f; simp)+

lemma other_bits: "(w AND NOT ALL_FLAGS = w' AND NOT ALL_FLAGS) \<longleftrightarrow> (\<forall>n<64. n \<notin> {1, 3, 4, 5} \<longrightarrow> bit w n = bit w' n)"
  by (auto simp: bit_eq_iff bit_simps ALL_FLAGS_def flag_bit)

lemma page_step_flags:
  "view_flags (view_of (page_step e p)) = view_flags (view_step e (view_of p))"
  "flags (page_step e p) AND NOT ALL_FLAGS = flags p AND NOT ALL_FLAGS"
proof -
  show "view_flags (view_of (page_step e p)) = view_flags (view_step e (view_of p))"
    by (cases e) (auto simp: view_flags_bits flag_writes pin_def try_unpin_def clear_wal_tag_def)
  show "flags (page_step e p) AND NOT ALL_FLAGS = flags p AND NOT ALL_FLAGS"
    unfolding other_bits by (cases e) (auto simp: flag_writes pin_def try_unpin_def clear_wal_tag_def)
qed

lemma page_step_rest:
  "wal_tag (page_step e p) = view_tag (view_step e (view_of p))" "pin_count (page_step e p) = view_pins (view_step e (view_of p))"
  "buffer (page_step e p) = buffer p" "inner_id (page_step e p) = inner_id p" "pending_cells (page_step e p) = pending_cells p"
  by (cases e; simp add: view_of_def set_dirty_def clear_dirty_def clear_dirty_keep_wal_tag_def set_locked_def
      clear_locked_def set_spilled_def clear_spilled_def set_loaded_def clear_loaded_def pin_def
      try_unpin_def clear_wal_tag_def Let_def)+

lemma page_step_refines: "view_of (page_step e p) = view_step e (view_of p)"
  using page_step_flags(1)[of e p] page_step_rest(1,2)[of e p] by (simp add: view_of_def)

text \<open>
  C39. The flag word is a set of four independent flags: every sequence of operations that set or clear
  flags, pin, unpin or clear the tag does on the word, the tag and the pin count what it does on a set
  of flags, where \<open>set_dirty\<close> also takes back the spilled mark and, like \<open>clear_dirty\<close>, the tag; no other
  bit of the word, and nothing else of the page, changes.
\<close>

theorem page_run_refines:
  "view_of (run_page es p) = fold view_step es (view_of p) \<and>
   flags (run_page es p) AND NOT ALL_FLAGS = flags p AND NOT ALL_FLAGS \<and>
   buffer (run_page es p) = buffer p \<and> inner_id (run_page es p) = inner_id p \<and> pending_cells (run_page es p) = pending_cells p"
  unfolding run_page_def
  by (induction es arbitrary: p) (simp_all add: page_step_refines page_step_flags(2) page_step_rest del: page_step.simps view_step.simps)

end
