(* ===== verification/PageCache.thy ===== *)
theory PageCache
  imports PageState
begin

text \<open>
  The page cache of \<^verbatim>\<open>core/storage/page_cache.rs\<close>: a hash map from page numbers to boxed
  entries, an intrusive queue of the same entries with a clock hand, and SIEVE eviction.
  Entries live in an explicit heap, so that the raw pointers of the source (map values, queue
  links, clock hand) are addresses; following an address that holds no entry, or starting a
  queue cursor at an entry that is not linked, is undefined behaviour there and the value
  \<open>CacheAbort\<close> here, as is a failed assertion. The pages are shared objects: the cache stores
  references, \<open>pages\<close> is their state and \<open>strong_count\<close> the number of owners of each. The
  iteration order of the hash map is the order of the association list that stands for it.
  Operations return the state also when they fail, because the source keeps it.
\<close>

section \<open>State\<close>

type_synonym page_ref = nat
type_synonym entry_ptr = nat

datatype cache_error =
    CacheInternalError
  | Locked nat
  | Dirty nat
  | Pinned nat
  | Full
  | KeyExists
  | CacheAbort

record cache_entry =
  entry_key :: nat
  entry_page :: page_ref
  ref_bit :: nat

record page_cache =
  capacity :: nat
  cmap :: "(nat \<times> entry_ptr) list"
  heap :: "entry_ptr \<Rightarrow> cache_entry option"
  queue :: "entry_ptr list"
  clock_hand :: "entry_ptr option"
  spill_threshold :: nat
  spill_enabled :: bool
  evictable_count :: nat
  next_addr :: entry_ptr
  pages :: "page_ref \<Rightarrow> page_inner"
  strong_count :: "page_ref \<Rightarrow> nat"

text \<open>The \<open>?\<close> operator with the state passed on.\<close>

fun then_do ::
    "(cache_error + 'a) \<times> page_cache \<Rightarrow> ('a \<Rightarrow> page_cache \<Rightarrow> (cache_error + 'b) \<times> page_cache) \<Rightarrow>
     (cache_error + 'b) \<times> page_cache" where
  "then_do (Inl e, c) f = (Inl e, c)"
| "then_do (Inr x, c) f = f x c"

section \<open>Entries, pages and the queue\<close>

definition entry_new :: "nat \<Rightarrow> page_ref \<Rightarrow> cache_entry" where
  "entry_new key r = \<lparr>entry_key = key, entry_page = r, ref_bit = 0\<rparr>"

definition bump_ref :: "cache_entry \<Rightarrow> cache_entry" where
  "bump_ref e = e\<lparr>ref_bit := min (ref_bit e + 1) 3\<rparr>"

definition decrement_ref :: "cache_entry \<Rightarrow> cache_entry" where
  "decrement_ref e = e\<lparr>ref_bit := ref_bit e - 1\<rparr>"

definition set_entry :: "entry_ptr \<Rightarrow> cache_entry \<Rightarrow> page_cache \<Rightarrow> page_cache" where
  "set_entry p e c = c\<lparr>heap := (heap c)(p := Some e)\<rparr>"

definition update_page :: "page_ref \<Rightarrow> (page_inner \<Rightarrow> page_inner) \<Rightarrow> page_cache \<Rightarrow> page_cache" where
  "update_page r f c = c\<lparr>pages := (pages c)(r := f (pages c r))\<rparr>"

text \<open>Cloning and dropping an \<open>Arc\<close>.\<close>

definition clone_ref :: "page_ref \<Rightarrow> page_cache \<Rightarrow> page_cache" where
  "clone_ref r c = c\<lparr>strong_count := (strong_count c)(r := strong_count c r + 1)\<rparr>"

definition drop_ref :: "page_ref \<Rightarrow> page_cache \<Rightarrow> page_cache" where
  "drop_ref r c = c\<lparr>strong_count := (strong_count c)(r := strong_count c r - 1)\<rparr>"

fun next_in :: "'a list \<Rightarrow> 'a \<Rightarrow> 'a option" where
  "next_in [] x = None"
| "next_in (y # ys) x = (if y = x then (case ys of [] \<Rightarrow> None | z # _ \<Rightarrow> Some z) else next_in ys x)"

fun insert_after :: "'a \<Rightarrow> 'a \<Rightarrow> 'a list \<Rightarrow> 'a list" where
  "insert_after h x [] = []"
| "insert_after h x (y # ys) = (if y = h then y # x # ys else y # insert_after h x ys)"

definition advance_clock_hand :: "page_cache \<Rightarrow> page_cache" where
  "advance_clock_hand c =
     (case clock_hand c of
        None \<Rightarrow> c
      | Some h \<Rightarrow>
          (case next_in (queue c) h of
             Some n \<Rightarrow> c\<lparr>clock_hand := Some n\<rparr>
           | None \<Rightarrow> c\<lparr>clock_hand := (case queue c of [] \<Rightarrow> None | f # _ \<Rightarrow> Some f)\<rparr>))"

text \<open>\<open>cursor.remove()\<close>: the entry is unlinked and dropped together with its page reference.\<close>

definition unlink_entry :: "entry_ptr \<Rightarrow> cache_entry \<Rightarrow> page_cache \<Rightarrow> (cache_error + unit) \<times> page_cache" where
  "unlink_entry p e c =
     (if p \<in> set (queue c)
      then (Inr (), drop_ref (entry_page e) (c\<lparr>queue := remove1 p (queue c), heap := (heap c)(p := None)\<rparr>))
      else (Inl CacheAbort, c))"

text \<open>Moving the hand off an entry that is about to be removed.\<close>

definition leave_entry :: "entry_ptr \<Rightarrow> page_cache \<Rightarrow> page_cache" where
  "leave_entry p c =
     (let c = advance_clock_hand c
      in if clock_hand c = Some p then c\<lparr>clock_hand := None\<rparr> else c)"

definition cache_len :: "page_cache \<Rightarrow> nat" where
  "cache_len c = length (cmap c)"

definition map_remove :: "nat \<Rightarrow> page_cache \<Rightarrow> page_cache" where
  "map_remove key c = c\<lparr>cmap := filter (\<lambda>(k, _). k \<noteq> key) (cmap c)\<rparr>"

definition map_insert :: "nat \<Rightarrow> entry_ptr \<Rightarrow> page_cache \<Rightarrow> page_cache" where
  "map_insert key p c = c\<lparr>cmap := (key, p) # filter (\<lambda>(k, _). k \<noteq> key) (cmap c)\<rparr>"

definition contains_key :: "page_cache \<Rightarrow> nat \<Rightarrow> bool" where
  "contains_key c key \<longleftrightarrow> map_of (cmap c) key \<noteq> None"

section \<open>Classification of pages\<close>

definition counted_as_evictable :: "page_inner \<Rightarrow> bool" where
  "counted_as_evictable pg \<longleftrightarrow> (if inner_id pg = 1 then False else \<not> is_dirty pg \<or> is_spilled pg)"

definition evictable :: "page_cache \<Rightarrow> page_ref \<Rightarrow> bool" where
  "evictable c r \<longleftrightarrow>
     (let pg = pages c r
      in (\<not> is_dirty pg \<or> is_spilled pg) \<and> \<not> is_locked pg \<and> \<not> is_pinned pg \<and> inner_id pg \<noteq> 1 \<and>
         strong_count c r = 1)"

definition spillable :: "page_cache \<Rightarrow> page_ref \<Rightarrow> bool" where
  "spillable c r \<longleftrightarrow>
     (let pg = pages c r
      in is_dirty pg \<and> \<not> is_spilled pg \<and> \<not> is_locked pg \<and> \<not> is_pinned pg \<and>
         strong_count c r = 1 \<and> inner_id pg \<noteq> 1 \<and> pending_cells pg = [])"

section \<open>Construction\<close>

definition new_with_spill :: "nat \<Rightarrow> bool \<Rightarrow> (page_ref \<Rightarrow> page_inner) \<Rightarrow> (page_ref \<Rightarrow> nat) \<Rightarrow> page_cache" where
  "new_with_spill cap enabled pgs cnt =
     \<lparr>capacity = cap, cmap = [], heap = (\<lambda>_. None), queue = [], clock_hand = None,
      spill_threshold = max (cap * 90 div 100) 1, spill_enabled = enabled, evictable_count = 0,
      next_addr = 0, pages = pgs, strong_count = cnt\<rparr>"

section \<open>Removal and eviction\<close>

definition evict_page :: "page_inner \<Rightarrow> page_inner" where
  "evict_page pg = take_buffer (clear_loaded pg)"

definition cache_delete_gen :: "nat \<Rightarrow> bool \<Rightarrow> page_cache \<Rightarrow> (cache_error + unit) \<times> page_cache" where
  "cache_delete_gen key clean_page c =
     (case map_of (cmap c) key of
        None \<Rightarrow> (Inr (), c)
      | Some p \<Rightarrow>
          (case heap c p of
             None \<Rightarrow> (Inl CacheAbort, c)
           | Some e \<Rightarrow>
               let r = entry_page e; pg = pages c r
               in if is_locked pg then (Inl (Locked (inner_id pg)), c)
                  else if is_dirty pg then (Inl (Dirty (inner_id pg)), c)
                  else if is_pinned pg then (Inl (Pinned (inner_id pg)), c)
                  else
                    let was_evictable = counted_as_evictable pg;
                        c = (if clean_page then update_page r evict_page c else c);
                        c = map_remove key c;
                        c = (if clock_hand c = Some p then leave_entry p c else c)
                    in then_do (unlink_entry p e c) (\<lambda>_ c.
                       (Inr (), if was_evictable then c\<lparr>evictable_count := evictable_count c - 1\<rparr> else c))))"

definition cache_delete :: "nat \<Rightarrow> page_cache \<Rightarrow> (cache_error + unit) \<times> page_cache" where
  "cache_delete key c = cache_delete_gen key True c"

text \<open>The sweep of the clock hand; \<open>n\<close> is the number of examinations left.\<close>

fun evict_loop :: "nat \<Rightarrow> page_cache \<Rightarrow> (cache_error + unit) \<times> page_cache" where
  "evict_loop 0 c = (Inl Full, c)"
| "evict_loop (Suc n) c =
     (case clock_hand c of
        None \<Rightarrow> (Inl CacheAbort, c)
      | Some p \<Rightarrow>
          (case heap c p of
             None \<Rightarrow> (Inl CacheAbort, c)
           | Some e \<Rightarrow>
               if evictable c (entry_page e) \<and> ref_bit e = 0 then
                 if \<not> counted_as_evictable (pages c (entry_page e)) then (Inl CacheAbort, c)
                 else
                   let c = leave_entry p c;
                       c = map_remove (entry_key e) c;
                       c = update_page (entry_page e) evict_page c
                   in then_do (unlink_entry p e c) (\<lambda>_ c.
                      (Inr (), c\<lparr>evictable_count := evictable_count c - 1\<rparr>))
               else if evictable c (entry_page e) then
                 evict_loop n (advance_clock_hand (set_entry p (decrement_ref e) c))
               else evict_loop n (advance_clock_hand c)))"

definition evict_one :: "page_cache \<Rightarrow> (cache_error + unit) \<times> page_cache" where
  "evict_one c =
     (if cache_len c = 0 then (Inl CacheInternalError, c) else evict_loop (cache_len c * 4) c)"

text \<open>A successful eviction shortens the queue, so evicting down to a length ends.\<close>

lemma advance_clock_hand_frame [simp]:
  "queue (advance_clock_hand c) = queue c" "cmap (advance_clock_hand c) = cmap c"
  "heap (advance_clock_hand c) = heap c" "pages (advance_clock_hand c) = pages c"
  "strong_count (advance_clock_hand c) = strong_count c" "next_addr (advance_clock_hand c) = next_addr c"
  "evictable_count (advance_clock_hand c) = evictable_count c" "capacity (advance_clock_hand c) = capacity c"
  "spill_threshold (advance_clock_hand c) = spill_threshold c"
  "spill_enabled (advance_clock_hand c) = spill_enabled c"
  by (auto simp: advance_clock_hand_def split: option.splits)

lemma leave_entry_frame [simp]:
  "queue (leave_entry p c) = queue c" "cmap (leave_entry p c) = cmap c"
  "heap (leave_entry p c) = heap c" "pages (leave_entry p c) = pages c"
  "strong_count (leave_entry p c) = strong_count c" "next_addr (leave_entry p c) = next_addr c"
  "evictable_count (leave_entry p c) = evictable_count c" "capacity (leave_entry p c) = capacity c"
  "spill_threshold (leave_entry p c) = spill_threshold c"
  "spill_enabled (leave_entry p c) = spill_enabled c"
  by (auto simp: leave_entry_def Let_def)

lemma remove1_shorter: "x \<in> set xs \<Longrightarrow> length (remove1 x xs) < length xs"
  using length_pos_if_in_set[of x xs] by (simp add: length_remove1)

lemma evict_loop_queue:
  "evict_loop n c = (Inr (), c') \<Longrightarrow> length (queue c') < length (queue c)"
proof (induction n c rule: evict_loop.induct)
  case (2 n c)
  then show ?case
    by (auto simp: unlink_entry_def map_remove_def update_page_def drop_ref_def set_entry_def
        Let_def split: option.splits if_splits intro: remove1_shorter)
qed simp

function evict_to :: "nat \<Rightarrow> page_cache \<Rightarrow> (cache_error + unit) \<times> page_cache" where
  "evict_to target_len c =
     (if cache_len c > target_len then
        (case evict_one c of
           (Inl e, c) \<Rightarrow> (Inl e, c)
         | (Inr _, c) \<Rightarrow> evict_to target_len c)
      else (Inr (), c))"
  by pat_completeness auto
termination
  by (relation "measure (\<lambda>(_, c). length (queue c))")
    (auto simp: evict_one_def intro: evict_loop_queue split: if_splits dest!: sym[of "(Inr _, _)"])

declare evict_to.simps [simp del]

definition make_room_for :: "nat \<Rightarrow> bool \<Rightarrow> page_cache \<Rightarrow> (cache_error + unit) \<times> page_cache" where
  "make_room_for n bypass_capacity c =
     (if bypass_capacity then (Inr (), c)
      else if n > capacity c then (Inl Full, c)
      else evict_to (capacity c - n) c)"

section \<open>Insertion\<close>

text \<open>
  The treatment of a key that is already cached: \<open>Inr True\<close> when the operation is finished,
  \<open>Inr False\<close> when a fresh entry is to be inserted.
\<close>

definition insert_existing ::
    "nat \<Rightarrow> page_ref \<Rightarrow> bool \<Rightarrow> page_cache \<Rightarrow> (cache_error + bool) \<times> page_cache" where
  "insert_existing key value update_in_place c =
     (case map_of (cmap c) key of
        None \<Rightarrow> (Inr False, c)
      | Some p \<Rightarrow>
          (case heap c p of
             None \<Rightarrow> (Inl CacheAbort, c)
           | Some e \<Rightarrow>
               let pg = pages c (entry_page e)
               in if \<not> is_loaded pg \<and> \<not> is_locked pg then
                    then_do (cache_delete_gen key True c) (\<lambda>_ c. (Inr False, c))
                  else if update_in_place then
                    let old_evictable = counted_as_evictable pg;
                        new_evictable = counted_as_evictable (pages c value);
                        c = (if old_evictable \<and> \<not> new_evictable then c\<lparr>evictable_count := evictable_count c - 1\<rparr>
                             else if \<not> old_evictable \<and> new_evictable then c\<lparr>evictable_count := evictable_count c + 1\<rparr>
                             else c);
                        c = set_entry p ((bump_ref e)\<lparr>entry_page := value\<rparr>) c
                    in (Inr True, drop_ref (entry_page e) c)
                  else
                    let c = set_entry p (bump_ref e) c
                    in if entry_page e = value then (Inl KeyExists, c) else (Inl CacheAbort, c)))"

definition link_entry :: "nat \<Rightarrow> page_ref \<Rightarrow> page_cache \<Rightarrow> (cache_error + unit) \<times> page_cache" where
  "link_entry key value c =
     (let p = next_addr c;
          c = c\<lparr>heap := (heap c)(p := Some (entry_new key value)), next_addr := p + 1\<rparr>
      in case clock_hand c of
           None \<Rightarrow>
             let c = c\<lparr>queue := queue c @ [p]\<rparr>;
                 c = map_insert key p c
             in (Inr (), c\<lparr>clock_hand := Some p\<rparr>)
         | Some h \<Rightarrow>
             if h \<in> set (queue c)
             then (Inr (), map_insert key p (c\<lparr>queue := insert_after h p (queue c)\<rparr>))
             else (Inl CacheAbort, c))"

definition cache_insert_gen ::
    "nat \<Rightarrow> page_ref \<Rightarrow> bool \<Rightarrow> bool \<Rightarrow> page_cache \<Rightarrow> (cache_error + unit) \<times> page_cache" where
  "cache_insert_gen key value update_in_place bypass_capacity c =
     (case
        then_do (insert_existing key value update_in_place c) (\<lambda>finished c.
        if finished then (Inr (), c)
        else
          then_do (make_room_for 1 bypass_capacity c) (\<lambda>_ c.
          let is_evictable = counted_as_evictable (pages c value)
          in then_do (link_entry key value c) (\<lambda>_ c.
             (Inr (), if is_evictable then c\<lparr>evictable_count := evictable_count c + 1\<rparr> else c))))
      of (Inl e, c) \<Rightarrow> (Inl e, drop_ref value c)
       | (Inr x, c) \<Rightarrow> (Inr x, c))"

definition cache_insert :: "nat \<Rightarrow> page_ref \<Rightarrow> page_cache \<Rightarrow> (cache_error + unit) \<times> page_cache" where
  "cache_insert key value c = cache_insert_gen key value False False c"

definition upsert_page :: "nat \<Rightarrow> page_ref \<Rightarrow> page_cache \<Rightarrow> (cache_error + unit) \<times> page_cache" where
  "upsert_page key value c = cache_insert_gen key value True False c"

definition force_upsert_page :: "nat \<Rightarrow> page_ref \<Rightarrow> page_cache \<Rightarrow> (cache_error + unit) \<times> page_cache" where
  "force_upsert_page key value c =
     (case upsert_page key value (clone_ref value c) of
        (Inl Full, c) \<Rightarrow> cache_insert_gen key value True True c
      | (res, c) \<Rightarrow> (res, drop_ref value c))"

definition force_insert_page :: "nat \<Rightarrow> page_ref \<Rightarrow> page_cache \<Rightarrow> (cache_error + unit) \<times> page_cache" where
  "force_insert_page key value c =
     (case cache_insert key value (clone_ref value c) of
        (Inl Full, c) \<Rightarrow> cache_insert_gen key value False True c
      | (res, c) \<Rightarrow> (res, drop_ref value c))"

section \<open>Lookup\<close>

text \<open>A returned page is a clone of the reference, owned by the caller.\<close>

definition cache_get :: "nat \<Rightarrow> page_cache \<Rightarrow> (cache_error + page_ref option) \<times> page_cache" where
  "cache_get key c =
     (case map_of (cmap c) key of
        None \<Rightarrow> (Inr None, c)
      | Some p \<Rightarrow>
          (case heap c p of
             None \<Rightarrow> (Inl CacheAbort, c)
           | Some e \<Rightarrow>
               let r = entry_page e; pg = pages c r
               in if \<not> is_loaded pg \<and> \<not> is_locked pg then
                    then_do (cache_delete key c) (\<lambda>_ c. (Inr None, c))
                  else (Inr (Some r), clone_ref r (set_entry p (bump_ref e) c))))"

definition cache_peek :: "nat \<Rightarrow> bool \<Rightarrow> page_cache \<Rightarrow> (cache_error + page_ref option) \<times> page_cache" where
  "cache_peek key touch c =
     (case map_of (cmap c) key of
        None \<Rightarrow> (Inr None, c)
      | Some p \<Rightarrow>
          (case heap c p of
             None \<Rightarrow> (Inl CacheAbort, c)
           | Some e \<Rightarrow>
               (Inr (Some (entry_page e)),
                clone_ref (entry_page e) (if touch then set_entry p (bump_ref e) c else c))))"

section \<open>Sizes, spilling and bulk operations\<close>

datatype resize_result = ResizeDone | PendingEvictions

definition cache_resize :: "nat \<Rightarrow> page_cache \<Rightarrow> resize_result \<times> page_cache" where
  "cache_resize new_cap c =
     (if new_cap = capacity c then (ResizeDone, c)
      else case evict_to new_cap c of
             (Inl _, c) \<Rightarrow> (PendingEvictions, c)
           | (Inr _, c) \<Rightarrow>
               (ResizeDone, c\<lparr>capacity := new_cap, spill_threshold := max (new_cap * 90 div 100) 1\<rparr>))"

definition entry_at :: "page_cache \<Rightarrow> entry_ptr \<Rightarrow> cache_entry list" where
  "entry_at c p = (case heap c p of None \<Rightarrow> [] | Some e \<Rightarrow> [e])"

text \<open>The entries behind the values of the map, in iteration order.\<close>

definition map_entries :: "page_cache \<Rightarrow> cache_entry list" where
  "map_entries c = concat (map (\<lambda>(_, p). entry_at c p) (cmap c))"

definition count_evictable_pages :: "page_cache \<Rightarrow> nat" where
  "count_evictable_pages c = length (filter (\<lambda>e. evictable c (entry_page e)) (map_entries c))"

definition needs_spill :: "page_cache \<Rightarrow> bool" where
  "needs_spill c =
     (let len = cache_len c
      in if len < spill_threshold c \<or> \<not> spill_enabled c then False
         else
           let needed_evictable = len - spill_threshold c;
               empty_slots = capacity c - len;
               available_room = evictable_count c + empty_slots
           in if available_room \<ge> needed_evictable then False
              else count_evictable_pages c < needed_evictable)"

definition set_spill_enabled :: "bool \<Rightarrow> page_cache \<Rightarrow> page_cache" where
  "set_spill_enabled enabled c = c\<lparr>spill_enabled := enabled\<rparr>"

definition notify_page_dirty :: "nat \<Rightarrow> page_cache \<Rightarrow> (cache_error + unit) \<times> page_cache" where
  "notify_page_dirty key c =
     (case map_of (cmap c) key of
        None \<Rightarrow> (Inr (), c)
      | Some p \<Rightarrow>
          (case heap c p of
             None \<Rightarrow> (Inl CacheAbort, c)
           | Some e \<Rightarrow>
               (Inr (), if inner_id (pages c (entry_page e)) \<noteq> 1 then c\<lparr>evictable_count := evictable_count c - 1\<rparr> else c)))"

definition notify_page_spilled :: "nat \<Rightarrow> page_cache \<Rightarrow> (cache_error + unit) \<times> page_cache" where
  "notify_page_spilled key c =
     (case map_of (cmap c) key of
        None \<Rightarrow> (Inr (), c)
      | Some p \<Rightarrow>
          (case heap c p of
             None \<Rightarrow> (Inl CacheAbort, c)
           | Some e \<Rightarrow>
               (Inr (), if inner_id (pages c (entry_page e)) \<noteq> 1 then c\<lparr>evictable_count := evictable_count c + 1\<rparr> else c)))"

text \<open>Collecting pages to spill: each one is cloned and pinned by a \<open>PinGuard\<close>.\<close>

fun collect_loop :: "cache_entry list \<Rightarrow> nat \<Rightarrow> page_ref list \<Rightarrow> page_cache \<Rightarrow> page_ref list \<times> page_cache" where
  "collect_loop [] max_pages acc c = (acc, c)"
| "collect_loop (e # es) max_pages acc c =
     (let r = entry_page e;
          (acc, c) = (if spillable c r then (acc @ [r], update_page r pin (clone_ref r c)) else (acc, c))
      in if length acc \<ge> max_pages then (acc, c) else collect_loop es max_pages acc c)"

definition collect_spillable_pages :: "nat \<Rightarrow> page_cache \<Rightarrow> page_ref list \<times> page_cache" where
  "collect_spillable_pages max_pages c =
     (if \<not> spill_enabled c \<or> max_pages = 0 then ([], c)
      else let (acc, c) = collect_loop (map_entries c) max_pages [] c
           in (sort_key (\<lambda>r. inner_id (pages c r)) acc, c))"

datatype spill_result = NotNeeded | PagesToSpill "page_ref list" | CacheFull

definition check_spill :: "nat \<Rightarrow> page_cache \<Rightarrow> spill_result \<times> page_cache" where
  "check_spill max_pages c =
     (if \<not> needs_spill c then (NotNeeded, c)
      else let (pgs, c) = collect_spillable_pages max_pages c
           in if pgs = [] then (CacheFull, c) else (PagesToSpill pgs, c))"

fun first_dirty :: "page_cache \<Rightarrow> cache_entry list \<Rightarrow> nat option" where
  "first_dirty c [] = None"
| "first_dirty c (e # es) =
     (let pg = pages c (entry_page e)
      in if is_dirty pg then Some (inner_id pg) else first_dirty c es)"

definition cache_clear :: "bool \<Rightarrow> page_cache \<Rightarrow> (cache_error + unit) \<times> page_cache" where
  "cache_clear clear_dirty_pages c =
     (case (if clear_dirty_pages then None else first_dirty c (map_entries c)) of
        Some pgno \<Rightarrow> (Inl (Dirty pgno), c)
      | None \<Rightarrow>
          let es = map_entries c;
              c = fold (\<lambda>e. update_page (entry_page e) evict_page) es c;
              qs = concat (map (entry_at c) (queue c));
              c = fold (\<lambda>e. drop_ref (entry_page e)) qs c
          in (Inr (), c\<lparr>cmap := [], queue := [], heap := (\<lambda>p. if p \<in> set (queue c) then None else heap c p),
                clock_hand := None, evictable_count := 0\<rparr>))"

fun delete_all :: "nat list \<Rightarrow> page_cache \<Rightarrow> (cache_error + unit) \<times> page_cache" where
  "delete_all [] c = (Inr (), c)"
| "delete_all (k # ks) c = then_do (cache_delete k c) (\<lambda>_ c. delete_all ks c)"

definition cache_truncate :: "nat \<Rightarrow> page_cache \<Rightarrow> (cache_error + unit) \<times> page_cache" where
  "cache_truncate max_page_num c = delete_all (filter (\<lambda>k. k > max_page_num) (map fst (cmap c))) c"

definition delete_clean_pages_after_wal_frame ::
    "u64 \<Rightarrow> page_cache \<Rightarrow> (cache_error + unit) \<times> page_cache" where
  "delete_clean_pages_after_wal_frame max_frame c =
     delete_all
       (map fst (filter (\<lambda>(_, p). case heap c p of
            None \<Rightarrow> False
          | Some e \<Rightarrow>
              let pg = pages c (entry_page e)
              in \<not> is_dirty pg \<and> has_wal_tag pg \<and> fst (wal_tag_pair pg) > max_frame) (cmap c))) c"

text \<open>The consistency check that the source runs in tests.\<close>

definition cache_integrity_ok :: "page_cache \<Rightarrow> bool" where
  "cache_integrity_ok c \<longleftrightarrow>
     (let seen = map entry_key (concat (map (entry_at c) (queue c)))
      in length (cmap c) = length (queue c) \<and> length (cmap c) = length (remdups seen) \<and>
         list_all (\<lambda>(k, _). k \<in> set seen) (cmap c) \<and>
         (case clock_hand c of
            Some h \<Rightarrow> length (cmap c) \<noteq> 0 \<and>
                      list_all (\<lambda>e. contains_key c (entry_key e)) (entry_at c h) \<and> entry_at c h \<noteq> []
          | None \<Rightarrow> length (cmap c) = 0))"

end
