(* ===== verification/CacheInvariant.thy ===== *)
theory CacheInvariant
  imports PageCache "HOL-Library.Multiset"
begin

text \<open>
  The invariant of the page cache (map, queue, clock hand and heap agree; the counter of
  evictable pages is a lower bound), the SIEVE sweep as a function on the ring of entries,
  and the effect of eviction, removal and linking on the cached pages.
\<close>

section \<open>Well-formed caches\<close>

definition linked :: "page_cache \<Rightarrow> bool" where
  "linked c \<longleftrightarrow>
     distinct (queue c) \<and> distinct (map fst (cmap c)) \<and> dom (heap c) = set (queue c) \<and>
     (\<forall>k p. (k, p) \<in> set (cmap c) \<longleftrightarrow> (\<exists>e. heap c p = Some e \<and> entry_key e = k)) \<and>
     (\<forall>p e. heap c p = Some e \<longrightarrow> p < next_addr c \<and> ref_bit e \<le> 3)"

definition hand_ok :: "page_cache \<Rightarrow> bool" where
  "hand_ok c \<longleftrightarrow> (case clock_hand c of None \<Rightarrow> queue c = [] | Some h \<Rightarrow> h \<in> set (queue c))"

definition cache_wf :: "page_cache \<Rightarrow> bool" where
  "cache_wf c \<longleftrightarrow> linked c \<and> hand_ok c"

definition lookup :: "page_cache \<Rightarrow> nat \<Rightarrow> page_ref option" where
  "lookup c k = map_option entry_page (Option.bind (map_of (cmap c) k) (heap c))"

lemma linkedD:
  assumes "linked c"
  shows "distinct (queue c)" "distinct (map fst (cmap c))" "dom (heap c) = set (queue c)"
    "(k, p) \<in> set (cmap c) \<longleftrightarrow> (\<exists>e. heap c p = Some e \<and> entry_key e = k)"
    "heap c p = Some e \<Longrightarrow> p < next_addr c" "heap c p = Some e \<Longrightarrow> ref_bit e \<le> 3"
  using assms unfolding linked_def by blast+

lemma linked_map_of:
  assumes "linked c"
  shows "map_of (cmap c) k = Some p \<longleftrightarrow> (\<exists>e. heap c p = Some e \<and> entry_key e = k)"
  using linkedD(2,4)[OF assms] map_of_eq_Some_iff by metis

lemma linked_queue: "linked c \<Longrightarrow> heap c p = Some e \<Longrightarrow> p \<in> set (queue c)"
  using linkedD(3) by blast

lemma linked_unique:
  assumes "linked c" "heap c p = Some e" "heap c q = Some e'" "entry_key e = entry_key e'"
  shows "p = q"
  using linked_map_of[OF assms(1)] assms(2-4) by (metis option.inject)

lemma linked_lookup: "linked c \<Longrightarrow> heap c p = Some e \<Longrightarrow> lookup c (entry_key e) = Some (entry_page e)"
proof -
  assume "linked c" "heap c p = Some e"
  then have "map_of (cmap c) (entry_key e) = Some p" by (auto simp: linked_map_of)
  then show ?thesis using \<open>heap c p = Some e\<close> by (simp add: lookup_def)
qed

lemma lookup_Some:
  assumes "linked c"
  shows "lookup c k = Some r \<longleftrightarrow> (\<exists>p e. heap c p = Some e \<and> entry_key e = k \<and> entry_page e = r)"
proof
  assume "lookup c k = Some r"
  then obtain p e where "map_of (cmap c) k = Some p" "heap c p = Some e" "r = entry_page e"
    by (auto simp: lookup_def bind_eq_Some_conv)
  then show "\<exists>p e. heap c p = Some e \<and> entry_key e = k \<and> entry_page e = r"
    using linked_map_of[OF assms, of k p] by auto
qed (use linked_lookup[OF assms] in blast)

lemma linked_length:
  assumes "linked c"
  shows "length (cmap c) = length (queue c)"
proof -
  have d: "distinct (cmap c)" using linkedD(2)[OF assms] by (simp add: distinct_map)
  have "inj_on snd (set (cmap c))"
    using linkedD(4)[OF assms] by (auto intro!: inj_onI)
  then have "card (snd ` set (cmap c)) = length (cmap c)" using d by (simp add: card_image distinct_card)
  moreover have "snd ` set (cmap c) = set (queue c)"
  proof -
    have "snd ` set (cmap c) = {p. \<exists>k. (k, p) \<in> set (cmap c)}" by force
    also have "\<dots> = dom (heap c)" by (auto simp: linkedD(4)[OF assms])
    finally show ?thesis using linkedD(3)[OF assms] by simp
  qed
  ultimately show ?thesis using distinct_card[OF linkedD(1)[OF assms]] by simp
qed

section \<open>The clock hand\<close>

lemma next_in_split: "distinct (xs @ x # ys) \<Longrightarrow> next_in (xs @ x # ys) x = (case ys of [] \<Rightarrow> None | z # _ \<Rightarrow> Some z)"
  by (induction xs) auto

text \<open>The queue read from the hand on.\<close>

definition ring :: "page_cache \<Rightarrow> entry_ptr list" where
  "ring c = (case clock_hand c of
       None \<Rightarrow> []
     | Some h \<Rightarrow> dropWhile (\<lambda>p. p \<noteq> h) (queue c) @ takeWhile (\<lambda>p. p \<noteq> h) (queue c))"

lemma cut_at:
  "h \<notin> set xs \<Longrightarrow> dropWhile (\<lambda>p. p \<noteq> h) (xs @ h # ys) = h # ys"
  "h \<notin> set xs \<Longrightarrow> takeWhile (\<lambda>p. p \<noteq> h) (xs @ h # ys) = xs"
  by (induction xs) auto

lemma ring_split: "clock_hand c = Some h \<Longrightarrow> queue c = xs @ h # ys \<Longrightarrow> h \<notin> set xs \<Longrightarrow> ring c = h # ys @ xs"
  by (simp add: ring_def cut_at)

lemma hand_split:
  assumes "hand_ok c" "clock_hand c = Some h"
  obtains xs ys where "queue c = xs @ h # ys" "h \<notin> set xs"
  using assms by (auto simp: hand_ok_def dest: split_list_first)

lemma ring_set_length: "hand_ok c \<Longrightarrow> set (ring c) = set (queue c) \<and> length (ring c) = length (queue c)"
proof (cases "clock_hand c")
  case (Some h)
  assume "hand_ok c"
  then obtain xs ys where "queue c = xs @ h # ys" "h \<notin> set xs" using Some by (rule hand_split)
  then show ?thesis using ring_split[OF Some] by auto
qed (simp add: ring_def hand_ok_def)

lemma ring_distinct: "hand_ok c \<Longrightarrow> distinct (queue c) \<Longrightarrow> distinct (ring c)"
  by (simp add: card_distinct distinct_card ring_set_length)

text \<open>Advancing the hand rotates the ring by one.\<close>

lemma ring_advance:
  assumes "hand_ok c" "distinct (queue c)" "clock_hand c = Some h"
  shows "ring (advance_clock_hand c) = tl (ring c) @ [h]" "hand_ok (advance_clock_hand c)"
    "clock_hand (advance_clock_hand c) = Some (hd (tl (ring c) @ [h]))"
proof -
  obtain xs ys where q: "queue c = xs @ h # ys" "h \<notin> set xs" using assms(1,3) by (rule hand_split)
  have r: "ring c = h # ys @ xs" using assms(3) q by (rule ring_split)
  have n: "next_in (queue c) h = (case ys of [] \<Rightarrow> None | z # _ \<Rightarrow> Some z)"
    using assms(2) q by (simp add: next_in_split)
  have "ring (advance_clock_hand c) = ys @ xs @ [h] \<and> hand_ok (advance_clock_hand c) \<and>
      clock_hand (advance_clock_hand c) = Some (hd (ys @ xs @ [h]))"
  proof (cases ys)
    case Nil
    show ?thesis
    proof (cases xs)
      case Nil
      then show ?thesis using q n \<open>ys = []\<close> assms(3)
        by (simp add: advance_clock_hand_def ring_def hand_ok_def)
    next
      case (Cons x xs')
      then show ?thesis using q n \<open>ys = []\<close> assms(3)
        by (simp add: advance_clock_hand_def ring_def hand_ok_def)
    qed
  next
    case (Cons y ys')
    then have "y \<notin> set (xs @ [h])" using assms(2) q by auto
    then show ?thesis using q n Cons assms(3)
      by (simp add: advance_clock_hand_def hand_ok_def)
        (subst ring_split[of _ y "xs @ [h]" ys'], simp_all)
  qed
  then show "ring (advance_clock_hand c) = tl (ring c) @ [h]" "hand_ok (advance_clock_hand c)"
    "clock_hand (advance_clock_hand c) = Some (hd (tl (ring c) @ [h]))" using r by simp_all
qed

section \<open>Removing an entry\<close>

lemma linked_remove:
  assumes "linked c" "heap c p = Some e"
    "cmap c' = filter (\<lambda>(k, _). k \<noteq> entry_key e) (cmap c)" "queue c' = remove1 p (queue c)"
    "heap c' = (heap c)(p := None)" "next_addr c' = next_addr c"
  shows "linked c'" "lookup c' = (lookup c)(entry_key e := None)"
proof -
  note l = linkedD[OF assms(1)]
  have u: "q = p" if "heap c q = Some e'" "entry_key e' = entry_key e" for q e'
    using linked_unique[OF assms(1) that(1) assms(2) that(2)] .
  show l': "linked c'"
    unfolding linked_def
  proof (intro conjI allI)
    show "distinct (queue c')" using l(1) assms(4) by simp
    show "distinct (map fst (cmap c'))" using l(2) assms(3) by (simp add: distinct_map_filter)
    show "dom (heap c') = set (queue c')" using l(1,3) assms(4,5) by simp
    show "(k, q) \<in> set (cmap c') \<longleftrightarrow> (\<exists>e'. heap c' q = Some e' \<and> entry_key e' = k)" for k q
      using assms(2) by (auto simp: assms(3,5) l(4) dest: u)
    show "heap c' q = Some e' \<longrightarrow> q < next_addr c' \<and> ref_bit e' \<le> 3" for q e'
      using l(5,6) assms(5,6) by (auto split: if_splits)
  qed
  show "lookup c' = (lookup c)(entry_key e := None)"
  proof (rule ext, rule option.expand)
    fix k
    have *: "lookup c' k = Some r \<longleftrightarrow> ((lookup c)(entry_key e := None)) k = Some r" for r
      using assms(2) by (auto simp: lookup_Some[OF l'] lookup_Some[OF assms(1)] assms(5) dest: u) (metis option.inject)
    show "(lookup c' k = None) = (((lookup c)(entry_key e := None)) k = None)" using * by (metis not_None_eq)
    show "lookup c' k \<noteq> None \<Longrightarrow> ((lookup c)(entry_key e := None)) k \<noteq> None \<Longrightarrow>
        the (lookup c' k) = the (((lookup c)(entry_key e := None)) k)" using * by (metis option.collapse option.sel)
  qed
qed

lemma hand_remove:
  assumes "hand_ok c" "distinct (queue c)" "clock_hand c = Some p" "queue c' = remove1 p (queue c)"
    "clock_hand c' = clock_hand (leave_entry p c)"
  shows "hand_ok c'" "ring c' = tl (ring c)"
proof -
  obtain xs ys where q: "queue c = xs @ p # ys" "p \<notin> set xs" using assms(1,3) by (rule hand_split)
  have r: "ring c = p # ys @ xs" using assms(3) q by (rule ring_split)
  have "clock_hand (advance_clock_hand c) = Some (hd (ys @ xs @ [p]))"
    using ring_advance(3)[OF assms(1-3)] r by simp
  then have h: "clock_hand c' = (if ys @ xs = [] then None else Some (hd (ys @ xs)))"
    using assms(2,5) q by (cases ys; cases xs) (auto simp: leave_entry_def Let_def)
  have q': "queue c' = xs @ ys" using assms(4) q by (simp add: remove1_append)
  show "hand_ok c'" using h q' by (cases ys; cases xs) (auto simp: hand_ok_def)
  have d: "distinct (xs @ ys)" using assms(2) q by auto
  have "ring c' = ys @ xs"
  proof (cases ys)
    case Nil
    then show ?thesis using h q' by (cases xs) (auto simp: ring_def)
  next
    case (Cons y ys')
    then show ?thesis using h q' d by (subst ring_split[of _ y xs ys']) auto
  qed
  then show "ring c' = tl (ring c)" using r by simp
qed

lemma hand_keep:
  assumes "hand_ok c" "clock_hand c \<noteq> Some p" "p \<in> set (queue c)" "distinct (queue c)"
    "queue c' = remove1 p (queue c)" "clock_hand c' = clock_hand c"
  shows "hand_ok c'"
  using assms by (auto simp: hand_ok_def split: option.splits)

section \<open>Eviction\<close>

text \<open>
  The sweep as a function on the ring of entries with their reference counts: an evictable
  entry with count zero is the victim, any other evictable entry loses one count, and the
  entry moves to the end of the ring.
\<close>

fun sieve :: "nat \<Rightarrow> ('a \<Rightarrow> bool) \<Rightarrow> ('a \<times> nat) list \<Rightarrow> ('a \<times> ('a \<times> nat) list) option" where
  "sieve 0 ev xs = None"
| "sieve (Suc n) ev [] = None"
| "sieve (Suc n) ev ((x, r) # xs) =
     (if ev x \<and> r = 0 then Some (x, xs) else sieve n ev (xs @ [(x, if ev x then r - 1 else r)]))"

text \<open>With enough steps the sweep finds a victim whenever there is an evictable entry.\<close>

lemma sieve_finds:
  "i < length xs \<Longrightarrow> ev (fst (xs ! i)) \<Longrightarrow> snd (xs ! i) * length xs + i < n \<Longrightarrow> sieve n ev xs \<noteq> None"
proof (induction n arbitrary: xs i)
  case (Suc n)
  obtain x r ys where xs: "xs = (x, r) # ys" using Suc.prems(1) by (cases xs) auto
  show ?case
  proof (cases "ev x \<and> r = 0")
    case False
    let ?ys = "ys @ [(x, if ev x then r - 1 else r)]"
    have "sieve n ev ?ys \<noteq> None"
    proof (cases i)
      case 0
      then have "0 < r" "ev x" using Suc.prems(2) False xs by auto
      then have "(r - 1) * length xs + length xs = r * length xs" by (cases r) auto
      then show ?thesis using Suc.prems(3) \<open>0 < r\<close> \<open>ev x\<close> 0 xs
        by (intro Suc.IH[of "length ys"]) auto
    next
      case (Suc j)
      then show ?thesis using Suc.prems xs by (intro Suc.IH[of j]) (auto simp: nth_append)
    qed
    then show ?thesis using xs False by simp
  qed (use xs in simp)
qed simp

lemma sieve_finds_all:
  assumes "x \<in> set xs" "ev (fst x)" "\<forall>y\<in>set xs. snd y \<le> 3"
  shows "sieve (length xs * 4) ev xs \<noteq> None"
proof -
  obtain i where i: "i < length xs" "xs ! i = x" using assms(1) by (auto simp: in_set_conv_nth)
  have "snd x * length xs \<le> 3 * length xs" using assms(1,3) by (simp add: mult_le_mono1)
  then have "snd x * length xs + i < length xs * 4" using i(1) by linarith
  then show ?thesis using i assms(2) by (intro sieve_finds[of i]) auto
qed

lemma sieve_evictable: "sieve n ev xs = Some (x, ys) \<Longrightarrow> ev x \<and> x \<in> fst ` set xs \<and> mset (map fst ys) = mset (map fst xs) - {#x#}"
  by (induction n ev xs rule: sieve.induct) (auto split: if_splits)

definition page_at :: "page_cache \<Rightarrow> entry_ptr \<Rightarrow> page_ref" where
  "page_at c p = (case heap c p of None \<Rightarrow> 0 | Some e \<Rightarrow> entry_page e)"

definition ref_at :: "page_cache \<Rightarrow> entry_ptr \<Rightarrow> nat" where
  "ref_at c p = (case heap c p of None \<Rightarrow> 0 | Some e \<Rightarrow> ref_bit e)"

definition ring_view :: "page_cache \<Rightarrow> (entry_ptr \<times> nat) list" where
  "ring_view c = map (\<lambda>p. (p, ref_at c p)) (ring c)"

text \<open>Two states that differ in reference counts and the hand only.\<close>

definition same_entries :: "page_cache \<Rightarrow> page_cache \<Rightarrow> bool" where
  "same_entries c c' \<longleftrightarrow>
     c' = c\<lparr>heap := heap c', clock_hand := clock_hand c'\<rparr> \<and>
     (\<forall>p. map_option (\<lambda>e. (entry_key e, entry_page e)) (heap c' p) =
          map_option (\<lambda>e. (entry_key e, entry_page e)) (heap c p))"

lemma same_entriesD:
  assumes "same_entries c c'"
  shows "queue c' = queue c" "cmap c' = cmap c" "pages c' = pages c" "strong_count c' = strong_count c"
    "next_addr c' = next_addr c" "evictable_count c' = evictable_count c" "capacity c' = capacity c"
    "spill_threshold c' = spill_threshold c" "spill_enabled c' = spill_enabled c"
    "heap c' p = Some e' \<Longrightarrow> \<exists>e. heap c p = Some e \<and> entry_key e = entry_key e' \<and> entry_page e = entry_page e'"
    "page_at c' p = page_at c p" "lookup c' = lookup c" "evictable c' r = evictable c r"
proof -
  have eq: "c' = c\<lparr>heap := heap c', clock_hand := clock_hand c'\<rparr>"
    and h: "map_option (\<lambda>e. (entry_key e, entry_page e)) (heap c' p) =
          map_option (\<lambda>e. (entry_key e, entry_page e)) (heap c p)" for p
    using assms by (auto simp: same_entries_def)
  show f: "queue c' = queue c" "cmap c' = cmap c" "pages c' = pages c" "strong_count c' = strong_count c"
    "next_addr c' = next_addr c" "evictable_count c' = evictable_count c" "capacity c' = capacity c"
    "spill_threshold c' = spill_threshold c" "spill_enabled c' = spill_enabled c"
    by (subst eq, simp)+
  show "heap c' p = Some e' \<Longrightarrow> \<exists>e. heap c p = Some e \<and> entry_key e = entry_key e' \<and> entry_page e = entry_page e'" for p e'
    using h[of p] by (cases "heap c p") auto
  show "page_at c' p = page_at c p" for p
    using h[of p] by (cases "heap c p"; cases "heap c' p") (auto simp: page_at_def)
  have "map_option entry_page (heap c' p) = map_option entry_page (heap c p)" for p
    using h[of p] by (cases "heap c p"; cases "heap c' p") auto
  then have "map_option entry_page (Option.bind x (heap c')) = map_option entry_page (Option.bind x (heap c))" for x
    by (cases x) auto
  then show "lookup c' = lookup c" by (simp add: fun_eq_iff lookup_def f)
  show "evictable c' r = evictable c r" by (simp add: evictable_def f)
qed

lemma same_entries_refl [simp]: "same_entries c c"
  by (simp add: same_entries_def)

lemma same_entries_trans: "same_entries a b \<Longrightarrow> same_entries b c \<Longrightarrow> same_entries a c"
  by (cases a; cases b; cases c) (simp add: same_entries_def)

lemma same_entries_advance [simp]: "same_entries c (advance_clock_hand c)"
  by (auto simp: same_entries_def advance_clock_hand_def split: option.splits)

lemma same_entries_set_ref:
  "heap c p = Some e \<Longrightarrow> entry_key e' = entry_key e \<Longrightarrow> entry_page e' = entry_page e \<Longrightarrow>
     same_entries c (set_entry p e' c)"
  by (auto simp: same_entries_def set_entry_def)

lemma linked_same_entries:
  assumes "linked c" "same_entries c c'" "\<forall>p e. heap c' p = Some e \<longrightarrow> ref_bit e \<le> 3"
  shows "linked c'"
proof -
  have h: "map_option (\<lambda>e. (entry_key e, entry_page e)) (heap c' p) =
          map_option (\<lambda>e. (entry_key e, entry_page e)) (heap c p)" for p
    using assms(2) by (simp add: same_entries_def)
  have k: "(\<exists>e. heap c' p = Some e \<and> entry_key e = k) \<longleftrightarrow> (\<exists>e. heap c p = Some e \<and> entry_key e = k)" for p k
    using h[of p] by (cases "heap c p"; cases "heap c' p") auto
  have d: "dom (heap c') = dom (heap c)"
  proof (rule set_eqI)
    show "p \<in> dom (heap c') \<longleftrightarrow> p \<in> dom (heap c)" for p
      using h[of p] by (cases "heap c p"; cases "heap c' p") auto
  qed
  note f = same_entriesD(1,2,5)[OF assms(2)]
  have "p < next_addr c'" if "heap c' p = Some e" for p e
    using same_entriesD(10)[OF assms(2) that] linkedD(5)[OF assms(1)] f(3) by auto
  then show ?thesis
    unfolding linked_def f(1,2) d k using assms(1,3) by (auto simp: linked_def)
qed

text \<open>The state after evicting the entry \<open>e\<close> at \<open>p\<close>.\<close>

definition evicted :: "entry_ptr \<Rightarrow> page_cache \<Rightarrow> page_cache \<Rightarrow> bool" where
  "evicted p c c' \<longleftrightarrow>
     (\<exists>e. heap c p = Some e \<and> evictable c (entry_page e) \<and>
        queue c' = remove1 p (queue c) \<and> lookup c' = (lookup c)(entry_key e := None) \<and>
        (\<forall>q. q \<noteq> p \<longrightarrow> page_at c' q = page_at c q) \<and>
        pages c' = (pages c)(entry_page e := evict_page (pages c (entry_page e))) \<and>
        strong_count c' = (strong_count c)(entry_page e := strong_count c (entry_page e) - 1) \<and>
        evictable_count c' = evictable_count c - 1 \<and> capacity c' = capacity c \<and>
        spill_threshold c' = spill_threshold c \<and> spill_enabled c' = spill_enabled c)"

lemma evictable_counted: "evictable c r \<Longrightarrow> counted_as_evictable (pages c r)"
  by (auto simp: evictable_def counted_as_evictable_def Let_def)

lemma evicted_same_entries:
  assumes "same_entries c c2" "evicted p c2 c'"
  shows "evicted p c c'"
proof -
  note f = same_entriesD[OF assms(1)]
  obtain e2 where e2: "heap c2 p = Some e2" "evictable c2 (entry_page e2)" "queue c' = remove1 p (queue c2)"
      "lookup c' = (lookup c2)(entry_key e2 := None)" "\<forall>q. q \<noteq> p \<longrightarrow> page_at c' q = page_at c2 q"
      "pages c' = (pages c2)(entry_page e2 := evict_page (pages c2 (entry_page e2)))"
      "strong_count c' = (strong_count c2)(entry_page e2 := strong_count c2 (entry_page e2) - 1)"
      "evictable_count c' = evictable_count c2 - 1" "capacity c' = capacity c2"
      "spill_threshold c' = spill_threshold c2" "spill_enabled c' = spill_enabled c2"
    using assms(2) by (auto simp: evicted_def)
  obtain e where "heap c p = Some e" "entry_key e = entry_key e2" "entry_page e = entry_page e2"
    using f(10)[OF e2(1)] by blast
  then show ?thesis unfolding evicted_def using e2 f by (intro exI[of _ e]) simp
qed

lemma sweep_step:
  assumes "cache_wf c" "clock_hand c = Some h" "same_entries c c1" "clock_hand c1 = Some h"
    "\<forall>q. q \<noteq> h \<longrightarrow> heap c1 q = heap c q" "\<forall>e. heap c1 h = Some e \<longrightarrow> ref_bit e \<le> 3"
  defines "c2 \<equiv> advance_clock_hand c1"
  shows "cache_wf c2" "same_entries c c2" "ring_view c2 = tl (ring_view c) @ [(h, ref_at c1 h)]"
    "(\<lambda>p. evictable c2 (page_at c2 p)) = (\<lambda>p. evictable c (page_at c p))"
proof -
  have wf: "linked c" "hand_ok c" "distinct (queue c)" using assms(1) by (auto simp: cache_wf_def linked_def)
  have q: "queue c1 = queue c" using same_entriesD(1)[OF assms(3)] .
  have hand1: "hand_ok c1" "distinct (queue c1)" "ring c1 = ring c"
    using wf q assms(2,4) by (simp_all add: hand_ok_def ring_def)
  note adv = ring_advance[OF hand1(1,2) assms(4)]
  have "\<forall>p e. heap c1 p = Some e \<longrightarrow> ref_bit e \<le> 3"
    using assms(5,6) linkedD(6)[OF wf(1)] by metis
  then have "linked c1" by (rule linked_same_entries[OF wf(1) assms(3)])
  then have "linked c2" unfolding c2_def using linked_same_entries[OF _ same_entries_advance]
    by (metis advance_clock_hand_frame(3) linkedD(6))
  then show "cache_wf c2" using adv(2) by (simp add: cache_wf_def c2_def)
  show s2: "same_entries c c2" unfolding c2_def by (rule same_entries_trans[OF assms(3) same_entries_advance])
  show "(\<lambda>p. evictable c2 (page_at c2 p)) = (\<lambda>p. evictable c (page_at c p))"
    using same_entriesD[OF s2] by simp
  have ring: "ring c = h # tl (ring c)"
    using assms(2) by (rule hand_split[OF wf(2)]) (simp add: ring_split[OF assms(2)])
  have "h \<notin> set (tl (ring c))" using ring_distinct[OF wf(2,3)] ring by (metis distinct.simps(2))
  then show "ring_view c2 = tl (ring_view c) @ [(h, ref_at c1 h)]"
    using adv(1) hand1(3) assms(5)
    by (auto simp: ring_view_def c2_def map_tl ref_at_def simp flip: map_tl)
qed

lemma evict_loop_sieve:
  assumes "cache_wf c" "queue c \<noteq> []"
  shows "case sieve n (\<lambda>p. evictable c (page_at c p)) (ring_view c) of
      None \<Rightarrow> \<exists>c'. evict_loop n c = (Inl Full, c') \<and> cache_wf c' \<and> same_entries c c'
    | Some (p, rest) \<Rightarrow> \<exists>c'. evict_loop n c = (Inr (), c') \<and> cache_wf c' \<and> evicted p c c' \<and> ring_view c' = rest"
  using assms
proof (induction n arbitrary: c)
  case (Suc n)
  have wf: "linked c" "hand_ok c" "distinct (queue c)"
    using Suc.prems(1) by (auto simp: cache_wf_def linked_def)
  obtain h where h: "clock_hand c = Some h" using wf(2) Suc.prems(2) by (cases "clock_hand c") (auto simp: hand_ok_def)
  obtain e where e: "heap c h = Some e"
    using wf(1,2) h linkedD(3)[OF wf(1)] by (fastforce simp: hand_ok_def)
  have ring: "ring c = h # tl (ring c)"
    using h by (rule hand_split[OF wf(2)]) (simp add: ring_split[OF h])
  have view: "ring_view c = (h, ref_bit e) # map (\<lambda>p. (p, ref_at c p)) (tl (ring c))"
    unfolding ring_view_def by (subst ring) (simp add: ref_at_def e)
  have pg: "page_at c h = entry_page e" by (simp add: page_at_def e)
  consider (victim) "evictable c (entry_page e)" "ref_bit e = 0"
    | (chance) "evictable c (entry_page e)" "ref_bit e \<noteq> 0" | (skip) "\<not> evictable c (entry_page e)" by blast
  then show ?case
  proof cases
    case victim
    let ?c1 = "update_page (entry_page e) evict_page (map_remove (entry_key e) (leave_entry h c))"
    let ?c2 = "drop_ref (entry_page e) (?c1\<lparr>queue := remove1 h (queue ?c1), heap := (heap ?c1)(h := None)\<rparr>)"
    let ?c' = "?c2\<lparr>evictable_count := evictable_count ?c2 - 1\<rparr>"
    have "h \<in> set (queue c)" using wf(2) h by (simp add: hand_ok_def)
    then have run: "evict_loop (Suc n) c = (Inr (), ?c')"
      using h e victim evictable_counted[OF victim(1)]
      by (simp add: unlink_entry_def Let_def update_page_def map_remove_def)
    have fields: "cmap ?c' = filter (\<lambda>(k, _). k \<noteq> entry_key e) (cmap c)" "queue ?c' = remove1 h (queue c)"
      "heap ?c' = (heap c)(h := None)" "next_addr ?c' = next_addr c"
      "clock_hand ?c' = clock_hand (leave_entry h c)"
      by (simp_all add: drop_ref_def update_page_def map_remove_def)
    note l = linked_remove[OF wf(1) e fields(1-4)]
    note r = hand_remove[OF wf(2,3) h fields(2,5)]
    have "cache_wf ?c'" using l(1) r(1) by (simp add: cache_wf_def)
    moreover have "evicted h c ?c'"
      unfolding evicted_def using e victim(1) fields(2,3) l(2)
      by (simp add: drop_ref_def update_page_def map_remove_def page_at_def)
    moreover have "ring_view ?c' = map (\<lambda>p. (p, ref_at c p)) (tl (ring c))"
    proof -
      have "h \<notin> set (tl (ring c))" using ring_distinct[OF wf(2,3)] ring by (metis distinct.simps(2))
      then show ?thesis unfolding ring_view_def r(2) by (auto simp: ref_at_def drop_ref_def update_page_def map_remove_def)
    qed
    ultimately show ?thesis using run view victim pg by auto
  next
    case chance
    let ?c1 = "set_entry h (decrement_ref e) c"
    have s1: "same_entries c ?c1" by (rule same_entries_set_ref[OF e]) (simp_all add: decrement_ref_def)
    have "ref_bit e \<le> 3" using linkedD(6)[OF wf(1) e] .
    then have step: "cache_wf (advance_clock_hand ?c1)" "same_entries c (advance_clock_hand ?c1)"
      "ring_view (advance_clock_hand ?c1) = tl (ring_view c) @ [(h, ref_bit e - 1)]"
      "(\<lambda>p. evictable (advance_clock_hand ?c1) (page_at (advance_clock_hand ?c1) p)) = (\<lambda>p. evictable c (page_at c p))"
      using sweep_step[OF Suc.prems(1) h s1] h
      by (auto simp: set_entry_def decrement_ref_def ref_at_def)
    have "evict_loop (Suc n) c = evict_loop n (advance_clock_hand ?c1)" using h e chance by simp
    moreover have "sieve (Suc n) (\<lambda>p. evictable c (page_at c p)) (ring_view c) =
        sieve n (\<lambda>p. evictable c (page_at c p)) (ring_view (advance_clock_hand ?c1))"
      using view pg chance step(3) by simp
    moreover have "queue (advance_clock_hand ?c1) \<noteq> []" using Suc.prems(2) by (simp add: set_entry_def)
    ultimately show ?thesis using Suc.IH[OF step(1)] step(4)
      by (auto split: option.splits simp del: evict_loop.simps sieve.simps
          intro: same_entries_trans[OF step(2)] evicted_same_entries[OF step(2)])
  next
    case skip
    have step: "cache_wf (advance_clock_hand c)" "same_entries c (advance_clock_hand c)"
      "ring_view (advance_clock_hand c) = tl (ring_view c) @ [(h, ref_bit e)]"
      "(\<lambda>p. evictable (advance_clock_hand c) (page_at (advance_clock_hand c) p)) = (\<lambda>p. evictable c (page_at c p))"
      using sweep_step[OF Suc.prems(1) h same_entries_refl h] linkedD(6)[OF wf(1)] e
      by (auto simp: ref_at_def)
    have "evict_loop (Suc n) c = evict_loop n (advance_clock_hand c)" using h e skip by simp
    moreover have "sieve (Suc n) (\<lambda>p. evictable c (page_at c p)) (ring_view c) =
        sieve n (\<lambda>p. evictable c (page_at c p)) (ring_view (advance_clock_hand c))"
      using view pg skip step(3) by simp
    moreover have "queue (advance_clock_hand c) \<noteq> []" using Suc.prems(2) by simp
    ultimately show ?thesis using Suc.IH[OF step(1)] step(4)
      by (auto split: option.splits simp del: evict_loop.simps sieve.simps
          intro: same_entries_trans[OF step(2)] evicted_same_entries[OF step(2)])
  qed
qed simp

lemma evict_one_cases:
  assumes "cache_wf c" "queue c \<noteq> []"
  shows "if \<exists>p\<in>set (queue c). evictable c (page_at c p)
     then \<exists>p c'. evict_one c = (Inr (), c') \<and> cache_wf c' \<and> evicted p c c'
     else \<exists>c'. evict_one c = (Inl Full, c') \<and> cache_wf c' \<and> same_entries c c'"
proof -
  let ?ev = "\<lambda>p. evictable c (page_at c p)" and ?n = "cache_len c * 4"
  have wf: "linked c" "hand_ok c" using assms(1) by (auto simp: cache_wf_def)
  have len: "length (ring_view c) = cache_len c" "set (ring c) = set (queue c)"
    using linked_length[OF wf(1)] ring_set_length[OF wf(2)] by (simp_all add: ring_view_def cache_len_def)
  have "cache_len c \<noteq> 0" using assms(2) linked_length[OF wf(1)] by (simp add: cache_len_def)
  then have run: "evict_one c = evict_loop ?n c" by (simp add: evict_one_def)
  show ?thesis
  proof (cases "\<exists>p\<in>set (queue c). ?ev p")
    case True
    then obtain p where p: "p \<in> set (queue c)" "?ev p" by blast
    have "\<forall>y\<in>set (ring_view c). snd y \<le> 3"
      using linkedD(6)[OF wf(1)] by (auto simp: ring_view_def ref_at_def split: option.splits)
    then have "sieve ?n ?ev (ring_view c) \<noteq> None"
      using sieve_finds_all[of "(p, ref_at c p)" "ring_view c" ?ev] p len
      by (auto simp: ring_view_def)
    then show ?thesis using evict_loop_sieve[OF assms, of ?n] run p by (fastforce split: option.splits)
  next
    case False
    have "sieve ?n ?ev (ring_view c) = None"
    proof (rule ccontr)
      assume "sieve ?n ?ev (ring_view c) \<noteq> None"
      then obtain p rest where "sieve ?n ?ev (ring_view c) = Some (p, rest)" by (cases "sieve ?n ?ev (ring_view c)") auto
      then have "?ev p" "p \<in> set (ring c)" using sieve_evictable by (fastforce simp: ring_view_def)+
      then show False using False len(2) by blast
    qed
    then show ?thesis using evict_loop_sieve[OF assms, of ?n] run False by auto
  qed
qed

section \<open>The invariant\<close>

definition counted_at :: "page_cache \<Rightarrow> entry_ptr \<Rightarrow> bool" where
  "counted_at c p \<longleftrightarrow> counted_as_evictable (pages c (page_at c p))"

definition counted_total :: "page_cache \<Rightarrow> nat" where
  "counted_total c = length (filter (counted_at c) (queue c))"

text \<open>
  The pointers of map, queue, hand and heap agree, and \<open>evictable_count\<close> does not exceed the
  number of cached pages that are clean or spilled.
\<close>

definition cache_inv :: "page_cache \<Rightarrow> bool" where
  "cache_inv c \<longleftrightarrow> cache_wf c \<and> evictable_count c \<le> counted_total c"

lemma evict_page_flags [simp]:
  "is_dirty (evict_page pg) = is_dirty pg" "is_spilled (evict_page pg) = is_spilled pg"
  "is_locked (evict_page pg) = is_locked pg" "is_pinned (evict_page pg) = is_pinned pg"
  "inner_id (evict_page pg) = inner_id pg" "\<not> is_loaded (evict_page pg)"
proof -
  have "flags (take_buffer p) = flags p" for p by (simp add: take_buffer_def)
  then show "is_dirty (evict_page pg) = is_dirty pg" "is_spilled (evict_page pg) = is_spilled pg"
    "is_locked (evict_page pg) = is_locked pg" "\<not> is_loaded (evict_page pg)"
    by (simp_all add: page_flag_simps evict_page_def)
qed (simp_all add: evict_page_def take_buffer_def clear_loaded_def is_pinned_def)

lemma evict_page_idem [simp]: "evict_page (evict_page pg) = evict_page pg"
proof -
  have "flags (clear_loaded (clear_loaded p)) = flags (clear_loaded p)" for p
    by (rule bit_eqI) (simp add: page_flag_simps)
  then have "clear_loaded (clear_loaded p) = clear_loaded p" for p by (simp add: clear_loaded_def)
  moreover have "clear_loaded (take_buffer p) = take_buffer (clear_loaded p)" for p
    by (simp add: clear_loaded_def take_buffer_def)
  moreover have "take_buffer (take_buffer p) = take_buffer p" for p by (simp add: take_buffer_def)
  ultimately show ?thesis by (simp add: evict_page_def)
qed

lemma counted_evict_page [simp]: "counted_as_evictable (evict_page pg) = counted_as_evictable pg"
  by (simp add: counted_as_evictable_def)

lemma length_filter_remove1:
  "distinct xs \<Longrightarrow> x \<in> set xs \<Longrightarrow> length (filter P (remove1 x xs)) + (if P x then 1 else 0) = length (filter P xs)"
  by (induction xs) auto

lemma counted_total_remove:
  assumes "linked c" "heap c p = Some e" "queue c' = remove1 p (queue c)"
    "\<forall>q. q \<noteq> p \<longrightarrow> page_at c' q = page_at c q"
    "\<forall>r. counted_as_evictable (pages c' r) = counted_as_evictable (pages c r)"
  shows "counted_total c' = counted_total c - (if counted_at c p then 1 else 0)"
proof -
  have p: "p \<in> set (queue c)" and d: "distinct (queue c)"
    using linked_queue[OF assms(1,2)] linkedD(1)[OF assms(1)] by auto
  have "filter (counted_at c') (remove1 p (queue c)) = filter (counted_at c) (remove1 p (queue c))"
    using d assms(4,5) by (intro filter_cong) (auto simp: counted_at_def)
  then show ?thesis using length_filter_remove1[OF d p, of "counted_at c"]
    by (auto simp: counted_total_def assms(3))
qed

lemma counted_total_same_entries: "same_entries c c' \<Longrightarrow> counted_total c' = counted_total c"
  by (simp add: counted_total_def counted_at_def same_entriesD cong: filter_cong)

lemma cache_inv_same_entries: "cache_inv c \<Longrightarrow> same_entries c c' \<Longrightarrow> cache_wf c' \<Longrightarrow> cache_inv c'"
  by (simp add: cache_inv_def counted_total_same_entries same_entriesD)

lemma cache_inv_evicted:
  assumes "cache_inv c" "evicted p c c'" "cache_wf c'"
  shows "cache_inv c'"
proof -
  have l: "linked c" using assms(1) by (auto simp: cache_inv_def cache_wf_def)
  obtain e where e: "heap c p = Some e" "evictable c (entry_page e)" "queue c' = remove1 p (queue c)"
      "\<forall>q. q \<noteq> p \<longrightarrow> page_at c' q = page_at c q"
      "pages c' = (pages c)(entry_page e := evict_page (pages c (entry_page e)))"
      "evictable_count c' = evictable_count c - 1"
    using assms(2) by (auto simp: evicted_def)
  have "counted_at c p" using evictable_counted[OF e(2)] e(1) by (simp add: counted_at_def page_at_def)
  then have "counted_total c' = counted_total c - 1"
    using counted_total_remove[OF l e(1,3,4)] e(5) by simp
  then show ?thesis using assms(1,3) e(6) by (auto simp: cache_inv_def)
qed

text \<open>
  A state reached by evictions only: it holds a part of the cached pages, and every page
  that was not evictable is still cached and untouched.
\<close>

definition shrunk :: "page_cache \<Rightarrow> page_cache \<Rightarrow> bool" where
  "shrunk c c' \<longleftrightarrow>
     lookup c' \<subseteq>\<^sub>m lookup c \<and>
     (\<forall>k r. lookup c k = Some r \<and> \<not> evictable c r \<longrightarrow> lookup c' k = Some r) \<and>
     (\<forall>r. \<not> evictable c r \<longrightarrow> \<not> evictable c' r \<and> pages c' r = pages c r) \<and>
     (\<forall>r. pages c' r \<in> {pages c r, evict_page (pages c r)}) \<and>
     capacity c' = capacity c \<and> spill_threshold c' = spill_threshold c \<and> spill_enabled c' = spill_enabled c"

lemma shrunk_refl [simp]: "shrunk c c"
  by (simp add: shrunk_def)

lemma shrunk_trans: "shrunk a b \<Longrightarrow> shrunk b c \<Longrightarrow> shrunk a c"
proof -
  assume ab: "shrunk a b" and bc: "shrunk b c"
  have "pages c r \<in> {pages a r, evict_page (pages a r)}" for r
  proof -
    have "pages b r = pages a r \<or> pages b r = evict_page (pages a r)"
      "pages c r = pages b r \<or> pages c r = evict_page (pages b r)"
      using ab bc by (auto simp: shrunk_def)
    then show ?thesis by auto
  qed
  then show ?thesis using ab bc map_le_trans[of "lookup c" "lookup b" "lookup a"] by (simp add: shrunk_def)
qed

lemma shrunk_same_entries: "same_entries c c' \<Longrightarrow> shrunk c c'"
  by (simp add: shrunk_def same_entriesD)

lemma shrunk_evicted:
  assumes "linked c" "evicted p c c'"
  shows "shrunk c c'"
proof -
  obtain e where e: "heap c p = Some e" "evictable c (entry_page e)"
      "lookup c' = (lookup c)(entry_key e := None)"
      "pages c' = (pages c)(entry_page e := evict_page (pages c (entry_page e)))"
      "strong_count c' = (strong_count c)(entry_page e := strong_count c (entry_page e) - 1)"
      "capacity c' = capacity c" "spill_threshold c' = spill_threshold c" "spill_enabled c' = spill_enabled c"
    using assms(2) by (auto simp: evicted_def)
  have "lookup c (entry_key e) = Some (entry_page e)" by (rule linked_lookup[OF assms(1) e(1)])
  then show ?thesis
    using e by (auto simp: shrunk_def map_le_def evictable_def Let_def)
qed

lemma evict_to_inv:
  "cache_inv c \<Longrightarrow>
     case evict_to t c of
       (Inl err, c') \<Rightarrow> err = Full \<and> cache_inv c' \<and> shrunk c c' \<and> t < cache_len c' \<and>
                        (\<forall>k r. lookup c' k = Some r \<longrightarrow> \<not> evictable c' r)
     | (Inr _, c') \<Rightarrow> cache_inv c' \<and> shrunk c c' \<and> cache_len c' \<le> t"
proof (induction "length (queue c)" arbitrary: c rule: less_induct)
  case less
  show ?case
  proof (cases "t < cache_len c")
    case False
    then show ?thesis using less.prems by (subst evict_to.simps) simp
  next
    case True
    have wf: "cache_wf c" "linked c" using less.prems by (auto simp: cache_inv_def cache_wf_def)
    then have ne: "queue c \<noteq> []" using True linked_length[OF wf(2)] by (auto simp: cache_len_def)
    show ?thesis
    proof (cases "\<exists>p\<in>set (queue c). evictable c (page_at c p)")
      case ev: True
      then obtain p c1 where c1: "evict_one c = (Inr (), c1)" "cache_wf c1" "evicted p c c1"
        using evict_one_cases[OF wf(1) ne] by auto
      have inv: "cache_inv c1" "shrunk c c1"
        using cache_inv_evicted[OF less.prems c1(3,2)] shrunk_evicted[OF wf(2) c1(3)] by auto
      have "length (queue c1) < length (queue c)"
        using c1(1) evict_loop_queue True by (auto simp: evict_one_def split: if_splits)
      from less.hyps[OF this inv(1)] show ?thesis
        using True c1(1) shrunk_trans[OF inv(2)] by (subst evict_to.simps) (auto split: prod.splits sum.splits)
    next
      case ev: False
      then obtain c1 where c1: "evict_one c = (Inl Full, c1)" "cache_wf c1" "same_entries c c1"
        using evict_one_cases[OF wf(1) ne] by auto
      have "\<not> evictable c1 r" if lk: "lookup c1 k = Some r" for k r
      proof -
        obtain p e where "heap c p = Some e" "entry_page e = r"
          using lk lookup_Some[OF wf(2), of k r] same_entriesD(12)[OF c1(3)] by auto
        then show ?thesis using ev linked_queue[OF wf(2), of p e] same_entriesD(13)[OF c1(3)]
          by (auto simp: page_at_def)
      qed
      then show ?thesis
        using True c1 cache_inv_same_entries[OF less.prems c1(3,2)] shrunk_same_entries[OF c1(3)] same_entriesD(2)[OF c1(3)]
        by (subst evict_to.simps) (simp add: cache_len_def)
    qed
  qed
qed

section \<open>Insertion and removal\<close>

lemma map_of_cache: "linked c \<Longrightarrow> map_of (cmap c) k = Some p \<Longrightarrow> \<exists>e. heap c p = Some e \<and> entry_key e = k"
  by (simp add: linked_map_of)

lemma lookup_None: "linked c \<Longrightarrow> lookup c k = None \<longleftrightarrow> map_of (cmap c) k = None"
  by (cases "map_of (cmap c) k") (auto simp: lookup_def dest: map_of_cache)

lemma set_insert_after: "h \<in> set xs \<Longrightarrow> set (insert_after h x xs) = insert x (set xs)"
  by (induction xs) auto

lemma insert_after_notin [simp]: "h \<notin> set xs \<Longrightarrow> insert_after h x xs = xs"
  by (induction xs) auto

lemma distinct_insert_after: "distinct xs \<Longrightarrow> x \<notin> set xs \<Longrightarrow> distinct (insert_after h x xs)"
proof (induction xs)
  case (Cons y ys)
  then show ?case by (cases "h \<in> set ys") (auto simp: set_insert_after)
qed simp

lemma length_filter_insert_after:
  "h \<in> set xs \<Longrightarrow> length (filter P (insert_after h x xs)) = length (filter P xs) + (if P x then 1 else 0)"
  by (induction xs) auto

lemma link_entry_ok:
  assumes "cache_inv c" "lookup c key = None"
  shows "\<exists>c'. link_entry key value c = (Inr (), c') \<and> cache_wf c' \<and> lookup c' = (lookup c)(key \<mapsto> value) \<and>
     counted_total c' = counted_total c + (if counted_as_evictable (pages c value) then 1 else 0) \<and>
     cache_len c' = cache_len c + 1 \<and> pages c' = pages c \<and> strong_count c' = strong_count c \<and>
     evictable_count c' = evictable_count c \<and> capacity c' = capacity c \<and>
     spill_threshold c' = spill_threshold c \<and> spill_enabled c' = spill_enabled c"
proof -
  have wf: "linked c" "hand_ok c" using assms(1) by (auto simp: cache_inv_def cache_wf_def)
  note l = linkedD[OF wf(1)]
  let ?p = "next_addr c" and ?e = "entry_new key value"
  have fresh: "heap c ?p = None" "?p \<notin> set (queue c)"
    using l(5)[of ?p] l(3) by (cases "heap c ?p"; force)+
  have nokey: "map_of (cmap c) key = None" "\<forall>p. (key, p) \<notin> set (cmap c)"
    using assms(2) lookup_None[OF wf(1)] by (auto simp: map_of_eq_None_iff rev_image_eqI)
  let ?q = "case clock_hand c of None \<Rightarrow> queue c @ [?p] | Some h \<Rightarrow> insert_after h ?p (queue c)"
  let ?c' = "c\<lparr>heap := (heap c)(?p := Some ?e), next_addr := ?p + 1, queue := ?q,
      cmap := (key, ?p) # filter (\<lambda>(k, _). k \<noteq> key) (cmap c),
      clock_hand := (case clock_hand c of None \<Rightarrow> Some ?p | h \<Rightarrow> h)\<rparr>"
  have "link_entry key value c = (Inr (), ?c')"
    using wf(2) by (auto simp: link_entry_def Let_def map_insert_def hand_ok_def split: option.splits)
  moreover have q: "distinct ?q" "set ?q = insert ?p (set (queue c))"
    "length (filter P ?q) = length (filter P (queue c)) + (if P ?p then 1 else 0)" for P
    using l(1) fresh(2) wf(2)
    by (auto simp: hand_ok_def set_insert_after length_filter_insert_after split: option.splits
        intro: distinct_insert_after)
  have nop: "map_of (cmap c) k \<noteq> Some ?p" for k using map_of_cache[OF wf(1), of k ?p] fresh(1) by auto
  have m: "filter (\<lambda>(k, _). k \<noteq> key) (cmap c) = cmap c" using nokey(2) by (auto simp: filter_id_conv)
  have lk: "linked ?c'"
    unfolding linked_def
  proof (intro conjI allI)
    show "distinct (queue ?c')" using q(1) by simp
    show "distinct (map fst (cmap ?c'))" using l(2) nokey(2) m by auto
    show "dom (heap ?c') = set (queue ?c')" using l(3) q(2) by simp
    show "(k, p) \<in> set (cmap ?c') \<longleftrightarrow> (\<exists>e. heap ?c' p = Some e \<and> entry_key e = k)" for k p
      using l(4) fresh(1) m by (auto simp: entry_new_def)
    show "heap ?c' p = Some e \<longrightarrow> p < next_addr ?c' \<and> ref_bit e \<le> 3" for p e
      using l(5,6) by (auto simp: entry_new_def less_Suc_eq)
  qed
  moreover have "hand_ok ?c'" using wf(2) q(2) by (auto simp: hand_ok_def split: option.splits)
  moreover have "lookup ?c' = (lookup c)(key \<mapsto> value)"
    using nokey(1) m nop
    by (auto simp: fun_eq_iff lookup_def entry_new_def bind_eq_Some_conv split: bind_splits)
  moreover have "counted_total ?c' = counted_total c + (if counted_as_evictable (pages c value) then 1 else 0)"
  proof -
    have "filter (counted_at ?c') (queue c) = filter (counted_at c) (queue c)"
      using fresh(2) by (intro filter_cong) (auto simp: counted_at_def page_at_def)
    moreover have "counted_at ?c' ?p = counted_as_evictable (pages c value)"
      by (simp add: counted_at_def page_at_def entry_new_def)
    ultimately show ?thesis using q(3)[of "counted_at ?c'"] by (simp add: counted_total_def)
  qed
  ultimately show ?thesis using m by (simp add: cache_wf_def cache_len_def)
qed

text \<open>The error with which a page refuses to be deleted.\<close>

definition delete_error :: "page_inner \<Rightarrow> cache_error option" where
  "delete_error pg =
     (if is_locked pg then Some (Locked (inner_id pg))
      else if is_dirty pg then Some (Dirty (inner_id pg))
      else if is_pinned pg then Some (Pinned (inner_id pg)) else None)"

lemma cache_delete_ok:
  assumes "cache_inv c" "lookup c key = Some r" "delete_error (pages c r) = None"
  shows "\<exists>c'. cache_delete_gen key clean c = (Inr (), c') \<and> cache_inv c' \<and>
     lookup c' = (lookup c)(key := None) \<and> capacity c' = capacity c \<and>
     spill_threshold c' = spill_threshold c \<and> spill_enabled c' = spill_enabled c \<and>
     strong_count c' = (strong_count c)(r := strong_count c r - 1) \<and>
     pages c' = (if clean then (pages c)(r := evict_page (pages c r)) else pages c)"
proof -
  have wf: "linked c" "hand_ok c" "distinct (queue c)"
    using assms(1) by (auto simp: cache_inv_def cache_wf_def linked_def)
  obtain p e where e: "heap c p = Some e" "entry_key e = key" "entry_page e = r"
    using assms(2) lookup_Some[OF wf(1)] by blast
  have m: "map_of (cmap c) key = Some p" using e by (auto simp: linked_map_of[OF wf(1)])
  have p: "p \<in> set (queue c)" by (rule linked_queue[OF wf(1) e(1)])
  define c0 where "c0 = (if clean then update_page r evict_page c else c)"
  define c1 where "c1 = map_remove key c0"
  define c2 where "c2 = (if clock_hand c1 = Some p then leave_entry p c1 else c1)"
  define c3 where "c3 = drop_ref r (c2\<lparr>queue := remove1 p (queue c2), heap := (heap c2)(p := None)\<rparr>)"
  define c' where "c' = (if counted_as_evictable (pages c r) then c3\<lparr>evictable_count := evictable_count c3 - 1\<rparr> else c3)"
  note ds = c'_def c3_def c2_def c1_def c0_def drop_ref_def map_remove_def update_page_def
  have run: "cache_delete_gen key clean c = (Inr (), c')"
    using assms(3) m e p
    by (auto simp: cache_delete_gen_def delete_error_def unlink_entry_def Let_def ds split: if_splits)
  have f: "cmap c' = filter (\<lambda>(k, _). k \<noteq> entry_key e) (cmap c)" "queue c' = remove1 p (queue c)"
    "heap c' = (heap c)(p := None)" "next_addr c' = next_addr c"
    "evictable_count c' = evictable_count c - (if counted_as_evictable (pages c r) then 1 else 0)"
    "pages c' = (if clean then (pages c)(r := evict_page (pages c r)) else pages c)"
    "clock_hand c' = clock_hand c2"
    using e(2) by (auto simp: ds)
  note l = linked_remove[OF wf(1) e(1) f(1-4)]
  have "hand_ok c'"
  proof (cases "clock_hand c = Some p")
    case True
    have "hand_ok c1" "queue c1 = queue c" "clock_hand c1 = Some p" using wf(2) True by (auto simp: hand_ok_def ds)
    then show ?thesis using hand_remove(1)[of c1 p c'] wf(3) f(2,7) by (simp add: c2_def)
  next
    case False
    then have "clock_hand c' = clock_hand c" using f(7) by (auto simp: ds)
    then show ?thesis using hand_keep[OF wf(2) False p wf(3) f(2)] by blast
  qed
  moreover have "counted_total c' = counted_total c - (if counted_as_evictable (pages c r) then 1 else 0)"
    using counted_total_remove[OF wf(1) e(1) f(2)] e f(3,6)
    by (simp add: page_at_def counted_at_def)
  ultimately have "cache_inv c'"
    using assms(1) l(1) f(5) by (auto simp: cache_inv_def cache_wf_def)
  then show ?thesis using run l(2) e(2) f(6) by (auto simp: ds)
qed

lemma cache_delete_refused:
  assumes "cache_inv c" "lookup c key = Some r" "delete_error (pages c r) = Some err"
  shows "cache_delete_gen key clean c = (Inl err, c)"
proof -
  have wf: "linked c" using assms(1) by (auto simp: cache_inv_def cache_wf_def)
  obtain p e where e: "heap c p = Some e" "entry_key e = key" "entry_page e = r"
    using assms(2) lookup_Some[OF wf(1)] by blast
  have m: "map_of (cmap c) key = Some p" using e by (auto simp: linked_map_of[OF wf])
  then show ?thesis using assms(3) e
    by (auto simp: cache_delete_gen_def delete_error_def split: if_splits)
qed

lemma cache_delete_absent: "linked c \<Longrightarrow> lookup c key = None \<Longrightarrow> cache_delete_gen key clean c = (Inr (), c)"
  by (simp add: lookup_None cache_delete_gen_def)

text \<open>The invariant does not depend on reference counts, sizes and the counter itself.\<close>

lemma cache_frame:
  assumes "cmap c' = cmap c" "heap c' = heap c" "queue c' = queue c" "clock_hand c' = clock_hand c"
    "next_addr c' = next_addr c"
  shows "lookup c' = lookup c" "cache_wf c' = cache_wf c" "cache_len c' = cache_len c"
    "pages c' = pages c \<Longrightarrow> counted_total c' = counted_total c"
  unfolding lookup_def cache_wf_def linked_def hand_ok_def cache_len_def counted_total_def counted_at_def
    page_at_def assms by (simp_all add: fun_eq_iff)

lemma ref_count_fields [simp]:
  "capacity (drop_ref r c) = capacity c" "capacity (clone_ref r c) = capacity c"
  "pages (drop_ref r c) = pages c" "pages (clone_ref r c) = pages c"
  "cmap (drop_ref r c) = cmap c" "heap (drop_ref r c) = heap c" "queue (drop_ref r c) = queue c"
  "cmap (clone_ref r c) = cmap c" "heap (clone_ref r c) = heap c" "queue (clone_ref r c) = queue c"
  "clock_hand (drop_ref r c) = clock_hand c" "next_addr (drop_ref r c) = next_addr c"
  "clock_hand (clone_ref r c) = clock_hand c" "next_addr (clone_ref r c) = next_addr c"
  "evictable_count (drop_ref r c) = evictable_count c" "evictable_count (clone_ref r c) = evictable_count c"
  by (simp_all add: drop_ref_def clone_ref_def)

lemma ref_count_frame [simp]:
  "lookup (drop_ref r c) = lookup c" "lookup (clone_ref r c) = lookup c"
  "cache_len (drop_ref r c) = cache_len c" "cache_len (clone_ref r c) = cache_len c"
  "cache_inv (drop_ref r c) = cache_inv c" "cache_inv (clone_ref r c) = cache_inv c"
  using cache_frame[of "drop_ref r c" c] cache_frame[of "clone_ref r c" c] by (simp_all add: cache_inv_def)

end
