(* ===== verification/CacheOps.thy ===== *)
theory CacheOps
  imports CacheInvariant
begin

text \<open>
  The effect of every operation of the page cache on the invariant and on the cached pages,
  the machine of all operations together with the page state changes of the pager, and the
  properties of the cache.
\<close>

section \<open>Admission\<close>

text \<open>
  What an operation that may insert \<open>v\<close> under \<open>key\<close> does to the cached pages: it adds at
  most that page, and every other page that was not evictable (and not the page that it
  replaces) stays.
\<close>

definition admits :: "nat \<Rightarrow> page_ref \<Rightarrow> page_cache \<Rightarrow> page_cache \<Rightarrow> bool" where
  "admits key v c c' \<longleftrightarrow>
     (\<forall>k r. lookup c' k = Some r \<longrightarrow> lookup c k = Some r \<or> k = key \<and> r = v) \<and>
     (\<forall>k r. k \<noteq> key \<and> lookup c k = Some r \<and> \<not> evictable c r \<and> lookup c key \<noteq> Some r \<longrightarrow>
        lookup c' k = Some r) \<and>
     (\<forall>r. pages c' r \<in> {pages c r, evict_page (pages c r)}) \<and> capacity c' = capacity c"

lemma shrunkD:
  assumes "shrunk c c'"
  shows "lookup c' k = Some r \<Longrightarrow> lookup c k = Some r"
    "lookup c k = Some r \<Longrightarrow> \<not> evictable c r \<Longrightarrow> lookup c' k = Some r"
    "capacity c' = capacity c" "lookup c k = None \<Longrightarrow> lookup c' k = None"
    "pages c' r \<in> {pages c r, evict_page (pages c r)}"
proof -
  have "lookup c' \<subseteq>\<^sub>m lookup c" using assms by (simp add: shrunk_def)
  then show sub: "lookup c' k = Some r \<Longrightarrow> lookup c k = Some r" for r by (metis domI map_le_def)
  then show "lookup c k = None \<Longrightarrow> lookup c' k = None" by (cases "lookup c' k") auto
  show "lookup c k = Some r \<Longrightarrow> \<not> evictable c r \<Longrightarrow> lookup c' k = Some r" "capacity c' = capacity c"
    "pages c' r \<in> {pages c r, evict_page (pages c r)}"
    using assms by (auto simp: shrunk_def)
qed

lemma shrunk_admits: "shrunk c c' \<Longrightarrow> admits key v c c'"
  by (auto simp: admits_def shrunkD(3) intro: shrunkD(2) dest: shrunkD(1) shrunkD(5))

lemma make_room_ok:
  assumes "cache_inv c"
  shows "case make_room_for 1 bypass c of
      (Inl err, c') \<Rightarrow> err = Full \<and> \<not> bypass \<and> cache_inv c' \<and> shrunk c c'
    | (Inr _, c') \<Rightarrow> cache_inv c' \<and> shrunk c c' \<and> (\<not> bypass \<longrightarrow> cache_len c' < capacity c')"
  using evict_to_inv[OF assms, of "capacity c - 1"] assms
  by (auto simp: make_room_for_def shrunk_def split: prod.splits sum.splits)

definition insert_fresh :: "nat \<Rightarrow> page_ref \<Rightarrow> bool \<Rightarrow> page_cache \<Rightarrow> (cache_error + unit) \<times> page_cache" where
  "insert_fresh key v bypass c =
     then_do (make_room_for 1 bypass c) (\<lambda>_ c.
     let is_evictable = counted_as_evictable (pages c v)
     in then_do (link_entry key v c) (\<lambda>_ c.
        (Inr (), if is_evictable then c\<lparr>evictable_count := evictable_count c + 1\<rparr> else c)))"

lemma insert_fresh_ok:
  assumes "cache_inv c" "lookup c key = None"
  shows "case insert_fresh key v bypass c of
      (Inl err, c') \<Rightarrow> err = Full \<and> \<not> bypass \<and> cache_inv c' \<and> admits key v c c' \<and> lookup c' \<subseteq>\<^sub>m lookup c
    | (Inr _, c') \<Rightarrow> cache_inv c' \<and> admits key v c c' \<and> lookup c' key = Some v \<and>
        (\<not> bypass \<longrightarrow> cache_len c' \<le> capacity c)"
proof (cases "make_room_for 1 bypass c")
  case (Pair res c1)
  note room = make_room_ok[OF assms(1), of bypass, unfolded Pair]
  show ?thesis
  proof (cases res)
    case (Inl err)
    then have "err = Full" "\<not> bypass" "cache_inv c1" "shrunk c c1" using room by auto
    moreover have "lookup c1 \<subseteq>\<^sub>m lookup c" using calculation(4) by (simp add: shrunk_def)
    ultimately show ?thesis using Inl Pair shrunk_admits by (simp add: insert_fresh_def)
  next
    case (Inr u)
    have c1: "cache_inv c1" "shrunk c c1" "\<not> bypass \<longrightarrow> cache_len c1 < capacity c1" using room Inr by auto
    have "lookup c1 key = None" by (rule shrunkD(4)[OF c1(2) assms(2)])
    then obtain c2 where c2: "link_entry key v c1 = (Inr (), c2)" "cache_wf c2"
        "lookup c2 = (lookup c1)(key \<mapsto> v)"
        "counted_total c2 = counted_total c1 + (if counted_as_evictable (pages c1 v) then 1 else 0)"
        "cache_len c2 = cache_len c1 + 1" "evictable_count c2 = evictable_count c1" "capacity c2 = capacity c1"
        "pages c2 = pages c1"
      using link_entry_ok[OF c1(1), of key v] by auto
    define c' where "c' = (if counted_as_evictable (pages c1 v) then c2\<lparr>evictable_count := evictable_count c2 + 1\<rparr> else c2)"
    have run: "insert_fresh key v bypass c = (Inr (), c')"
      using Pair Inr c2(1) by (simp add: insert_fresh_def Let_def c'_def)
    have same: "lookup c' = lookup c2" "cache_len c' = cache_len c2" "capacity c' = capacity c2" "pages c' = pages c2"
      "cache_wf c' = cache_wf c2" "counted_total c' = counted_total c2"
      using cache_frame[of c' c2] by (simp_all add: c'_def)
    have "cache_inv c'" using c2 c1(1) same by (auto simp: cache_inv_def c'_def)
    moreover have "admits key v c c'"
      unfolding admits_def same using shrunk_admits[OF c1(2), of key v] c2(3,7,8)
      by (auto simp: admits_def)
    ultimately show ?thesis using run c2(3,5,7) same c1(2,3) by (auto simp: shrunk_def)
  qed
qed

lemma cache_wf_set_entry:
  assumes "cache_wf c" "heap c p = Some e" "entry_key e' = entry_key e" "ref_bit e' \<le> 3"
  shows "cache_wf (set_entry p e' c)" "lookup (set_entry p e' c) = (lookup c)(entry_key e \<mapsto> entry_page e')"
proof -
  have l: "linked c" and h: "hand_ok c" using assms(1) by (auto simp: cache_wf_def)
  note d = linkedD[OF l]
  have "linked (set_entry p e' c)"
    unfolding linked_def
  proof (intro conjI allI)
    show "dom (heap (set_entry p e' c)) = set (queue (set_entry p e' c))"
      using d(3) linked_queue[OF l assms(2)] by (auto simp: set_entry_def)
    show "(k, q) \<in> set (cmap (set_entry p e' c)) \<longleftrightarrow> (\<exists>x. heap (set_entry p e' c) q = Some x \<and> entry_key x = k)" for k q
      using d(4) assms(2,3) by (auto simp: set_entry_def)
    show "heap (set_entry p e' c) q = Some x \<longrightarrow> q < next_addr (set_entry p e' c) \<and> ref_bit x \<le> 3" for q x
      using d(5,6) assms(2,4) by (auto simp: set_entry_def)
  qed (use d(1,2) in \<open>simp_all add: set_entry_def\<close>)
  moreover have "hand_ok (set_entry p e' c)" using h by (auto simp: hand_ok_def set_entry_def split: option.splits)
  ultimately show "cache_wf (set_entry p e' c)" by (simp add: cache_wf_def)
  have m: "map_of (cmap c) (entry_key e) = Some p" "map_of (cmap c) k = Some p \<Longrightarrow> k = entry_key e" for k
    using linked_map_of[OF l] assms(2) by auto
  show "lookup (set_entry p e' c) = (lookup c)(entry_key e \<mapsto> entry_page e')"
  proof (rule ext)
    fix k
    show "lookup (set_entry p e' c) k = ((lookup c)(entry_key e \<mapsto> entry_page e')) k"
    proof (cases "k = entry_key e")
      case True
      then show ?thesis using m(1) by (simp add: lookup_def set_entry_def)
    next
      case False
      then have "map_of (cmap c) k \<noteq> Some p" using m(2) by blast
      then show ?thesis using False by (cases "map_of (cmap c) k") (simp_all add: lookup_def set_entry_def)
    qed
  qed
qed

lemma bump_ref_fields [simp]:
  "entry_key (bump_ref e) = entry_key e" "entry_page (bump_ref e) = entry_page e" "ref_bit (bump_ref e) \<le> 3"
  by (simp_all add: bump_ref_def)

lemma touch_entry:
  assumes "cache_inv c" "heap c p = Some e"
  shows "cache_inv (set_entry p (bump_ref e) c)" "lookup (set_entry p (bump_ref e) c) = lookup c"
proof -
  have s: "same_entries c (set_entry p (bump_ref e) c)" by (rule same_entries_set_ref[OF assms(2)]) simp_all
  have "cache_wf (set_entry p (bump_ref e) c)"
    using assms by (intro cache_wf_set_entry) (auto simp: cache_inv_def)
  then show "cache_inv (set_entry p (bump_ref e) c)" by (rule cache_inv_same_entries[OF assms(1) s])
  show "lookup (set_entry p (bump_ref e) c) = lookup c" by (rule same_entriesD(12)[OF s])
qed

lemma length_filter_update:
  "distinct xs \<Longrightarrow> x \<in> set xs \<Longrightarrow> \<forall>y. y \<noteq> x \<longrightarrow> Q y = P y \<Longrightarrow>
     length (filter Q xs) + (if P x then 1 else 0) = length (filter P xs) + (if Q x then 1 else 0)"
proof (induction xs)
  case (Cons y ys)
  show ?case
  proof (cases "y = x")
    case True
    then have "filter Q ys = filter P ys" using Cons.prems by (intro filter_cong) auto
    then show ?thesis using True by simp
  next
    case False
    then show ?thesis using Cons by auto
  qed
qed simp

lemma replace_page:
  fixes v :: page_ref
  assumes "cache_inv c" "heap c p = Some e"
  defines "old \<equiv> counted_as_evictable (pages c (entry_page e))" and "new \<equiv> counted_as_evictable (pages c v)"
  defines "n \<equiv> (if old \<and> \<not> new then evictable_count c - 1 else if \<not> old \<and> new then evictable_count c + 1 else evictable_count c)"
  defines "c' \<equiv> set_entry p ((bump_ref e)\<lparr>entry_page := v\<rparr>) (c\<lparr>evictable_count := n\<rparr>)"
  shows "cache_inv c'" "lookup c' = (lookup c)(entry_key e \<mapsto> v)"
proof -
  let ?e = "(bump_ref e)\<lparr>entry_page := v\<rparr>"
  have l: "linked c" "cache_wf c" using assms(1) by (auto simp: cache_inv_def cache_wf_def)
  have e: "entry_key ?e = entry_key e" "ref_bit ?e \<le> 3" by (simp_all add: bump_ref_def)
  note w = cache_wf_set_entry[OF l(2) assms(2) e]
  have fr: "cache_wf c' = cache_wf (set_entry p ?e c)" "lookup c' = lookup (set_entry p ?e c)"
    unfolding c'_def by (intro cache_frame; simp add: set_entry_def)+
  have "counted_total c' + (if old then 1 else 0) = counted_total c + (if new then 1 else 0)"
    using length_filter_update[OF linkedD(1)[OF l(1)] linked_queue[OF l(1) assms(2)], of "counted_at c'" "counted_at c"] assms(2)
    by (simp add: counted_total_def counted_at_def page_at_def c'_def set_entry_def old_def new_def)
  moreover have "evictable_count c' = n" by (simp add: c'_def set_entry_def)
  ultimately show "cache_inv c'" using w(1) fr(1) assms(1) by (auto simp: cache_inv_def n_def split: if_splits)
  show "lookup c' = (lookup c)(entry_key e \<mapsto> v)" using w(2) fr(2) by simp
qed

lemma admits_drop_ref [simp]: "admits key v c (drop_ref r c') = admits key v c c'"
  by (simp add: admits_def)

lemma insert_existing_absent: "linked c \<Longrightarrow> lookup c key = None \<Longrightarrow> insert_existing key v upd c = (Inr False, c)"
  by (simp add: insert_existing_def lookup_None)

lemma cache_insert_gen_fresh:
  "insert_existing key v upd c = (Inr False, c1) \<Longrightarrow>
     cache_insert_gen key v upd bypass c =
       (case insert_fresh key v bypass c1 of (Inl e, c) \<Rightarrow> (Inl e, drop_ref v c) | (Inr x, c) \<Rightarrow> (Inr x, c))"
  by (simp add: cache_insert_gen_def insert_fresh_def)

text \<open>
  An insertion, by the state of the key: absent, cached but neither loaded nor locked (an
  aborted read), or in use.
\<close>

lemma cache_insert_absent:
  assumes "cache_inv c" "lookup c key = None"
  shows "case cache_insert_gen key v upd bypass c of
      (Inl err, c') \<Rightarrow> err = Full \<and> \<not> bypass \<and> cache_inv c' \<and> admits key v c c' \<and> lookup c' \<subseteq>\<^sub>m lookup c
    | (Inr _, c') \<Rightarrow> cache_inv c' \<and> admits key v c c' \<and> lookup c' key = Some v \<and>
        (\<not> bypass \<longrightarrow> cache_len c' \<le> capacity c)"
proof -
  have l: "linked c" using assms(1) by (auto simp: cache_inv_def cache_wf_def)
  obtain res c' where f: "insert_fresh key v bypass c = (res, c')" by (cases "insert_fresh key v bypass c")
  have gen: "cache_insert_gen key v upd bypass c =
      (case res of Inl e \<Rightarrow> (Inl e, drop_ref v c') | Inr x \<Rightarrow> (Inr x, c'))"
    using cache_insert_gen_fresh[OF insert_existing_absent[OF l assms(2)], of v upd bypass] f by (simp split: sum.splits)
  show ?thesis unfolding gen using insert_fresh_ok[OF assms, of bypass v] f by (cases res) simp_all
qed

lemma cache_insert_stale:
  assumes "cache_inv c" "lookup c key = Some r" "\<not> is_loaded (pages c r)" "\<not> is_locked (pages c r)"
  shows "case cache_insert_gen key v upd bypass c of
      (Inl err, c') \<Rightarrow> (err = Full \<and> \<not> bypass \<or> delete_error (pages c r) = Some err) \<and> cache_inv c' \<and> admits key v c c' \<and>
        lookup c' \<subseteq>\<^sub>m lookup c
    | (Inr _, c') \<Rightarrow> cache_inv c' \<and> admits key v c c' \<and> lookup c' key = Some v \<and>
        (\<not> bypass \<longrightarrow> cache_len c' \<le> capacity c)"
proof -
  have l: "linked c" using assms(1) by (auto simp: cache_inv_def cache_wf_def)
  obtain p e where e: "heap c p = Some e" "entry_key e = key" "entry_page e = r"
    using assms(2) lookup_Some[OF l] by blast
  have m: "map_of (cmap c) key = Some p" using e by (auto simp: linked_map_of[OF l])
  have ex: "insert_existing key v upd c = then_do (cache_delete_gen key True c) (\<lambda>_ c. (Inr False, c))"
    using m e assms(3,4) by (simp add: insert_existing_def)
  show ?thesis
  proof (cases "delete_error (pages c r)")
    case None
    obtain c1 where c1: "cache_delete_gen key True c = (Inr (), c1)" "cache_inv c1"
        "lookup c1 = (lookup c)(key := None)" "capacity c1 = capacity c"
        "strong_count c1 = (strong_count c)(r := strong_count c r - 1)"
        "pages c1 = (pages c)(r := evict_page (pages c r))"
      using cache_delete_ok[OF assms(1,2) None, of True] by auto
    have ev: "evictable c1 r' = evictable c r'" if "r' \<noteq> r" for r'
      using c1(5,6) that by (simp add: evictable_def)
    have adm: "admits key v c c'" if "admits key v c1 c'" for c'
    proof -
      have a: "lookup c' k = Some r' \<Longrightarrow> lookup c1 k = Some r' \<or> k = key \<and> r' = v"
        "k \<noteq> key \<Longrightarrow> lookup c1 k = Some r' \<Longrightarrow> \<not> evictable c1 r' \<Longrightarrow> lookup c1 key \<noteq> Some r' \<Longrightarrow> lookup c' k = Some r'"
        "capacity c' = capacity c1" "pages c' r' \<in> {pages c1 r', evict_page (pages c1 r')}" for k r'
        using \<open>admits key v c1 c'\<close> by (auto simp: admits_def)
      show ?thesis
        unfolding admits_def
      proof (intro conjI allI impI)
        show "lookup c k = Some r' \<or> k = key \<and> r' = v" if "lookup c' k = Some r'" for k r'
          using a(1)[OF that] c1(3) by (auto split: if_splits)
        show "lookup c' k = Some r'" if "k \<noteq> key \<and> lookup c k = Some r' \<and> \<not> evictable c r' \<and> lookup c key \<noteq> Some r'" for k r'
          using that c1(3) ev[of r'] assms(2) by (intro a(2)) auto
        show "pages c' r' \<in> {pages c r', evict_page (pages c r')}" for r'
          using a(4)[of r'] c1(6) by (auto split: if_splits)
      qed (simp add: a(3) c1(4))
    qed
    obtain res c' where f: "insert_fresh key v bypass c1 = (res, c')" by (cases "insert_fresh key v bypass c1")
    have gen: "cache_insert_gen key v upd bypass c =
        (case res of Inl e \<Rightarrow> (Inl e, drop_ref v c') | Inr x \<Rightarrow> (Inr x, c'))"
      using cache_insert_gen_fresh[of key v upd c c1 bypass] ex c1(1) f by (simp split: sum.splits)
    have k: "lookup c1 key = None" "lookup c1 \<subseteq>\<^sub>m lookup c" using c1(3) by simp_all
    from insert_fresh_ok[OF c1(2) k(1), of bypass v] show ?thesis
      unfolding gen using f adm[of c'] c1(4) map_le_trans[OF _ k(2), of "lookup c'"] by (cases res) simp_all
  next
    case (Some err)
    then have "cache_insert_gen key v upd bypass c = (Inl err, drop_ref v c)"
      using cache_delete_refused[OF assms(1,2) Some] ex by (simp add: cache_insert_gen_def)
    then show ?thesis using assms(1) Some by (simp add: admits_def)
  qed
qed

lemma cache_insert_used:
  assumes "cache_inv c" "lookup c key = Some r" "is_loaded (pages c r) \<or> is_locked (pages c r)"
  shows "\<exists>c'. cache_insert_gen key v upd bypass c =
        (if upd then Inr () else if r = v then Inl KeyExists else Inl CacheAbort, c') \<and>
     cache_inv c' \<and> lookup c' = (if upd then (lookup c)(key \<mapsto> v) else lookup c) \<and>
     pages c' = pages c \<and> cache_len c' = cache_len c \<and> capacity c' = capacity c"
proof -
  have l: "linked c" using assms(1) by (auto simp: cache_inv_def cache_wf_def)
  obtain p e where e: "heap c p = Some e" "entry_key e = key" "entry_page e = r"
    using assms(2) lookup_Some[OF l] by blast
  have m: "map_of (cmap c) key = Some p" using e by (auto simp: linked_map_of[OF l])
  show ?thesis
  proof (cases upd)
    case False
    then have "cache_insert_gen key v upd bypass c =
        (if r = v then Inl KeyExists else Inl CacheAbort, drop_ref v (set_entry p (bump_ref e) c))"
      using m e assms(3) by (auto simp: cache_insert_gen_def insert_existing_def)
    then show ?thesis using False touch_entry[OF assms(1) e(1)]
      by (auto simp: set_entry_def cache_len_def)
  next
    case True
    define n where "n = (if counted_as_evictable (pages c r) \<and> \<not> counted_as_evictable (pages c v) then evictable_count c - 1
      else if \<not> counted_as_evictable (pages c r) \<and> counted_as_evictable (pages c v) then evictable_count c + 1
      else evictable_count c)"
    let ?c' = "set_entry p ((bump_ref e)\<lparr>entry_page := v\<rparr>) (c\<lparr>evictable_count := n\<rparr>)"
    have "cache_insert_gen key v upd bypass c = (Inr (), drop_ref r ?c')"
    proof -
      have "c = c\<lparr>evictable_count := evictable_count c\<rparr>" by simp
      then show ?thesis
        using True m e assms(3) by (auto simp: cache_insert_gen_def insert_existing_def Let_def n_def)
    qed
    moreover have "cache_inv ?c'" "lookup ?c' = (lookup c)(key \<mapsto> v)"
      using replace_page[OF assms(1) e(1), of v, unfolded e(2,3)] unfolding n_def by blast+
    ultimately show ?thesis using True by (simp add: set_entry_def cache_len_def)
  qed
qed

section \<open>The other operations\<close>

text \<open>What an operation that inserts nothing does: it only removes pages.\<close>

definition removes :: "page_cache \<Rightarrow> page_cache \<Rightarrow> bool" where
  "removes c c' \<longleftrightarrow>
     (\<forall>k r. lookup c' k = Some r \<longrightarrow> lookup c k = Some r) \<and>
     (\<forall>r. pages c' r \<in> {pages c r, evict_page (pages c r)})"

lemma removes_refl [simp]: "removes c c"
  by (simp add: removes_def)

lemma removes_trans: "removes a b \<Longrightarrow> removes b c \<Longrightarrow> removes a c"
proof -
  assume ab: "removes a b" and bc: "removes b c"
  have "pages c r \<in> {pages a r, evict_page (pages a r)}" for r
  proof -
    have "pages b r = pages a r \<or> pages b r = evict_page (pages a r)"
      "pages c r = pages b r \<or> pages c r = evict_page (pages b r)"
      using ab bc by (auto simp: removes_def)
    then show ?thesis by auto
  qed
  then show ?thesis using ab bc by (simp add: removes_def)
qed

lemma removes_dirty: "removes c c' \<Longrightarrow> is_dirty (pages c' r) = is_dirty (pages c r)"
proof -
  assume "removes c c'"
  then have "pages c' r = pages c r \<or> pages c' r = evict_page (pages c r)" by (auto simp: removes_def)
  then show ?thesis by auto
qed

lemma shrunk_removes: "shrunk c c' \<Longrightarrow> removes c c'"
  by (simp add: removes_def shrunkD(1)) (use shrunkD(5) in blast)

lemma cache_delete_removes:
  assumes "cache_inv c"
  shows "\<exists>res c'. cache_delete key c = (res, c') \<and> cache_inv c' \<and> removes c c' \<and> res \<noteq> Inl CacheAbort \<and>
     (\<forall>k r. lookup c k = Some r \<and> (k \<noteq> key \<or> delete_error (pages c r) \<noteq> None) \<longrightarrow> lookup c' k = Some r) \<and>
     (res = Inr () \<longrightarrow> lookup c' key = None)"
proof (cases "lookup c key")
  case None
  have "linked c" using assms by (auto simp: cache_inv_def cache_wf_def)
  then show ?thesis using cache_delete_absent[OF _ None, of True] None assms by (simp add: cache_delete_def)
next
  case (Some r)
  show ?thesis
  proof (cases "delete_error (pages c r)")
    case None
    then obtain c' where "cache_delete_gen key True c = (Inr (), c')" "cache_inv c'"
        "lookup c' = (lookup c)(key := None)" "pages c' = (pages c)(r := evict_page (pages c r))"
      using cache_delete_ok[OF assms Some None, of True] by auto
    then show ?thesis using Some None
      by (auto simp: cache_delete_def removes_def split: if_splits)
  next
    case err: (Some e)
    then show ?thesis
      using cache_delete_refused[OF assms Some err, of True] assms err Some
      by (auto simp: cache_delete_def delete_error_def split: if_splits)
  qed
qed

lemma delete_all_removes:
  assumes "cache_inv c"
  shows "\<exists>res c'. delete_all ks c = (res, c') \<and> cache_inv c' \<and> removes c c' \<and> res \<noteq> Inl CacheAbort \<and>
     (\<forall>k r. lookup c k = Some r \<and> (k \<notin> set ks \<or> is_dirty (pages c r)) \<longrightarrow> lookup c' k = Some r)"
  using assms
proof (induction ks arbitrary: c)
  case (Cons key ks)
  obtain res c1 where c1: "cache_delete key c = (res, c1)" "cache_inv c1" "removes c c1" "res \<noteq> Inl CacheAbort"
      "\<forall>k r. lookup c k = Some r \<and> (k \<noteq> key \<or> delete_error (pages c r) \<noteq> None) \<longrightarrow> lookup c1 k = Some r"
    using cache_delete_removes[OF Cons.prems, of key] by auto
  have keep: "lookup c1 k = Some r \<and> is_dirty (pages c1 r) = is_dirty (pages c r)"
    if "lookup c k = Some r" "k \<noteq> key \<or> is_dirty (pages c r)" for k r
    using c1(5) that removes_dirty[OF c1(3)] by (simp add: delete_error_def)
  show ?case
  proof (cases res)
    case (Inl e)
    then show ?thesis using c1 keep by auto
  next
    case (Inr u)
    obtain res2 c2 where c2: "delete_all ks c1 = (res2, c2)" "cache_inv c2" "removes c1 c2" "res2 \<noteq> Inl CacheAbort"
        "\<forall>k r. lookup c1 k = Some r \<and> (k \<notin> set ks \<or> is_dirty (pages c1 r)) \<longrightarrow> lookup c2 k = Some r"
      using Cons.IH[OF c1(2)] by auto
    then show ?thesis using c1(1) Inr removes_trans[OF c1(3) c2(3)] keep by auto
  qed
qed simp

lemma set_entry_fields [simp]:
  "pages (set_entry p e c) = pages c" "strong_count (set_entry p e c) = strong_count c"
  "capacity (set_entry p e c) = capacity c" "cmap (set_entry p e c) = cmap c"
  "strong_count (clone_ref r c) = (strong_count c)(r := strong_count c r + 1)"
  by (simp_all add: set_entry_def clone_ref_def)

lemma cache_get_ok:
  assumes "cache_inv c"
  shows "\<exists>res c'. cache_get key c = (res, c') \<and> cache_inv c' \<and> removes c c' \<and> res \<noteq> Inl CacheAbort \<and>
     (\<forall>r. res = Inr (Some r) \<longrightarrow> lookup c key = Some r \<and> lookup c' = lookup c \<and>
        strong_count c' = (strong_count c)(r := strong_count c r + 1)) \<and>
     (\<forall>k r. lookup c k = Some r \<and> delete_error (pages c r) \<noteq> None \<longrightarrow> lookup c' k = Some r)"
proof (cases "lookup c key")
  case None
  have "linked c" using assms by (auto simp: cache_inv_def cache_wf_def)
  then show ?thesis using None assms by (simp add: cache_get_def lookup_None)
next
  case (Some r)
  have l: "linked c" using assms by (auto simp: cache_inv_def cache_wf_def)
  obtain p e where e: "heap c p = Some e" "entry_key e = key" "entry_page e = r"
    using Some lookup_Some[OF l] by blast
  have m: "map_of (cmap c) key = Some p" using e by (auto simp: linked_map_of[OF l])
  show ?thesis
  proof (cases "\<not> is_loaded (pages c r) \<and> \<not> is_locked (pages c r)")
    case True
    obtain res c' where c': "cache_delete key c = (res, c')" "cache_inv c'" "removes c c'" "res \<noteq> Inl CacheAbort"
      "\<forall>k r. lookup c k = Some r \<and> (k \<noteq> key \<or> delete_error (pages c r) \<noteq> None) \<longrightarrow> lookup c' k = Some r"
      using cache_delete_removes[OF assms, of key] by auto
    have "cache_get key c = then_do (res, c') (\<lambda>_ c. (Inr None, c))"
      using m e True c'(1) by (simp add: cache_get_def)
    then show ?thesis using c' by (cases res) auto
  next
    case False
    then have "cache_get key c = (Inr (Some r), clone_ref r (set_entry p (bump_ref e) c))"
      using m e by (auto simp: cache_get_def)
    then show ?thesis using touch_entry[OF assms e(1)] Some by (simp add: removes_def)
  qed
qed

lemma cache_peek_ok:
  assumes "cache_inv c"
  shows "\<exists>c'. cache_peek key touch c = (Inr (lookup c key), c') \<and> cache_inv c' \<and> removes c c' \<and> lookup c' = lookup c"
proof (cases "lookup c key")
  case None
  have "linked c" using assms by (auto simp: cache_inv_def cache_wf_def)
  then have "map_of (cmap c) key = None" using None lookup_None by blast
  then show ?thesis using None assms by (simp add: cache_peek_def)
next
  case (Some r)
  have l: "linked c" using assms by (auto simp: cache_inv_def cache_wf_def)
  obtain p e where e: "heap c p = Some e" "entry_key e = key" "entry_page e = r"
    using Some lookup_Some[OF l] by blast
  have m: "map_of (cmap c) key = Some p" using e by (auto simp: linked_map_of[OF l])
  then show ?thesis using touch_entry[OF assms e(1)] Some e assms
    by (auto simp: cache_peek_def removes_def)
qed

lemma cache_resize_ok:
  assumes "cache_inv c"
  shows "\<exists>res c'. cache_resize n c = (res, c') \<and> cache_inv c' \<and> removes c c' \<and>
     (res = ResizeDone \<and> n \<noteq> capacity c \<longrightarrow> cache_len c' \<le> capacity c' \<and> capacity c' = n) \<and>
     (\<forall>k r. lookup c k = Some r \<and> \<not> evictable c r \<longrightarrow> lookup c' k = Some r)"
proof (cases "evict_to n c")
  case (Pair res c1)
  note ev = evict_to_inv[OF assms, of n, unfolded Pair]
  show ?thesis
  proof (cases "n = capacity c")
    case True
    then show ?thesis using assms by (simp add: cache_resize_def)
  next
    case False
    let ?c2 = "c1\<lparr>capacity := n, spill_threshold := max (n * 90 div 100) 1\<rparr>"
    have f: "lookup ?c2 = lookup c1" "cache_wf ?c2 = cache_wf c1" "cache_len ?c2 = cache_len c1"
        "counted_total ?c2 = counted_total c1"
      using cache_frame[of ?c2 c1] by simp_all
    show ?thesis
    proof (cases res)
      case (Inl e)
      then show ?thesis using ev False Pair shrunk_removes shrunkD(2)[of c c1] by (auto simp: cache_resize_def)
    next
      case (Inr u)
      have c1: "cache_inv c1" "shrunk c c1" "cache_len c1 \<le> n" using ev Inr by auto
      moreover have "removes c ?c2" using shrunk_removes[OF c1(2)] f(1) by (simp add: removes_def)
      moreover have "\<forall>k r. lookup c k = Some r \<and> \<not> evictable c r \<longrightarrow> lookup c1 k = Some r"
        using shrunkD(2)[OF c1(2)] by blast
      ultimately show ?thesis using False Pair Inr f
        by (auto simp: cache_resize_def cache_inv_def)
    qed
  qed
qed

lemma fold_update_pages:
  "fold (\<lambda>e. update_page (entry_page e) evict_page) es c =
     c\<lparr>pages := pages (fold (\<lambda>e. update_page (entry_page e) evict_page) es c)\<rparr> \<and>
   pages (fold (\<lambda>e. update_page (entry_page e) evict_page) es c) r \<in> {pages c r, evict_page (pages c r)}"
proof (induction es arbitrary: c)
  case (Cons e es)
  let ?c1 = "update_page (entry_page e) evict_page c"
  show ?case using Cons.IH[of ?c1] by (auto simp: update_page_def)
qed simp

lemma fold_drop_refs:
  "fold (\<lambda>e. drop_ref (entry_page e)) es c =
     c\<lparr>strong_count := strong_count (fold (\<lambda>e. drop_ref (entry_page e)) es c)\<rparr>"
proof (induction es arbitrary: c)
  case (Cons e es)
  show ?case using Cons.IH[of "drop_ref (entry_page e) c"] by (simp add: drop_ref_def)
qed simp

lemma first_dirty_None: "first_dirty c es = None \<longleftrightarrow> (\<forall>e\<in>set es. \<not> is_dirty (pages c (entry_page e)))"
  by (induction es) (auto simp: Let_def)

lemma lookup_map_entries: "lookup c k = Some r \<Longrightarrow> \<exists>e\<in>set (map_entries c). entry_page e = r"
proof -
  assume "lookup c k = Some r"
  then obtain p e where pe: "map_of (cmap c) k = Some p" "heap c p = Some e" "entry_page e = r"
    by (auto simp: lookup_def bind_eq_Some_conv)
  have "e \<in> set (map_entries c)"
    using map_of_SomeD[OF pe(1)] pe(2) by (auto simp: map_entries_def entry_at_def intro!: bexI[of _ "(k, p)"])
  then show ?thesis using pe(3) by blast
qed

lemma cache_clear_ok:
  assumes "cache_inv c"
  shows "\<exists>res c'. cache_clear b c = (res, c') \<and> cache_inv c' \<and> removes c c' \<and> res \<noteq> Inl CacheAbort \<and>
     (if res = Inr () then cache_len c' = 0 \<and> (b \<or> (\<forall>k r. lookup c k = Some r \<longrightarrow> \<not> is_dirty (pages c r)))
      else c' = c \<and> \<not> b)"
proof (cases "if b then None else first_dirty c (map_entries c)")
  case (Some pgno)
  then show ?thesis using assms by (auto simp: cache_clear_def split: if_splits)
next
  case None
  define c1 where "c1 = fold (\<lambda>e. update_page (entry_page e) evict_page) (map_entries c) c"
  define c2 where "c2 = fold (\<lambda>e. drop_ref (entry_page e)) (concat (map (entry_at c1) (queue c1))) c1"
  define c' where "c' = c2\<lparr>cmap := [], queue := [], heap := (\<lambda>p. if p \<in> set (queue c2) then None else heap c2 p),
      clock_hand := None, evictable_count := 0\<rparr>"
  have run: "cache_clear b c = (Inr (), c')"
    unfolding c'_def c2_def c1_def cache_clear_def None Let_def by simp
  have c1: "c1 = c\<lparr>pages := pages c1\<rparr>" "pages c1 r \<in> {pages c r, evict_page (pages c r)}" for r
    unfolding c1_def using fold_update_pages by blast+
  have c2: "c2 = c1\<lparr>strong_count := strong_count c2\<rparr>" unfolding c2_def by (rule fold_drop_refs)
  have q: "queue c2 = queue c" "heap c2 = heap c" "pages c2 = pages c1" by (subst c2, simp, subst c1(1), simp)+ (subst c2, simp)
  have "heap c' = (\<lambda>_. None)"
    using assms linkedD(3)[of c] by (auto simp: c'_def q fun_eq_iff cache_inv_def cache_wf_def)
  then have "cache_inv c'"
    by (simp add: cache_inv_def cache_wf_def linked_def hand_ok_def c'_def)
  moreover have "removes c c'" using c1(2) q(3) by (simp add: removes_def lookup_def c'_def)
  moreover have "b \<or> (\<forall>k r. lookup c k = Some r \<longrightarrow> \<not> is_dirty (pages c r))"
    using None lookup_map_entries by (metis first_dirty_None)
  ultimately show ?thesis using run by (simp add: cache_len_def c'_def)
qed

end
