(* ===== verification/CacheMachine.thy ===== *)
theory CacheMachine
  imports CacheOps
begin

text \<open>
  The page cache together with its client: the operations of \<^verbatim>\<open>core/storage/page_cache.rs\<close>
  and the page state changes of \<^verbatim>\<open>core/storage/pager.rs\<close> as one machine, the contract its
  callers keep, the interface \<open>object_cache\<close> that the pager relies on, and the properties of
  all runs.
\<close>

section \<open>Page state changes outside the cache\<close>

text \<open>The part of \<open>Pager::add_dirty\<close> that touches the cache, and the end of a spill.\<close>

definition add_dirty :: "page_ref \<Rightarrow> page_cache \<Rightarrow> (cache_error + unit) \<times> page_cache" where
  "add_dirty r c =
     (let pg = pages c r
      in if \<not> is_loaded pg then (Inl CacheAbort, c)
         else
           then_do (if \<not> is_dirty pg \<or> is_spilled pg then notify_page_dirty (inner_id pg) c else (Inr (), c))
             (\<lambda>_ c. (Inr (), update_page r set_dirty c)))"

definition mark_spilled :: "page_ref \<Rightarrow> page_cache \<Rightarrow> (cache_error + unit) \<times> page_cache" where
  "mark_spilled r c =
     (if has_wal_tag (pages c r)
      then then_do (notify_page_spilled (inner_id (pages c r)) c) (\<lambda>_ c. (Inr (), update_page r set_spilled c))
      else (Inr (), c))"

text \<open>Pages are cached under their own number.\<close>

definition keyed :: "page_cache \<Rightarrow> bool" where
  "keyed c \<longleftrightarrow> (\<forall>k r. lookup c k = Some r \<longrightarrow> inner_id (pages c r) = k)"

definition cache_good :: "page_cache \<Rightarrow> bool" where
  "cache_good c \<longleftrightarrow> cache_inv c \<and> keyed c"

lemma update_page_frame [simp]:
  "lookup (update_page r f c) = lookup c" "cache_wf (update_page r f c) = cache_wf c"
  "cache_len (update_page r f c) = cache_len c" "evictable_count (update_page r f c) = evictable_count c"
  "pages (update_page r f c) = (pages c)(r := f (pages c r))"
  using cache_frame[of "update_page r f c" c] by (simp_all add: update_page_def)

lemma filter_no_change: "\<forall>x\<in>set xs. P x = Q x \<Longrightarrow> length (filter P xs) = length (filter Q xs)"
  by (metis (mono_tags, lifting) filter_cong)

lemma counted_total_update:
  assumes "linked c" "keyed c" and k_def: "k = inner_id (pages c r)"
  shows "counted_total (update_page r f c) + (if lookup c k = Some r \<and> counted_as_evictable (pages c r) then 1 else 0) =
     counted_total c + (if lookup c k = Some r \<and> counted_as_evictable (f (pages c r)) then 1 else 0)"
proof (cases "lookup c k = Some r")
  case True
  obtain p e where e: "heap c p = Some e" "entry_key e = k" "entry_page e = r"
    using True lookup_Some[OF assms(1)] by blast
  have other: "page_at c q \<noteq> r" if q: "q \<in> set (queue c)" "q \<noteq> p" for q
  proof
    assume *: "page_at c q = r"
    obtain e' where e': "heap c q = Some e'" using linkedD(3)[OF assms(1)] q(1) by blast
    then have "entry_page e' = r" using * by (simp add: page_at_def)
    then have "entry_key e' = k"
      using linked_lookup[OF assms(1) e'] assms(2) by (simp add: keyed_def k_def)
    then show False using linked_unique[OF assms(1) e' e(1)] e(2) q(2) by simp
  qed
  let ?P = "counted_at c" and ?Q = "\<lambda>q. if q = p then counted_at (update_page r f c) q else counted_at c q"
  have "length (filter (counted_at (update_page r f c)) (queue c)) = length (filter ?Q (queue c))"
    using other by (intro filter_no_change) (auto simp: counted_at_def page_at_def update_page_def)
  moreover have "length (filter ?Q (queue c)) + (if ?P p then 1 else 0) = length (filter ?P (queue c)) + (if ?Q p then 1 else 0)"
    by (rule length_filter_update[OF linkedD(1)[OF assms(1)] linked_queue[OF assms(1) e(1)]]) simp
  moreover have "queue (update_page r f c) = queue c" by (simp add: update_page_def)
  moreover have "?P p = counted_as_evictable (pages c r)" "?Q p = counted_as_evictable (f (pages c r))"
    using e by (simp_all add: counted_at_def page_at_def update_page_def)
  ultimately show ?thesis using True by (simp add: counted_total_def)
next
  case False
  have "page_at c q \<noteq> r" if q: "q \<in> set (queue c)" for q
  proof
    assume *: "page_at c q = r"
    obtain e' where e': "heap c q = Some e'" using linkedD(3)[OF assms(1)] q(1) by blast
    then have "lookup c (entry_key e') = Some r" using linked_lookup[OF assms(1) e'] * by (simp add: page_at_def)
    then show False using assms(2) False by (auto simp: keyed_def k_def)
  qed
  then have "length (filter (counted_at (update_page r f c)) (queue c)) = length (filter (counted_at c) (queue c))"
    by (intro filter_no_change) (auto simp: counted_at_def page_at_def update_page_def)
  then show ?thesis using False by (simp add: counted_total_def update_page_def)
qed

lemma notify_frame:
  "lookup (snd (notify_page_dirty k c)) = lookup c" "cache_wf (snd (notify_page_dirty k c)) = cache_wf c"
  "pages (snd (notify_page_dirty k c)) = pages c" "counted_total (snd (notify_page_dirty k c)) = counted_total c"
  "lookup (snd (notify_page_spilled k c)) = lookup c" "cache_wf (snd (notify_page_spilled k c)) = cache_wf c"
  "pages (snd (notify_page_spilled k c)) = pages c" "counted_total (snd (notify_page_spilled k c)) = counted_total c"
proof -
  have f: "cmap (snd (notify_page_dirty k c)) = cmap c" "heap (snd (notify_page_dirty k c)) = heap c"
    "queue (snd (notify_page_dirty k c)) = queue c" "clock_hand (snd (notify_page_dirty k c)) = clock_hand c"
    "next_addr (snd (notify_page_dirty k c)) = next_addr c" "pages (snd (notify_page_dirty k c)) = pages c"
    "cmap (snd (notify_page_spilled k c)) = cmap c" "heap (snd (notify_page_spilled k c)) = heap c"
    "queue (snd (notify_page_spilled k c)) = queue c" "clock_hand (snd (notify_page_spilled k c)) = clock_hand c"
    "next_addr (snd (notify_page_spilled k c)) = next_addr c" "pages (snd (notify_page_spilled k c)) = pages c"
    by (auto simp: notify_page_dirty_def notify_page_spilled_def split: option.splits)
  show "lookup (snd (notify_page_dirty k c)) = lookup c" "cache_wf (snd (notify_page_dirty k c)) = cache_wf c"
    "pages (snd (notify_page_dirty k c)) = pages c" "counted_total (snd (notify_page_dirty k c)) = counted_total c"
    "lookup (snd (notify_page_spilled k c)) = lookup c" "cache_wf (snd (notify_page_spilled k c)) = cache_wf c"
    "pages (snd (notify_page_spilled k c)) = pages c" "counted_total (snd (notify_page_spilled k c)) = counted_total c"
    using cache_frame[OF f(1-5)] cache_frame[OF f(7-11)] f by simp_all
qed

lemma notify_count:
  "evictable_count (snd (notify_page_dirty k c)) = evictable_count c -
     (case lookup c k of Some r \<Rightarrow> if inner_id (pages c r) \<noteq> 1 then 1 else 0 | None \<Rightarrow> 0)"
  "evictable_count (snd (notify_page_spilled k c)) = evictable_count c +
     (case lookup c k of Some r \<Rightarrow> if inner_id (pages c r) \<noteq> 1 then 1 else 0 | None \<Rightarrow> 0)"
  by (auto simp: notify_page_dirty_def notify_page_spilled_def lookup_def split: option.splits)

lemma notify_ok:
  assumes "linked c"
  shows "notify_page_dirty k c = (Inr (), snd (notify_page_dirty k c))" "notify_page_spilled k c = (Inr (), snd (notify_page_spilled k c))"
  using linked_map_of[OF assms, of k] by (auto simp: notify_page_dirty_def notify_page_spilled_def split: option.splits)

lemma keyed_update:
  "keyed c \<Longrightarrow> inner_id (f (pages c r)) = inner_id (pages c r) \<Longrightarrow> keyed (update_page r f c)"
  by (auto simp: keyed_def)

text \<open>A page may change in any way that keeps its number and does not make it unevictable.\<close>

lemma update_page_good:
  assumes "cache_good c" "inner_id (f (pages c r)) = inner_id (pages c r)"
    "counted_as_evictable (pages c r) \<Longrightarrow> counted_as_evictable (f (pages c r))"
  shows "cache_good (update_page r f c)"
proof -
  have l: "linked c" "keyed c" using assms(1) by (auto simp: cache_good_def cache_inv_def cache_wf_def)
  have "counted_total c \<le> counted_total (update_page r f c)"
    using counted_total_update[OF l refl, of r f] assms(3) by (auto split: if_splits)
  then show ?thesis using assms(1) keyed_update[of c f r] l(2) assms(2) by (simp add: cache_good_def cache_inv_def)
qed

lemma set_flags_id [simp]: "inner_id (set_dirty pg) = inner_id pg" "inner_id (set_spilled pg) = inner_id pg"
  by (simp_all add: set_dirty_def set_spilled_def clear_wal_tag_def Let_def)

lemma counted_set_dirty [simp]: "\<not> counted_as_evictable (set_dirty pg)"
  by (simp add: counted_as_evictable_def page_flag_simps)

lemma add_dirty_good:
  assumes "cache_good c" "is_loaded (pages c r)"
    "\<forall>r'. lookup c (inner_id (pages c r)) = Some r' \<longrightarrow> r' = r"
  shows "\<exists>c'. add_dirty r c = (Inr (), c') \<and> cache_good c' \<and> lookup c' = lookup c"
proof -
  let ?pg = "pages c r" and ?k = "inner_id (pages c r)"
  have l: "linked c" "keyed c" "evictable_count c \<le> counted_total c" "cache_wf c"
    using assms(1) by (auto simp: cache_good_def cache_inv_def cache_wf_def)
  note t = counted_total_update[OF l(1,2) refl, of r set_dirty]
  define c1 where "c1 = (if \<not> is_dirty ?pg \<or> is_spilled ?pg then snd (notify_page_dirty ?k c) else c)"
  have c1: "lookup c1 = lookup c" "cache_wf c1 = cache_wf c" "pages c1 = pages c" "counted_total c1 = counted_total c"
    by (simp_all add: c1_def notify_frame)
  have run: "add_dirty r c = (Inr (), update_page r set_dirty c1)"
    using assms(2) notify_ok(1)[OF l(1), of ?k] by (cases "notify_page_dirty ?k c") (simp add: add_dirty_def c1_def Let_def)
  have l1: "linked c1" "keyed c1"
    using c1 l(2,4) by (auto simp: cache_wf_def keyed_def)
  have "evictable_count c1 \<le> counted_total (update_page r set_dirty c1)"
  proof -
    have t1: "counted_total (update_page r set_dirty c1) + (if lookup c ?k = Some r \<and> counted_as_evictable ?pg then 1 else 0) = counted_total c"
      using counted_total_update[OF l1 refl, of r set_dirty] c1 by simp
    show ?thesis
    proof (cases "lookup c ?k = Some r \<and> counted_as_evictable ?pg")
      case True
      then have "\<not> is_dirty ?pg \<or> is_spilled ?pg" "?k \<noteq> 1"
        by (auto simp: counted_as_evictable_def split: if_splits)
      then have "evictable_count c1 = evictable_count c - 1" using True by (simp add: c1_def notify_count)
      then show ?thesis using t1 True l(3) by auto
    next
      case False
      have "evictable_count c1 \<le> evictable_count c" by (simp add: c1_def notify_count)
      then show ?thesis using t1 False l(3) by auto
    qed
  qed
  then have "cache_good (update_page r set_dirty c1)"
    using c1(2) l(4) keyed_update[OF l1(2)] by (simp add: cache_good_def cache_inv_def)
  then show ?thesis using run c1(1) by simp
qed

lemma mark_spilled_good:
  assumes "cache_good c" "is_dirty (pages c r)" "\<not> is_spilled (pages c r)"
    "\<forall>r'. lookup c (inner_id (pages c r)) = Some r' \<longrightarrow> r' = r"
  shows "\<exists>c'. mark_spilled r c = (Inr (), c') \<and> cache_good c' \<and> lookup c' = lookup c"
proof -
  let ?pg = "pages c r" and ?k = "inner_id (pages c r)"
  have l: "linked c" "keyed c" "evictable_count c \<le> counted_total c" "cache_wf c"
    using assms(1) by (auto simp: cache_good_def cache_inv_def cache_wf_def)
  let ?c1 = "snd (notify_page_spilled ?k c)"
  have l1: "linked ?c1" "keyed ?c1" using notify_frame[of ?k c] l(2,4) by (auto simp: cache_wf_def keyed_def)
  have nc: "\<not> counted_as_evictable ?pg" using assms(2,3) by (simp add: counted_as_evictable_def)
  have sp: "counted_as_evictable (set_spilled ?pg) \<longleftrightarrow> ?k \<noteq> 1"
    by (simp add: counted_as_evictable_def page_flag_simps)
  have "counted_total (update_page r set_spilled ?c1) = counted_total c + (if lookup c ?k = Some r \<and> ?k \<noteq> 1 then 1 else 0)"
    using counted_total_update[OF l1 refl, of r set_spilled] nc sp by (simp add: notify_frame)
  moreover have "evictable_count ?c1 \<le> evictable_count c + (if lookup c ?k = Some r \<and> ?k \<noteq> 1 then 1 else 0)"
    using assms(4) by (auto simp: notify_count split: option.splits)
  ultimately have "cache_good (update_page r set_spilled ?c1)"
    using l keyed_update[OF l1(2)] by (auto simp: cache_good_def cache_inv_def notify_frame)
  moreover have "mark_spilled r c = (Inr (), if has_wal_tag ?pg then update_page r set_spilled ?c1 else c)"
    using notify_ok(2)[OF l(1), of ?k] by (cases "notify_page_spilled ?k c") (simp add: mark_spilled_def)
  ultimately show ?thesis using assms(1) by (simp add: notify_frame)
qed

section \<open>One operation\<close>

definition unwritten :: "page_inner \<Rightarrow> bool" where
  "unwritten pg \<longleftrightarrow> is_dirty pg \<and> \<not> is_spilled pg"

text \<open>What an operation may do to the cached pages: gain those of \<open>puts\<close>, and of the pages whose
  changes are nowhere else lose only those under a key of \<open>lost\<close>.\<close>

definition cache_step :: "(nat \<times> page_ref) set \<Rightarrow> nat set \<Rightarrow> page_cache \<Rightarrow> page_cache \<Rightarrow> bool" where
  "cache_step puts lost c c' \<longleftrightarrow>
     cache_good c' \<and>
     (\<forall>k r. lookup c' k = Some r \<longrightarrow> lookup c k = Some r \<or> (k, r) \<in> puts) \<and>
     (\<forall>k r. lookup c k = Some r \<and> unwritten (pages c r) \<and> k \<notin> lost \<longrightarrow> lookup c' k = Some r)"

text \<open>Pages change at most by eviction.\<close>

definition only_evicts :: "page_cache \<Rightarrow> page_cache \<Rightarrow> bool" where
  "only_evicts c c' \<longleftrightarrow> (\<forall>r. pages c' r \<in> {pages c r, evict_page (pages c r)})"

lemma only_evictsD:
  assumes "only_evicts c c'"
  shows "inner_id (pages c' r) = inner_id (pages c r)" "unwritten (pages c' r) = unwritten (pages c r)"
    "is_locked (pages c' r) = is_locked (pages c r)" "is_loaded (pages c' r) \<Longrightarrow> is_loaded (pages c r)"
proof -
  consider "pages c' r = pages c r" | "pages c' r = evict_page (pages c r)" using assms by (auto simp: only_evicts_def)
  then show "inner_id (pages c' r) = inner_id (pages c r)" "unwritten (pages c' r) = unwritten (pages c r)"
    "is_locked (pages c' r) = is_locked (pages c r)" "is_loaded (pages c' r) \<Longrightarrow> is_loaded (pages c r)"
    by (cases; simp add: unwritten_def)+
qed

lemma only_evicts_trans: "only_evicts a b \<Longrightarrow> only_evicts b c \<Longrightarrow> only_evicts a c"
  unfolding only_evicts_def by (metis evict_page_idem insert_iff singletonD)

lemma cache_step_trans:
  assumes "cache_step P L a b" "cache_step P L b c" "only_evicts a b"
  shows "cache_step P L a c"
  using assms(1,2) only_evictsD(2)[OF assms(3)] unfolding cache_step_def by metis

lemma keyed_step:
  assumes "keyed c" "only_evicts c c'" "inner_id (pages c v) = key"
    "\<forall>k r. lookup c' k = Some r \<longrightarrow> lookup c k = Some r \<or> k = key \<and> r = v"
  shows "keyed c'"
  using assms only_evictsD(1)[OF assms(2)] unfolding keyed_def by metis

lemma unwritten_evictable: "unwritten (pages c r) \<Longrightarrow> \<not> evictable c r"
  by (auto simp: unwritten_def evictable_def)

lemma admits_step:
  assumes "cache_good c" "inner_id (pages c v) = key" "admits key v c c'" "cache_inv c'"
    "\<And>r. lookup c key = Some r \<Longrightarrow> unwritten (pages c r) \<Longrightarrow> key \<in> lost"
  shows "cache_step {(key, v)} lost c c'" "only_evicts c c'"
proof -
  show o: "only_evicts c c'" using assms(3) by (simp add: admits_def only_evicts_def)
  have g: "\<forall>k r. lookup c' k = Some r \<longrightarrow> lookup c k = Some r \<or> k = key \<and> r = v"
    using assms(3) by (simp add: admits_def)
  have kc: "keyed c" using assms(1) by (simp add: cache_good_def)
  have "lookup c' k = Some r" if k: "lookup c k = Some r" "unwritten (pages c r)" "k \<notin> lost" for k r
  proof -
    have "k \<noteq> key" using assms(5) k by blast
    moreover have "lookup c key \<noteq> Some r" using kc k(1) calculation unfolding keyed_def by metis
    ultimately show ?thesis using assms(3) k unwritten_evictable[OF k(2)] by (auto simp: admits_def)
  qed
  then show "cache_step {(key, v)} lost c c'"
    using assms(4) g keyed_step[OF kc o assms(2) g] by (auto simp: cache_step_def cache_good_def)
qed

definition replaceable :: "nat \<Rightarrow> page_ref \<Rightarrow> page_cache \<Rightarrow> bool" where
  "replaceable key v c \<longleftrightarrow>
     (case lookup c key of None \<Rightarrow> True
      | Some r \<Rightarrow> r = v \<or> \<not> is_loaded (pages c r) \<and> \<not> is_locked (pages c r))"

lemma cache_insert_refused:
  assumes "cache_inv c" "lookup c key = Some r" "\<not> is_loaded (pages c r)" "\<not> is_locked (pages c r)"
    "delete_error (pages c r) = Some err"
  shows "cache_insert_gen key v upd bypass c = (Inl err, drop_ref v c)"
proof -
  have l: "linked c" using assms(1) by (simp add: cache_inv_def cache_wf_def)
  obtain p e where pe: "map_of (cmap c) key = Some p" "heap c p = Some e" "entry_page e = r"
    using assms(2) by (auto simp: lookup_def bind_eq_Some_conv)
  show ?thesis
    using pe assms(3,4) cache_delete_refused[OF assms(1,2,5), of True]
    by (simp add: cache_insert_gen_def insert_existing_def Let_def)
qed

lemma insert_gen_step:
  assumes "cache_good c" "inner_id (pages c v) = key" "upd \<or> replaceable key v c"
    "cache_insert_gen key v upd bypass c = (res, c')"
  shows "cache_step {(key, v)} (if upd then {key} else {}) c c' \<and> only_evicts c c' \<and>
     res \<noteq> Inl CacheAbort \<and> (if res = Inr () then lookup c' key = Some v else lookup c' \<subseteq>\<^sub>m lookup c) \<and>
     (res = Inl Full \<longrightarrow> \<not> bypass)"
proof -
  let ?lost = "if upd then {key} else {}"
  have i: "cache_inv c" "keyed c" using assms(1) by (simp_all add: cache_good_def)
  note step = admits_step[OF assms(1,2), of c' ?lost]
  consider (absent) "lookup c key = None"
    | (refused) r err where "lookup c key = Some r" "\<not> is_loaded (pages c r)" "\<not> is_locked (pages c r)"
        "delete_error (pages c r) = Some err"
    | (stale) r where "lookup c key = Some r" "\<not> is_loaded (pages c r)" "\<not> is_locked (pages c r)"
        "delete_error (pages c r) = None"
    | (used) r where "lookup c key = Some r" "is_loaded (pages c r) \<or> is_locked (pages c r)"
    by (cases "lookup c key"; cases "\<exists>r. lookup c key = Some r \<and> delete_error (pages c r) = None") auto
  then show ?thesis
  proof cases
    case absent
    then show ?thesis using cache_insert_absent[OF i(1) absent, where v = v and upd = upd and bypass = bypass] step assms(4)
      by (cases res) auto
  next
    case refused
    then have "res = Inl err" "c' = drop_ref v c" using cache_insert_refused[OF i(1) refused] assms(4) by simp_all
    moreover have "err \<noteq> CacheAbort" "err \<noteq> Full" using refused(4) by (auto simp: delete_error_def split: if_splits)
    ultimately show ?thesis using assms(1)
      by (auto simp: cache_step_def cache_good_def keyed_def only_evicts_def)
  next
    case stale
    then have "\<not> unwritten (pages c r)" by (auto simp: delete_error_def unwritten_def split: if_splits)
    then show ?thesis using cache_insert_stale[OF i(1) stale(1-3), where v = v and upd = upd and bypass = bypass] stale step assms(4)
      by (cases res) auto
  next
    case used
    then obtain c2 where c2: "cache_insert_gen key v upd bypass c =
        (if upd then Inr () else if r = v then Inl KeyExists else Inl CacheAbort, c2)"
      "cache_inv c2" "lookup c2 = (if upd then (lookup c)(key \<mapsto> v) else lookup c)" "pages c2 = pages c"
      using cache_insert_used[OF i(1) used, of v upd bypass] by blast
    have "upd \<or> r = v" using assms(3) used by (auto simp: replaceable_def)
    then show ?thesis using c2 assms(2,4) i(2)
      by (auto simp: cache_step_def cache_good_def keyed_def only_evicts_def split: if_splits)
  qed
qed

lemma cache_step_refs [simp]:
  "cache_step P L (clone_ref r c) c' = cache_step P L c c'" "cache_step P L c (drop_ref r c') = cache_step P L c c'"
  "cache_step P L c (clone_ref r c') = cache_step P L c c'"
  "only_evicts (clone_ref r c) c' = only_evicts c c'" "only_evicts c (drop_ref r c') = only_evicts c c'"
  "cache_good (clone_ref r c) = cache_good c" "cache_good (drop_ref r c) = cache_good c"
  "replaceable key v (clone_ref r c) = replaceable key v c"
  by (simp_all add: cache_step_def only_evicts_def cache_good_def keyed_def replaceable_def cong: option.case_cong)

lemma cache_step_good: "cache_step P L c c' \<Longrightarrow> cache_good c'"
  by (simp add: cache_step_def)

lemma replaceable_step:
  assumes "replaceable key v c" "cache_step {(key, v)} L c c'" "only_evicts c c'"
  shows "replaceable key v c'"
proof (cases "lookup c' key")
  case (Some r)
  then have "lookup c key = Some r \<or> r = v" using assms(2) by (auto simp: cache_step_def)
  then show ?thesis using assms(1) Some only_evictsD(3,4)[OF assms(3)] by (auto simp: replaceable_def)
qed (simp add: replaceable_def)

text \<open>Both forced insertions: a second attempt past the capacity when the first one finds no room.\<close>

lemma forced_step:
  assumes "cache_good c" "inner_id (pages c v) = key" "upd \<or> replaceable key v c"
    "(case cache_insert_gen key v upd False (clone_ref v c) of
        (Inl Full, c) \<Rightarrow> cache_insert_gen key v upd True c
      | (res, c) \<Rightarrow> (res, drop_ref v c)) = (res, c')"
  shows "cache_step {(key, v)} (if upd then {key} else {}) c c' \<and>
     res \<noteq> Inl CacheAbort \<and> res \<noteq> Inl Full \<and> (if res = Inr () then lookup c' key = Some v else lookup c' \<subseteq>\<^sub>m lookup c)"
proof -
  obtain res1 c1 where r1: "cache_insert_gen key v upd False (clone_ref v c) = (res1, c1)" by fastforce
  note s1 = insert_gen_step[OF _ _ _ r1, simplified, OF assms(1,2,3)]
  show ?thesis
  proof (cases "res1 = Inl Full")
    case True
    then have r2: "cache_insert_gen key v upd True c1 = (res, c')" using assms(4) r1 by simp
    have "cache_good c1" "inner_id (pages c1 v) = key" "upd \<or> replaceable key v c1"
      using s1 assms(2,3) replaceable_step only_evictsD(1)[of c c1 v] by (auto simp: cache_step_good)
    from insert_gen_step[OF this r2] show ?thesis using s1 True cache_step_trans[of _ _ c c1 c'] map_le_trans[of "lookup c'" "lookup c1" "lookup c"]
      by auto
  next
    case False
    then have "(res, c') = (res1, drop_ref v c1)"
      using assms(4) r1 by (cases res1) (auto split: cache_error.splits)
    then show ?thesis using s1 False by auto
  qed
qed

lemma removes_step:
  assumes "cache_good c" "cache_inv c'" "removes c c'"
    "\<And>k r. lookup c k = Some r \<Longrightarrow> unwritten (pages c r) \<Longrightarrow> k \<notin> lost \<Longrightarrow> lookup c' k = Some r"
  shows "cache_step {} lost c c'"
proof -
  have o: "only_evicts c c'" using assms(3) by (simp add: removes_def only_evicts_def)
  have "keyed c'" using assms(1,3) only_evictsD(1)[OF o] unfolding keyed_def removes_def cache_good_def by metis
  then have "cache_good c'" using assms(2) by (simp add: cache_good_def)
  moreover have "\<forall>k r. lookup c' k = Some r \<longrightarrow> lookup c k = Some r \<or> (k, r) \<in> {}"
    using assms(3) unfolding removes_def by blast
  ultimately show ?thesis unfolding cache_step_def using assms(4) by blast
qed

lemma unwritten_delete_error: "unwritten pg \<Longrightarrow> delete_error pg \<noteq> None"
  by (simp add: unwritten_def delete_error_def)

lemma cache_delete_step:
  assumes "cache_good c" "cache_delete key c = (res, c')"
  shows "cache_step {} {} c c' \<and> res \<noteq> Inl CacheAbort \<and> (res = Inr () \<longrightarrow> lookup c' key = None)"
proof -
  have "cache_inv c" using assms(1) by (simp add: cache_good_def)
  from cache_delete_removes[OF this, of key] show ?thesis
    using assms unwritten_delete_error by (auto intro!: removes_step)
qed

lemma delete_all_step:
  assumes "cache_good c" "delete_all ks c = (res, c')"
  shows "cache_step {} {} c c' \<and> res \<noteq> Inl CacheAbort"
proof -
  have "cache_inv c" using assms(1) by (simp add: cache_good_def)
  from delete_all_removes[OF this, of ks] show ?thesis
    using assms by (auto intro!: removes_step simp: unwritten_def)
qed

lemma cache_get_step:
  assumes "cache_good c" "cache_get key c = (res, c')"
  shows "cache_step {} {} c c' \<and> res \<noteq> Inl CacheAbort"
proof -
  have "cache_inv c" using assms(1) by (simp add: cache_good_def)
  then have g: "cache_inv c'" "removes c c'" "res \<noteq> Inl CacheAbort"
    and k: "\<forall>k r. lookup c k = Some r \<and> delete_error (pages c r) \<noteq> None \<longrightarrow> lookup c' k = Some r"
    using cache_get_ok[of c key] assms(2) by auto
  show ?thesis
    using removes_step[OF assms(1) g(1,2), of "{}"] k g(3) unwritten_delete_error by blast
qed

lemma cache_peek_step:
  assumes "cache_good c" "cache_peek key touch c = (res, c')"
  shows "cache_step {} {} c c' \<and> res \<noteq> Inl CacheAbort"
proof -
  have "cache_inv c" using assms(1) by (simp add: cache_good_def)
  then have "cache_inv c'" "removes c c'" "res = Inr (lookup c key)" "lookup c' = lookup c"
    using cache_peek_ok[of c key touch] assms(2) by auto
  then show ?thesis using removes_step[OF assms(1), of c' "{}"] by simp
qed

lemma cache_resize_step:
  assumes "cache_good c" "cache_resize n c = (res, c')"
  shows "cache_step {} {} c c'"
proof -
  have "cache_inv c" using assms(1) by (simp add: cache_good_def)
  then obtain "cache_inv c'" "removes c c'"
    "\<forall>k r. lookup c k = Some r \<and> \<not> evictable c r \<longrightarrow> lookup c' k = Some r"
    using cache_resize_ok[of c n] assms(2) by auto
  then show ?thesis using removes_step[OF assms(1)] unwritten_evictable by blast
qed

lemma cache_clear_step:
  assumes "cache_good c" "cache_clear b c = (res, c')"
  shows "cache_step {} (if b then UNIV else {}) c c' \<and> res \<noteq> Inl CacheAbort"
proof -
  have "cache_inv c" using assms(1) by (simp add: cache_good_def)
  then obtain "cache_inv c'" "removes c c'" "res \<noteq> Inl CacheAbort"
    and r: "if res = Inr () then cache_len c' = 0 \<and> (b \<or> (\<forall>k r. lookup c k = Some r \<longrightarrow> \<not> is_dirty (pages c r)))
      else c' = c \<and> \<not> b"
    using cache_clear_ok[of c b] assms(2) by auto
  moreover have "lookup c' k = Some r" if "lookup c k = Some r" "unwritten (pages c r)" "k \<notin> (if b then UNIV else {})" for k r
    using r that by (auto simp: unwritten_def split: if_splits)
  ultimately show ?thesis using removes_step[OF assms(1)] by blast
qed

text \<open>Collecting pages to spill clones and pins them.\<close>

definition same_cached :: "page_cache \<Rightarrow> page_cache \<Rightarrow> bool" where
  "same_cached c c' \<longleftrightarrow> lookup c' = lookup c \<and> (cache_good c \<longrightarrow> cache_good c')"

lemma same_cached_step: "same_cached c c' \<Longrightarrow> cache_good c \<Longrightarrow> cache_step {} {} c c'"
  by (simp add: same_cached_def cache_step_def)

lemma pin_counted [simp]: "counted_as_evictable (pin pg) = counted_as_evictable pg" "inner_id (pin pg) = inner_id pg"
  by (simp_all add: counted_as_evictable_def page_flag_simps pin_def)

lemma pin_same_cached: "same_cached c (update_page r pin (clone_ref r c))"
  unfolding same_cached_def by (auto intro!: update_page_good)

lemma collect_loop_same: "same_cached c (snd (collect_loop es n acc c))"
proof (induction es n acc c rule: collect_loop.induct)
  case (2 e es n acc c)
  show ?case
    using 2 pin_same_cached[of c "entry_page e"] by (auto simp: Let_def same_cached_def)
qed (simp add: same_cached_def)

lemma check_spill_same: "same_cached c (snd (check_spill n c))"
  using collect_loop_same[of c "map_entries c" n "[]"]
  by (auto simp: check_spill_def collect_spillable_pages_def Let_def same_cached_def split: prod.splits)

section \<open>The cache as a machine\<close>

datatype cache_op =
    OpInsert nat page_ref | OpUpsert nat page_ref | OpForceInsert nat page_ref | OpForceUpsert nat page_ref
  | OpDelete nat | OpGet nat | OpPeek nat bool | OpResize nat | OpClear bool | OpTruncate nat | OpDropFrames u64
  | OpCheckSpill nat | OpSetSpill bool | OpAddDirty page_ref | OpSpilled page_ref
  | OpPage page_ref page_event | OpClone page_ref | OpDrop page_ref

fun outcome :: "(cache_error + 'a) \<times> page_cache \<Rightarrow> cache_error option \<times> page_cache" where
  "outcome (Inl e, c) = (Some e, c)"
| "outcome (Inr _, c) = (None, c)"

fun run_op :: "cache_op \<Rightarrow> page_cache \<Rightarrow> cache_error option \<times> page_cache" where
  "run_op (OpInsert k r) c = outcome (cache_insert k r c)"
| "run_op (OpUpsert k r) c = outcome (upsert_page k r c)"
| "run_op (OpForceInsert k r) c = outcome (force_insert_page k r c)"
| "run_op (OpForceUpsert k r) c = outcome (force_upsert_page k r c)"
| "run_op (OpDelete k) c = outcome (cache_delete k c)"
| "run_op (OpGet k) c = outcome (cache_get k c)"
| "run_op (OpPeek k touch) c = outcome (cache_peek k touch c)"
| "run_op (OpResize n) c = (None, snd (cache_resize n c))"
| "run_op (OpClear b) c = outcome (cache_clear b c)"
| "run_op (OpTruncate n) c = outcome (cache_truncate n c)"
| "run_op (OpDropFrames f) c = outcome (delete_clean_pages_after_wal_frame f c)"
| "run_op (OpCheckSpill n) c = (None, snd (check_spill n c))"
| "run_op (OpSetSpill b) c = (None, set_spill_enabled b c)"
| "run_op (OpAddDirty r) c = outcome (add_dirty r c)"
| "run_op (OpSpilled r) c = outcome (mark_spilled r c)"
| "run_op (OpPage r ev) c = (None, update_page r (page_step ev) c)"
| "run_op (OpClone r) c = (None, clone_ref r c)"
| "run_op (OpDrop r) c = (None, drop_ref r c)"

text \<open>
  What callers owe the cache: a page is inserted under its own number, a plain insertion does not
  displace another page that is in use, a page that is marked dirty or spilled is the one that is
  cached under its number, and a page becomes dirty or loses its spilled mark only through
  \<open>add_dirty\<close>.
\<close>

definition is_cached_page :: "page_ref \<Rightarrow> page_cache \<Rightarrow> bool" where
  "is_cached_page r c \<longleftrightarrow> lookup c (inner_id (pages c r)) \<in> {None, Some r}"

fun op_ok :: "cache_op \<Rightarrow> page_cache \<Rightarrow> bool" where
  "op_ok (OpInsert k r) c \<longleftrightarrow> inner_id (pages c r) = k \<and> replaceable k r c"
| "op_ok (OpForceInsert k r) c \<longleftrightarrow> inner_id (pages c r) = k \<and> replaceable k r c"
| "op_ok (OpUpsert k r) c \<longleftrightarrow> inner_id (pages c r) = k"
| "op_ok (OpForceUpsert k r) c \<longleftrightarrow> inner_id (pages c r) = k"
| "op_ok (OpAddDirty r) c \<longleftrightarrow> is_loaded (pages c r) \<and> is_cached_page r c"
| "op_ok (OpSpilled r) c \<longleftrightarrow> unwritten (pages c r) \<and> is_cached_page r c"
| "op_ok (OpPage r ev) c \<longleftrightarrow> ev \<notin> {SetDirty, ClearSpilled}"
| "op_ok _ c \<longleftrightarrow> True"

fun put_of :: "cache_op \<Rightarrow> (nat \<times> page_ref) option" where
  "put_of (OpInsert k r) = Some (k, r)"
| "put_of (OpUpsert k r) = Some (k, r)"
| "put_of (OpForceInsert k r) = Some (k, r)"
| "put_of (OpForceUpsert k r) = Some (k, r)"
| "put_of _ = None"

abbreviation puts :: "cache_op \<Rightarrow> (nat \<times> page_ref) set" where
  "puts op \<equiv> set_option (put_of op)"

text \<open>The keys whose page the caller explicitly gives up.\<close>

fun discards :: "cache_op \<Rightarrow> nat set" where
  "discards (OpUpsert k r) = {k}"
| "discards (OpForceUpsert k r) = {k}"
| "discards (OpClear True) = UNIV"
| "discards _ = {}"

lemma outcomeE:
  assumes "outcome x = (res, c)"
  obtains y where "x = (y, c)" "res = None \<longleftrightarrow> (\<exists>u. y = Inr u)" "res = Some CacheAbort \<longleftrightarrow> y = Inl CacheAbort"
  using assms by (cases x rule: outcome.cases) auto

lemma page_step_frame:
  "inner_id (page_step ev pg) = inner_id pg" "flags (snd (try_unpin pg)) = flags pg" "flags (pin pg) = flags pg"
  "flags (clear_wal_tag pg) = flags pg"
  by (cases ev) (auto simp: set_dirty_def clear_dirty_def clear_dirty_keep_wal_tag_def set_locked_def
      clear_locked_def set_spilled_def clear_spilled_def set_loaded_def clear_loaded_def pin_def
      try_unpin_def clear_wal_tag_def Let_def)

lemma page_step_counted:
  assumes "ev \<notin> {SetDirty, ClearSpilled}" "counted_as_evictable pg"
  shows "counted_as_evictable (page_step ev pg)"
proof -
  have "inner_id pg \<noteq> 1" "\<not> is_dirty pg \<or> is_spilled pg"
    using assms(2) by (auto simp: counted_as_evictable_def split: if_splits)
  then have "\<not> is_dirty (page_step ev pg) \<or> is_spilled (page_step ev pg)"
    using assms(1) by (cases ev) (auto simp: page_flag_simps page_step_frame)
  then show ?thesis using \<open>inner_id pg \<noteq> 1\<close> by (simp add: counted_as_evictable_def page_step_frame)
qed

lemma cache_fields_good:
  assumes "cache_good c" "cmap c' = cmap c" "heap c' = heap c" "queue c' = queue c" "clock_hand c' = clock_hand c"
    "next_addr c' = next_addr c" "pages c' = pages c" "evictable_count c' = evictable_count c"
  shows "same_cached c c'"
  using assms(1,7,8) cache_frame[OF assms(2-6)]
  by (simp add: same_cached_def cache_good_def cache_inv_def keyed_def)

definition op_step :: "cache_op \<Rightarrow> page_cache \<Rightarrow> cache_error option \<Rightarrow> page_cache \<Rightarrow> bool" where
  "op_step op c res c' \<longleftrightarrow>
     cache_step (puts op) (discards op) c c' \<and> res \<noteq> Some CacheAbort \<and>
     (if res = None then \<forall>(k, r)\<in>puts op. lookup c' k = Some r else lookup c' \<subseteq>\<^sub>m lookup c)"

lemma map_leI: "(\<And>k v. m k = Some v \<Longrightarrow> m' k = Some v) \<Longrightarrow> m \<subseteq>\<^sub>m m'"
  unfolding map_le_def by force

lemma cache_step_gain: "cache_step P L c c' \<Longrightarrow> lookup c' k = Some r \<Longrightarrow> lookup c k = Some r \<or> (k, r) \<in> P"
  unfolding cache_step_def by blast

lemma op_stepI:
  assumes "puts op = {}" "cache_step {} (discards op) c c'" "res \<noteq> Some CacheAbort"
  shows "op_step op c res c'"
proof -
  have "lookup c' \<subseteq>\<^sub>m lookup c" using cache_step_gain[OF assms(2)] by (intro map_leI) auto
  then show ?thesis using assms by (simp add: op_step_def)
qed

lemma put_stepI:
  assumes "outcome x = (res, c')" "puts op = {(k, v)}"
    "\<And>y :: cache_error + unit. x = (y, c') \<Longrightarrow> cache_step {(k, v)} (discards op) c c' \<and> y \<noteq> Inl CacheAbort \<and>
       (if y = Inr () then lookup c' k = Some v else lookup c' \<subseteq>\<^sub>m lookup c)"
  shows "op_step op c res c'"
proof -
  obtain y where y: "x = (y, c')" "res = None \<longleftrightarrow> (\<exists>u. y = Inr u)" "res = Some CacheAbort \<longleftrightarrow> y = Inl CacheAbort"
    using assms(1) by (rule outcomeE)
  show ?thesis using assms(3)[OF y(1)] y(2,3) assms(2) by (auto simp: op_step_def split: if_splits)
qed

lemma run_insert_step:
  assumes "cache_good c" "op_ok op c" "run_op op c = (res, c')" "puts op \<noteq> {}"
  shows "op_step op c res c'"
proof (cases op)
  case (OpInsert k r)
  show ?thesis
    by (rule put_stepI[of "cache_insert k r c"])
      (use OpInsert assms(2,3) insert_gen_step[OF assms(1), where v = r and key = k and upd = False and bypass = False]
       in \<open>auto simp: cache_insert_def\<close>)
next
  case (OpUpsert k r)
  show ?thesis
    by (rule put_stepI[of "upsert_page k r c"])
      (use OpUpsert assms(2,3) insert_gen_step[OF assms(1), where v = r and key = k and upd = True and bypass = False]
       in \<open>auto simp: upsert_page_def\<close>)
next
  case (OpForceInsert k r)
  show ?thesis
    by (rule put_stepI[of "force_insert_page k r c"])
      (use OpForceInsert assms(2,3) forced_step[OF assms(1), where v = r and key = k and upd = False]
       in \<open>auto simp: force_insert_page_def cache_insert_def\<close>)
next
  case (OpForceUpsert k r)
  show ?thesis
    by (rule put_stepI[of "force_upsert_page k r c"])
      (use OpForceUpsert assms(2,3) forced_step[OF assms(1), where v = r and key = k and upd = True]
       in \<open>auto simp: force_upsert_page_def upsert_page_def\<close>)
qed (use assms(4) in auto)

lemma drop_stepI:
  assumes "outcome x = (res, c')" "puts op = {}"
    "\<And>y. x = (y, c') \<Longrightarrow> cache_step {} (discards op) c c' \<and> y \<noteq> Inl CacheAbort"
  shows "op_step op c res c'"
proof -
  obtain y where y: "x = (y, c')" "res = Some CacheAbort \<longleftrightarrow> y = Inl CacheAbort"
    using assms(1) by (rule outcomeE)
  show ?thesis using assms(3)[OF y(1)] y(2) assms(2) by (intro op_stepI) auto
qed

lemma run_remove_step:
  assumes "cache_good c" "run_op op c = (res, c')"
    "op = OpDelete k \<or> op = OpGet k \<or> op = OpPeek k b \<or> op = OpClear b \<or> op = OpTruncate k \<or> op = OpDropFrames f"
  shows "op_step op c res c'"
  using assms(3)
proof (elim disjE)
  assume *: "op = OpDelete k" show ?thesis
    by (rule drop_stepI[of "cache_delete k c"]) (use * assms(2) cache_delete_step[OF assms(1)] in simp_all)
next
  assume *: "op = OpGet k" show ?thesis
    by (rule drop_stepI[of "cache_get k c"]) (use * assms(2) cache_get_step[OF assms(1)] in simp_all)
next
  assume *: "op = OpPeek k b" show ?thesis
    by (rule drop_stepI[of "cache_peek k b c"]) (use * assms(2) cache_peek_step[OF assms(1)] in simp_all)
next
  assume *: "op = OpClear b" show ?thesis
    by (rule drop_stepI[of "cache_clear b c"])
      (use * assms(2) cache_clear_step[OF assms(1), where b = b and c' = c'] in \<open>cases b; simp\<close>)+
next
  assume *: "op = OpTruncate k" show ?thesis
    by (rule drop_stepI[of "cache_truncate k c"])
      (use * assms(2) delete_all_step[OF assms(1)] in \<open>simp_all add: cache_truncate_def\<close>)
next
  assume *: "op = OpDropFrames f" show ?thesis
    by (rule drop_stepI[of "delete_clean_pages_after_wal_frame f c"])
      (use * assms(2) delete_all_step[OF assms(1)] in \<open>simp_all add: delete_clean_pages_after_wal_frame_def\<close>)
qed

lemma run_resize_step:
  assumes "cache_good c" "run_op (OpResize k) c = (res, c')"
  shows "op_step (OpResize k) c res c'"
  using assms cache_resize_step[OF assms(1), of k "fst (cache_resize k c)" c']
  by (intro op_stepI) (auto simp: prod_eq_iff)

lemma run_page_step:
  assumes "cache_good c" "op_ok op c" "run_op op c = (res, c')"
    "op = OpCheckSpill k \<or> op = OpSetSpill b \<or> op = OpAddDirty r \<or> op = OpSpilled r \<or> op = OpPage r ev \<or> op = OpClone r \<or> op = OpDrop r"
  shows "op_step op c res c'"
proof -
  have "puts op = {}" "discards op = {}" using assms(4) by auto
  moreover have "same_cached c c' \<and> res \<noteq> Some CacheAbort"
    using assms(4)
  proof (elim disjE)
    assume "op = OpCheckSpill k" then show ?thesis using assms(3) check_spill_same[of c k] by auto
  next
    assume "op = OpSetSpill b" then show ?thesis using assms(3)
      by (auto intro!: cache_fields_good[OF assms(1)] simp: set_spill_enabled_def)
  next
    assume "op = OpAddDirty r" then show ?thesis using assms(2,3) add_dirty_good[OF assms(1), of r]
      by (auto simp: is_cached_page_def same_cached_def elim!: outcomeE)
  next
    assume "op = OpSpilled r" then show ?thesis using assms(2,3) mark_spilled_good[OF assms(1), of r]
      by (auto simp: is_cached_page_def same_cached_def unwritten_def)
  next
    assume "op = OpPage r ev" then show ?thesis using assms(2,3)
      by (auto simp: same_cached_def page_step_counted page_step_frame intro!: update_page_good)
  next
    assume "op = OpClone r" then show ?thesis using assms(3) by (auto simp: same_cached_def)
  next
    assume "op = OpDrop r" then show ?thesis using assms(3) by (auto simp: same_cached_def)
  qed
  ultimately show ?thesis using assms(1) by (intro op_stepI) (auto intro: same_cached_step)
qed

lemma run_op_step:
  assumes "cache_good c" "op_ok op c" "run_op op c = (res, c')"
  shows "op_step op c res c'"
  using run_insert_step[OF assms] run_remove_step[OF assms(1,3)] run_page_step[OF assms]
    run_resize_step[OF assms(1)] assms(3)
  by (cases op) auto

section \<open>Runs\<close>

fun run_ops :: "('op \<Rightarrow> 's \<Rightarrow> 'e option \<times> 's) \<Rightarrow> 'op list \<Rightarrow> 's \<Rightarrow> 's" where
  "run_ops step [] s = s"
| "run_ops step (op # ops) s = run_ops step ops (snd (step op s))"

fun run_errors :: "('op \<Rightarrow> 's \<Rightarrow> 'e option \<times> 's) \<Rightarrow> 'op list \<Rightarrow> 's \<Rightarrow> 'e set" where
  "run_errors step [] s = {}"
| "run_errors step (op # ops) s = set_option (fst (step op s)) \<union> run_errors step ops (snd (step op s))"

fun run_ok :: "('op \<Rightarrow> 's \<Rightarrow> bool) \<Rightarrow> ('op \<Rightarrow> 's \<Rightarrow> 'e option \<times> 's) \<Rightarrow> 'op list \<Rightarrow> 's \<Rightarrow> bool" where
  "run_ok ok step [] s \<longleftrightarrow> True"
| "run_ok ok step (op # ops) s \<longleftrightarrow> ok op s \<and> run_ok ok step ops (snd (step op s))"

text \<open>The last insertion that succeeded, by key.\<close>

fun last_put ::
    "('op \<Rightarrow> ('k \<times> 'v) option) \<Rightarrow> ('op \<Rightarrow> 's \<Rightarrow> 'e option \<times> 's) \<Rightarrow> 'op list \<Rightarrow> 's \<Rightarrow> ('k \<rightharpoonup> 'v) \<Rightarrow> 'k \<rightharpoonup> 'v" where
  "last_put pt step [] s m = m"
| "last_put pt step (op # ops) s m =
     last_put pt step ops (snd (step op s))
       (case (fst (step op s), pt op) of (None, Some (k, v)) \<Rightarrow> m(k \<mapsto> v) | _ \<Rightarrow> m)"

text \<open>
  What the pager relies on: an object cache that may forget entries at any step, keeps its
  invariant under the contract, and after a successful insertion holds what was inserted.
\<close>

locale object_cache =
  fixes look :: "'s \<Rightarrow> 'k \<Rightarrow> 'v option"
    and step :: "'op \<Rightarrow> 's \<Rightarrow> 'e option \<times> 's"
    and good :: "'s \<Rightarrow> bool"
    and ok :: "'op \<Rightarrow> 's \<Rightarrow> bool"
    and inserted :: "'op \<Rightarrow> ('k \<times> 'v) option"
    and fatal :: 'e
  assumes step_good: "good s \<Longrightarrow> ok op s \<Longrightarrow> step op s = (res, s') \<Longrightarrow> good s' \<and> res \<noteq> Some fatal"
    and step_put: "good s \<Longrightarrow> ok op s \<Longrightarrow> step op s = (None, s') \<Longrightarrow> inserted op = Some (k, v) \<Longrightarrow> look s' \<subseteq>\<^sub>m (look s)(k \<mapsto> v)"
    and step_other: "good s \<Longrightarrow> ok op s \<Longrightarrow> step op s = (res, s') \<Longrightarrow> inserted op = None \<or> res \<noteq> None \<Longrightarrow> look s' \<subseteq>\<^sub>m look s"
begin

lemma run_good: "good s \<Longrightarrow> run_ok ok step ops s \<Longrightarrow> good (run_ops step ops s) \<and> fatal \<notin> run_errors step ops s"
proof (induction ops arbitrary: s)
  case (Cons op ops)
  obtain res s' where st: "step op s = (res, s')" by fastforce
  then show ?case using Cons.IH[of s'] step_good[OF Cons.prems(1) _ st] Cons.prems by auto
qed simp

lemma run_coherent:
  "good s \<Longrightarrow> run_ok ok step ops s \<Longrightarrow> look s \<subseteq>\<^sub>m m \<Longrightarrow>
     look (run_ops step ops s) \<subseteq>\<^sub>m last_put inserted step ops s m"
proof (induction ops arbitrary: s m)
  case (Cons op ops)
  obtain res s' where st: "step op s = (res, s')" by fastforce
  have ok: "ok op s" "run_ok ok step ops s'" using Cons.prems(2) st by simp_all
  define m' where "m' = (case (res, inserted op) of (None, Some (k, v)) \<Rightarrow> m(k \<mapsto> v) | _ \<Rightarrow> m)"
  have "look s' \<subseteq>\<^sub>m m'"
  proof (cases "inserted op = None \<or> res \<noteq> None")
    case True
    then have "m' = m" by (auto simp: m'_def split: option.splits)
    then show ?thesis using step_other[OF Cons.prems(1) ok(1) st True] Cons.prems(3) map_le_trans by blast
  next
    case False
    then obtain k v where kv: "inserted op = Some (k, v)" "res = None" by fastforce
    have "(look s)(k \<mapsto> v) \<subseteq>\<^sub>m m(k \<mapsto> v)" using Cons.prems(3) by (rule map_le_upd)
    moreover have "look s' \<subseteq>\<^sub>m (look s)(k \<mapsto> v)" using step_put[OF Cons.prems(1) ok(1)] st kv by simp
    ultimately show ?thesis using kv map_le_trans by (auto simp: m'_def)
  qed
  then show ?case using Cons.IH[OF _ ok(2), of m'] step_good[OF Cons.prems(1) ok(1) st] st by (simp add: m'_def)
qed simp

end

interpretation page_store: object_cache lookup run_op cache_good op_ok put_of CacheAbort
proof
  fix c c' op res k v
  show "cache_good c' \<and> res \<noteq> Some CacheAbort" if "cache_good c" "op_ok op c" "run_op op c = (res, c')"
    using run_op_step[OF that] by (auto simp: op_step_def dest: cache_step_good)
  show "lookup c' \<subseteq>\<^sub>m (lookup c)(k \<mapsto> v)"
    if "cache_good c" "op_ok op c" "run_op op c = (None, c')" "put_of op = Some (k, v)"
  proof (rule map_leI)
    have st: "cache_step {(k, v)} (discards op) c c'" "lookup c' k = Some v"
      using run_op_step[OF that(1-3)] that(4) by (auto simp: op_step_def)
    show "((lookup c)(k \<mapsto> v)) a = Some b" if "lookup c' a = Some b" for a b
      using cache_step_gain[OF st(1) that] st(2) that by auto
  qed
  show "lookup c' \<subseteq>\<^sub>m lookup c"
    if "cache_good c" "op_ok op c" "run_op op c = (res, c')" "put_of op = None \<or> res \<noteq> None"
  proof (cases "res = None")
    case True
    then have "cache_step {} (discards op) c c'" using run_op_step[OF that(1-3)] that(4) by (simp add: op_step_def)
    then show ?thesis by (intro map_leI) (auto dest: cache_step_gain)
  next
    case False
    then show ?thesis using run_op_step[OF that(1-3)] by (simp add: op_step_def)
  qed
qed

section \<open>Properties of the cache\<close>

lemma new_cache_good: "cache_good (new_with_spill cap enabled pgs cnt)"
  by (simp add: cache_good_def cache_inv_def cache_wf_def linked_def hand_ok_def keyed_def lookup_def new_with_spill_def)

lemma new_cache_empty: "lookup (new_with_spill cap enabled pgs cnt) = Map.empty"
  by (simp add: lookup_def new_with_spill_def fun_eq_iff)

lemma concat_entry_at:
  "set ps \<subseteq> dom (heap c) \<Longrightarrow> concat (map (entry_at c) ps) = map (\<lambda>p. the (heap c p)) ps"
  by (induction ps) (auto simp: entry_at_def)

lemma cache_wf_integrity:
  assumes "cache_wf c"
  shows "cache_integrity_ok c"
proof -
  have l: "linked c" and h: "hand_ok c" using assms by (simp_all add: cache_wf_def)
  define key where "key p = entry_key (the (heap c p))" for p
  have seen: "map entry_key (concat (map (entry_at c) (queue c))) = map key (queue c)"
    using linkedD(3)[OF l] by (simp add: concat_entry_at key_def)
  have "inj_on key (set (queue c))"
  proof (rule inj_onI)
    fix p q assume pq: "p \<in> set (queue c)" "q \<in> set (queue c)" "key p = key q"
    then obtain e e' where e: "heap c p = Some e" "heap c q = Some e'" using linkedD(3)[OF l] by blast
    show "p = q" by (rule linked_unique[OF l e]) (use e pq(3) in \<open>simp add: key_def\<close>)
  qed
  then have d: "distinct (map key (queue c))" using linkedD(1)[OF l] by (simp add: distinct_map)
  have "k \<in> set (map key (queue c))" if kp: "(k, p) \<in> set (cmap c)" for k p
  proof -
    obtain e where e: "heap c p = Some e" "entry_key e = k" using kp linkedD(4)[OF l, of k p] by blast
    then have "k = key p" by (simp add: key_def)
    then show ?thesis using linked_queue[OF l e(1)] by simp
  qed
  then have m: "list_all (\<lambda>(k, _). k \<in> set (map key (queue c))) (cmap c)" by (auto simp: list_all_iff)
  have hand: "\<exists>e. heap c p = Some e \<and> contains_key c (entry_key e)" if p: "p \<in> set (queue c)" for p
  proof -
    obtain e where e: "heap c p = Some e" using linkedD(3)[OF l] p by blast
    then have "map_of (cmap c) (entry_key e) = Some p" using linked_map_of[OF l] by blast
    then show ?thesis using e by (simp add: contains_key_def)
  qed
  have "case clock_hand c of
      Some h \<Rightarrow> length (cmap c) \<noteq> 0 \<and> list_all (\<lambda>e. contains_key c (entry_key e)) (entry_at c h) \<and> entry_at c h \<noteq> []
    | None \<Rightarrow> length (cmap c) = 0"
  proof (cases "clock_hand c")
    case (Some p)
    then have p: "p \<in> set (queue c)" using h by (simp add: hand_ok_def)
    then show ?thesis using hand[OF p] Some linked_length[OF l] by (cases "queue c") (auto simp: entry_at_def)
  qed (use h linked_length[OF l] in \<open>simp add: hand_ok_def\<close>)
  then show ?thesis
    unfolding cache_integrity_ok_def seen Let_def
    using linked_length[OF l] d m by (simp add: distinct_remdups_id)
qed

text \<open>
  C8. The invariant of the page cache. Whatever sequence of operations of the cache, of its client
  and of page state changes runs on a new cache, as long as each obeys the contract \<open>op_ok\<close>: the
  map, the queue and the clock hand stay consistent (the check the source runs in its tests
  passes), no raw pointer is followed to a freed entry and no assertion fails, every page is
  cached under its own number, and the tracked number of evictable pages is at most the number of
  cached pages that are counted as evictable.
\<close>

theorem cache_run_invariant:
  assumes "run_ok op_ok run_op ops (new_with_spill cap enabled pgs cnt)"
  shows "let c = run_ops run_op ops (new_with_spill cap enabled pgs cnt)
     in cache_integrity_ok c \<and> cache_wf c \<and> keyed c \<and> evictable_count c \<le> counted_total c \<and>
        CacheAbort \<notin> run_errors run_op ops (new_with_spill cap enabled pgs cnt)"
  using page_store.run_good[OF new_cache_good assms] cache_wf_integrity
  by (auto simp: Let_def cache_good_def cache_inv_def)

text \<open>
  C14. The cache is coherent with its client: the page found under a number is the one that the last
  successful insertion put there, however pages were evicted, deleted or replaced in between.
\<close>

theorem cache_coherent:
  assumes "run_ok op_ok run_op ops (new_with_spill cap enabled pgs cnt)"
  shows "lookup (run_ops run_op ops (new_with_spill cap enabled pgs cnt)) \<subseteq>\<^sub>m
     last_put put_of run_op ops (new_with_spill cap enabled pgs cnt) Map.empty"
  by (rule page_store.run_coherent[OF new_cache_good assms]) (simp add: new_cache_empty)

text \<open>
  C5. No operation loses unwritten changes: a cached page that is dirty and not spilled is still
  cached, under the same number, after any operation other than one that replaces the page of
  that number or clears the cache together with its dirty pages.
\<close>

theorem cache_keeps_unwritten:
  assumes "cache_good c" "op_ok op c" "lookup c k = Some r" "unwritten (pages c r)" "k \<notin> discards op"
  shows "lookup (snd (run_op op c)) k = Some r \<and> cache_good (snd (run_op op c))"
proof -
  obtain res c' where st: "run_op op c = (res, c')" by fastforce
  have "cache_step (puts op) (discards op) c c'" using run_op_step[OF assms(1,2) st] by (simp add: op_step_def)
  then show ?thesis using assms(3-5) st unfolding cache_step_def by simp
qed

text \<open>
  C18. Eviction makes progress exactly when it can: the bounded sweep of the clock hand removes one
  evictable page and its reference whenever one is cached, whatever the reference bits are, and
  reports \<open>Full\<close> without removing anything when none is.
\<close>

theorem evict_one_live:
  assumes "cache_good c" "cache_len c \<noteq> 0"
  shows "if list_ex (\<lambda>p. evictable c (page_at c p)) (queue c)
     then \<exists>p c'. evict_one c = (Inr (), c') \<and> evicted p c c' \<and> cache_good c'
     else \<exists>c'. evict_one c = (Inl Full, c') \<and> lookup c' = lookup c \<and> pages c' = pages c"
proof -
  have i: "cache_inv c" "cache_wf c" "keyed c" "linked c" using assms(1) by (simp_all add: cache_good_def cache_inv_def cache_wf_def)
  have q: "queue c \<noteq> []" using assms(2) linked_length[OF i(4)] by (auto simp: cache_len_def)
  note ev = evict_one_cases[OF i(2) q]
  show ?thesis
  proof (cases "\<exists>p\<in>set (queue c). evictable c (page_at c p)")
    case True
    then obtain p c' where c': "evict_one c = (Inr (), c')" "cache_wf c'" "evicted p c c'" using ev by auto
    have inv: "cache_inv c'" using cache_inv_evicted[OF i(1) c'(3,2)] by simp
    have "keyed c'" using c'(3) i(3) by (auto simp: evicted_def keyed_def split: if_splits)
    then show ?thesis using True c' inv by (auto simp: list_ex_iff cache_good_def)
  next
    case False
    then obtain c' where "evict_one c = (Inl Full, c')" "same_entries c c'" using ev by auto
    then show ?thesis using False same_entriesD by (auto simp: list_ex_iff)
  qed
qed

section \<open>Concrete runs\<close>

definition example_cache :: "nat \<Rightarrow> page_cache" where
  "example_cache cap = new_with_spill cap True (\<lambda>r. set_loaded (unloaded (r + 1))) (\<lambda>_. 1)"

definition example_run :: "cache_op list" where
  "example_run = [OpInsert 2 1, OpAddDirty 1, OpInsert 3 2, OpInsert 4 3, OpGet 2, OpSpilled 1, OpUpsert 2 1, OpDelete 4]"

lemma example_run_ok: "run_ok op_ok run_op example_run (example_cache 2)"
  by code_simp

lemma example_cache_good:
  "run_ok op_ok run_op ops (example_cache cap) \<Longrightarrow> cache_good (run_ops run_op ops (example_cache cap))"
  using page_store.run_good[OF new_cache_good] unfolding example_cache_def by blast

theorem cache_run_invariant_witness:
  "run_ok op_ok run_op example_run (example_cache 2) \<and>
   (let c = run_ops run_op example_run (example_cache 2)
    in cache_integrity_ok c \<and> cache_wf c \<and> keyed c \<and> evictable_count c \<le> counted_total c \<and>
       CacheAbort \<notin> run_errors run_op example_run (example_cache 2))"
  using cache_run_invariant[OF example_run_ok[unfolded example_cache_def]] example_run_ok
  unfolding example_cache_def by blast

theorem cache_coherent_witness:
  "lookup (run_ops run_op example_run (example_cache 2)) \<subseteq>\<^sub>m
     last_put put_of run_op example_run (example_cache 2) Map.empty \<and>
   lookup (run_ops run_op example_run (example_cache 2)) 2 = Some 1"
proof
  show "lookup (run_ops run_op example_run (example_cache 2)) 2 = Some 1" by code_simp
qed (use cache_coherent[OF example_run_ok[unfolded example_cache_def]] in \<open>simp add: example_cache_def\<close>)

theorem cache_keeps_unwritten_witness:
  "lookup (snd (run_op (OpForceInsert 3 2) (run_ops run_op [OpInsert 2 1, OpAddDirty 1] (example_cache 1)))) 2 = Some 1 \<and>
   cache_good (snd (run_op (OpForceInsert 3 2) (run_ops run_op [OpInsert 2 1, OpAddDirty 1] (example_cache 1))))"
proof (rule cache_keeps_unwritten)
  show "cache_good (run_ops run_op [OpInsert 2 1, OpAddDirty 1] (example_cache 1))"
    by (rule example_cache_good) code_simp
  show "op_ok (OpForceInsert 3 2) (run_ops run_op [OpInsert 2 1, OpAddDirty 1] (example_cache 1))" by code_simp
  show "lookup (run_ops run_op [OpInsert 2 1, OpAddDirty 1] (example_cache 1)) 2 = Some 1" by code_simp
  show "unwritten (pages (run_ops run_op [OpInsert 2 1, OpAddDirty 1] (example_cache 1)) 1)" by code_simp
qed simp

theorem evict_one_live_witness:
  "\<exists>p c'. evict_one (run_ops run_op [OpInsert 2 1, OpGet 2, OpDrop 1] (example_cache 1)) = (Inr (), c') \<and>
     evicted p (run_ops run_op [OpInsert 2 1, OpGet 2, OpDrop 1] (example_cache 1)) c' \<and> cache_good c'"
proof -
  let ?c = "run_ops run_op [OpInsert 2 1, OpGet 2, OpDrop 1] (example_cache 1)"
  have "cache_good ?c" by (rule example_cache_good) code_simp
  moreover have "cache_len ?c \<noteq> 0" "list_ex (\<lambda>p. evictable ?c (page_at ?c p)) (queue ?c)" by code_simp+
  ultimately show ?thesis using evict_one_live[of ?c] by simp
qed

text \<open>
  C35. The tracked number of evictable pages is not an upper bound. It never exceeds the number of cached
  pages that are counted as evictable, and whenever a cached page that has changes becomes clean, as
  after it was written, that number grows by one and the tracked one does not: the cache is not told.
\<close>

theorem evictable_count_drifts:
  assumes "cache_good c" "lookup c (inner_id (pages c r)) = Some r" "unwritten (pages c r)" "inner_id (pages c r) \<noteq> 1"
    "ev = ClearDirty \<or> ev = ClearDirtyKeepTag"
  shows "let c' = snd (run_op (OpPage r ev) c)
     in cache_good c' \<and> evictable_count c' = evictable_count c \<and> counted_total c' = Suc (counted_total c) \<and>
        evictable_count c' < counted_total c' \<and>
        (evictable c' r \<longleftrightarrow> \<not> is_locked (pages c r) \<and> \<not> is_pinned (pages c r) \<and> strong_count c r = 1)"
proof -
  let ?f = "page_step ev" and ?pg = "pages c r"
  have l: "linked c" "keyed c" "evictable_count c \<le> counted_total c" using assms(1) by (auto simp: cache_good_def cache_inv_def cache_wf_def)
  have nc: "\<not> counted_as_evictable ?pg" using assms(3) by (simp add: counted_as_evictable_def unwritten_def)
  have cl: "counted_as_evictable (?f ?pg)"
    using assms(4,5) by (auto simp: counted_as_evictable_def page_flag_simps page_step_frame[simplified])
  have "counted_total (update_page r ?f c) = Suc (counted_total c)" using counted_total_update[OF l(1,2) refl, of r ?f] assms(2) nc cl by simp
  moreover have "cache_good (update_page r ?f c)"
    by (rule update_page_good[OF assms(1)]) (use cl in \<open>simp_all add: page_step_frame\<close>)
  moreover have "evictable (update_page r ?f c) r \<longleftrightarrow> \<not> is_locked ?pg \<and> \<not> is_pinned ?pg \<and> strong_count c r = 1"
    using assms(4,5)
    by (auto simp: evictable_def Let_def page_flag_simps bit_simps flag_bit is_pinned_def update_page_def clear_dirty_def clear_dirty_keep_wal_tag_def clear_wal_tag_def)
  ultimately show ?thesis using l(3) by (simp add: Let_def)
qed

theorem evictable_count_drifts_witness:
  "let c = run_ops run_op [OpAddDirty 1, OpInsert 2 1] (example_cache 1); c' = snd (run_op (OpPage 1 ClearDirty) c)
   in evictable_count c' = evictable_count c \<and> counted_total c' = Suc (counted_total c) \<and> evictable_count c' < counted_total c'"
proof -
  let ?c = "run_ops run_op [OpAddDirty 1, OpInsert 2 1] (example_cache 1)"
  have "cache_good ?c" by (rule example_cache_good) code_simp
  moreover have "lookup ?c (inner_id (pages ?c 1)) = Some 1" "unwritten (pages ?c 1)" "inner_id (pages ?c 1) \<noteq> 1" by code_simp+
  ultimately show ?thesis using evictable_count_drifts[of ?c 1 ClearDirty] unfolding Let_def by blast
qed

end
