(* ===== verification/WalFormat.thy ===== *)
theory WalFormat
  imports PageFormat
begin

text \<open>
  The byte format of the write-ahead log, from \<^verbatim>\<open>core/storage/sqlite3_ondisk.rs\<close>: the
  file header, the frame header, the cumulative checksum and the functions that encode and
  decode them. The byte order of the build target is the argument \<open>big\<close>, since the source
  reads checksum words in native order.
\<close>

section \<open>Words in bytes\<close>

definition be_u32 :: "byte list \<Rightarrow> u32" where
  "be_u32 bs = of_nat (be_to_nat bs)"

definition u32_to_be :: "u32 \<Rightarrow> byte list" where
  "u32_to_be w = nat_to_be 4 (unat w)"

definition u32_from_ne :: "bool \<Rightarrow> byte list \<Rightarrow> u32" where
  "u32_from_ne big bs = be_u32 (if big then bs else rev bs)"

definition u32_to_ne :: "bool \<Rightarrow> u32 \<Rightarrow> byte list" where
  "u32_to_ne big w = (if big then u32_to_be w else rev (u32_to_be w))"

definition swap_bytes :: "u32 \<Rightarrow> u32" where
  "swap_bytes w = be_u32 (rev (u32_to_be w))"

section \<open>Headers\<close>

definition WAL_HEADER_SIZE :: nat where "WAL_HEADER_SIZE = 32"
definition WAL_FRAME_HEADER_SIZE :: nat where "WAL_FRAME_HEADER_SIZE = 24"
definition WAL_MAGIC_LE :: u32 where "WAL_MAGIC_LE = 0x377f0682"
definition WAL_MAGIC_BE :: u32 where "WAL_MAGIC_BE = 0x377f0683"

record wal_header =
  magic :: u32
  file_format :: u32
  wal_page_size :: u32
  checkpoint_seq :: u32
  salt_1 :: u32
  salt_2 :: u32
  checksum_1 :: u32
  checksum_2 :: u32

definition wal_header_new :: "bool \<Rightarrow> wal_header" where
  "wal_header_new big =
     \<lparr>magic = (if big then WAL_MAGIC_BE else WAL_MAGIC_LE), file_format = 3007000, wal_page_size = 0,
      checkpoint_seq = 0, salt_1 = 0, salt_2 = 0, checksum_1 = 0, checksum_2 = 0\<rparr>"

record wal_frame_header =
  page_number :: u32
  db_size :: u32
  frame_salt_1 :: u32
  frame_salt_2 :: u32
  frame_checksum_1 :: u32
  frame_checksum_2 :: u32

section \<open>Checksum\<close>

fun checksum_words :: "(byte list \<Rightarrow> u32) \<Rightarrow> byte list \<Rightarrow> u32 \<times> u32 \<Rightarrow> u32 \<times> u32" where
  "checksum_words rd (b0 # b1 # b2 # b3 # b4 # b5 # b6 # b7 # rest) (s0, s1) =
     (let v0 = rd [b0, b1, b2, b3];
          v1 = rd [b4, b5, b6, b7];
          s0 = s0 + (v0 + s1);
          s1 = s1 + (v1 + s0)
      in checksum_words rd rest (s0, s1))"
| "checksum_words rd _ s = s"

definition checksum_wal :: "bool \<Rightarrow> byte list \<Rightarrow> u32 \<times> u32 \<Rightarrow> bool \<Rightarrow> (u32 \<times> u32) result" where
  "checksum_wal big buf input native_endian =
     and_then (ensure (length buf mod 8 = 0) Panic) (\<lambda>_.
     Inr (checksum_words
       (if native_endian then u32_from_ne big else (\<lambda>bs. swap_bytes (u32_from_ne big bs))) buf input))"

section \<open>Encoding and decoding\<close>

text \<open>The in-memory bytes of the \<open>repr(C)\<close> header.\<close>

definition wal_header_as_bytes :: "bool \<Rightarrow> wal_header \<Rightarrow> byte list" where
  "wal_header_as_bytes big h =
     concat (map (u32_to_ne big) [magic h, file_format h, wal_page_size h, checkpoint_seq h,
       salt_1 h, salt_2 h, checksum_1 h, checksum_2 h])"

text \<open>The bytes that \<open>begin_write_wal_header\<close> writes at the start of the file.\<close>

definition wal_header_bytes :: "wal_header \<Rightarrow> byte list" where
  "wal_header_bytes h =
     (let buf = replicate WAL_HEADER_SIZE 0;
          buf = put buf 0 (u32_to_be (magic h));
          buf = put buf 4 (u32_to_be (file_format h));
          buf = put buf 8 (u32_to_be (wal_page_size h));
          buf = put buf 12 (u32_to_be (checkpoint_seq h));
          buf = put buf 16 (u32_to_be (salt_1 h));
          buf = put buf 20 (u32_to_be (salt_2 h));
          buf = put buf 24 (u32_to_be (checksum_1 h));
          buf = put buf 28 (u32_to_be (checksum_2 h))
      in buf)"

text \<open>The buffer of a frame comes from the pool and may hold anything.\<close>

definition prepare_wal_frame_header :: "byte list \<Rightarrow> wal_header \<Rightarrow> u32 \<Rightarrow> u32 \<Rightarrow> byte list result" where
  "prepare_wal_frame_header buf h pgno dbsize =
     and_then (ensure (16 \<le> length buf) Panic) (\<lambda>_.
     let buf = put buf 0 (u32_to_be pgno);
         buf = put buf 4 (u32_to_be dbsize);
         buf = put buf 8 (u32_to_be (salt_1 h));
         buf = put buf 12 (u32_to_be (salt_2 h))
     in Inr buf)"

definition recompute_wal_frame_checksum ::
    "bool \<Rightarrow> byte list \<Rightarrow> wal_header \<Rightarrow> u32 \<times> u32 \<Rightarrow> ((u32 \<times> u32) \<times> byte list) result" where
  "recompute_wal_frame_checksum big frame h prev =
     and_then (ensure (WAL_FRAME_HEADER_SIZE \<le> length frame) Panic) (\<lambda>_.
     let expects_be = magic h AND 1;
         use_native_endian = ((if big then 1 else 0) = expects_be)
     in and_then (checksum_wal big (slice frame 0 8) prev use_native_endian) (\<lambda>header_checksum.
        and_then (checksum_wal big (drop WAL_FRAME_HEADER_SIZE frame) header_checksum use_native_endian) (\<lambda>(c1, c2).
        Inr ((c1, c2), put (put frame 16 (u32_to_be c1)) 20 (u32_to_be c2)))))"

definition prepare_wal_frame ::
    "bool \<Rightarrow> byte list \<Rightarrow> wal_header \<Rightarrow> u32 \<times> u32 \<Rightarrow> u32 \<Rightarrow> u32 \<Rightarrow> byte list \<Rightarrow> ((u32 \<times> u32) \<times> byte list) result" where
  "prepare_wal_frame big buf h prev pgno dbsize page =
     and_then (prepare_wal_frame_header buf h pgno dbsize) (\<lambda>frame.
     and_then (ensure (WAL_FRAME_HEADER_SIZE \<le> length frame \<and> length page = length frame - WAL_FRAME_HEADER_SIZE) Panic) (\<lambda>_.
     recompute_wal_frame_checksum big (put frame WAL_FRAME_HEADER_SIZE page) h prev))"

definition parse_wal_frame_header :: "byte list \<Rightarrow> (wal_frame_header \<times> byte list) result" where
  "parse_wal_frame_header frame =
     and_then (ensure (WAL_FRAME_HEADER_SIZE \<le> length frame) Panic) (\<lambda>_.
     Inr (\<lparr>page_number = be_u32 (slice frame 0 4), db_size = be_u32 (slice frame 4 4),
           frame_salt_1 = be_u32 (slice frame 8 4), frame_salt_2 = be_u32 (slice frame 12 4),
           frame_checksum_1 = be_u32 (slice frame 16 4), frame_checksum_2 = be_u32 (slice frame 20 4)\<rparr>,
          drop WAL_FRAME_HEADER_SIZE frame))"

section \<open>Lemmas of the codec\<close>

lemma length_u32_to_be [simp]: "length (u32_to_be w) = 4"
  by (simp add: u32_to_be_def)

lemma be_u32_to_be [simp]: "be_u32 (u32_to_be w) = w"
  using unat_u32_bound[of w] by (simp add: be_u32_def u32_to_be_def)

lemma u32_to_be_be [simp]: "length bs = 4 \<Longrightarrow> u32_to_be (be_u32 bs) = bs"
  using be_to_nat_bound[of bs] nat_to_be_be_to_nat[of bs]
  by (simp add: be_u32_def u32_to_be_def unat_of_nat take_bit_nat_eq_self)

lemma swap_bytes_be [simp]: "length bs = 4 \<Longrightarrow> swap_bytes (be_u32 bs) = be_u32 (rev bs)"
  by (simp add: swap_bytes_def)

text \<open>
  The sum runs over big-endian or little-endian words, whatever the build target is.
\<close>

definition word_reader :: "bool \<Rightarrow> byte list \<Rightarrow> u32" where
  "word_reader be bs = be_u32 (if be then bs else rev bs)"

lemma checksum_words_cong:
  "(\<And>bs. length bs = 4 \<Longrightarrow> rd bs = rd' bs) \<Longrightarrow> checksum_words rd bs s = checksum_words rd' bs s"
  by (induction rd bs s rule: checksum_words.induct) auto

lemma checksum_wal_eq:
  "checksum_wal big buf s native =
     (if length buf mod 8 = 0 then Inr (checksum_words (word_reader (native = big)) buf s) else Inl Panic)"
  by (auto simp: checksum_wal_def ensure_def word_reader_def u32_from_ne_def
      intro!: checksum_words_cong)

lemma checksum_words_append:
  "length xs mod 8 = 0 \<Longrightarrow> checksum_words rd (xs @ ys) s = checksum_words rd ys (checksum_words rd xs s)"
proof (induction rd xs s rule: checksum_words.induct)
qed (auto simp: Let_def)

lemma put_0 [simp]: "put xs 0 ys = ys @ drop (length ys) xs"
  by (simp add: put_def)

lemma put_append [simp]: "length xs \<le> i \<Longrightarrow> put (xs @ ys) i zs = xs @ put ys (i - length xs) zs"
  by (simp add: put_def)

lemma slice_append_skip [simp]: "length xs \<le> i \<Longrightarrow> slice (xs @ ys) i n = slice ys (i - length xs) n"
  by (simp add: slice_def)

lemma slice_0_append [simp]: "n = length xs \<Longrightarrow> slice (xs @ ys) 0 n = xs"
  by (simp add: slice_def)

lemma wal_header_bytes_eq:
  "wal_header_bytes h =
     concat (map u32_to_be [magic h, file_format h, wal_page_size h, checkpoint_seq h,
       salt_1 h, salt_2 h, checksum_1 h, checksum_2 h])"
  by (simp add: wal_header_bytes_def WAL_HEADER_SIZE_def Let_def)

lemma length_wal_header_bytes [simp]: "length (wal_header_bytes h) = 32"
  by (simp add: wal_header_bytes_eq)

text \<open>The bytes of a frame, with the checksum that covers it and everything before it.\<close>

abbreviation wal_be :: "wal_header \<Rightarrow> bool" where
  "wal_be h \<equiv> bit (magic h) 0"

definition frame_checksum :: "wal_header \<Rightarrow> u32 \<times> u32 \<Rightarrow> u32 \<Rightarrow> u32 \<Rightarrow> byte list \<Rightarrow> u32 \<times> u32" where
  "frame_checksum h prev pgno dbsize page =
     checksum_words (word_reader (wal_be h)) (u32_to_be pgno @ u32_to_be dbsize @ page) prev"

definition frame_bytes :: "wal_header \<Rightarrow> u32 \<times> u32 \<Rightarrow> u32 \<Rightarrow> u32 \<Rightarrow> byte list \<Rightarrow> byte list" where
  "frame_bytes h prev pgno dbsize page =
     (let (c1, c2) = frame_checksum h prev pgno dbsize page
      in concat (map u32_to_be [pgno, dbsize, salt_1 h, salt_2 h, c1, c2]) @ page)"

lemma native_iff_be: "(((if big then 1 else 0) = magic h AND 1) = big) = wal_be h"
  by (auto simp: and_one_eq bit_0 odd_iff_mod_2_eq_one)

lemma frame_checksum_split:
  "frame_checksum h prev pgno dbsize page =
     checksum_words (word_reader (wal_be h)) page
       (checksum_words (word_reader (wal_be h)) (u32_to_be pgno @ u32_to_be dbsize) prev)"
  by (simp add: frame_checksum_def flip: checksum_words_append append_assoc)

lemma prepare_wal_frame_eq:
  assumes "length buf = WAL_FRAME_HEADER_SIZE + length page" "length page mod 8 = 0"
  shows "prepare_wal_frame big buf h prev pgno dbsize page =
     Inr (frame_checksum h prev pgno dbsize page, frame_bytes h prev pgno dbsize page)"
proof -
  obtain c1 c2 where c: "frame_checksum h prev pgno dbsize page = (c1, c2)" by fastforce
  have d: "put (drop 16 buf) 8 page = slice buf 16 8 @ page"
    using assms(1) by (simp add: put_def slice_def WAL_FRAME_HEADER_SIZE_def)
  have l: "length (slice buf 16 8) = 8" using assms(1) by (simp add: WAL_FRAME_HEADER_SIZE_def)
  have s: "slice (u32_to_be pgno @ u32_to_be dbsize @ xs) 0 8 = u32_to_be pgno @ u32_to_be dbsize" for xs
    by (simp add: slice_def)
  show ?thesis
    using assms c l
    by (simp add: d s prepare_wal_frame_def prepare_wal_frame_header_def recompute_wal_frame_checksum_def
        checksum_wal_eq native_iff_be frame_bytes_def WAL_FRAME_HEADER_SIZE_def frame_checksum_split
        Let_def)
qed

end
