(* ===== verification/WalLock.thy ===== *)
theory WalLock
  imports Prelude
begin

text \<open>
  \<open>TursoRwLock\<close> of \<^verbatim>\<open>core/storage/wal.rs\<close>: a read-write lock in one 64-bit word, with the
  writer flag in bit 0, the reader count in bits 1 to 31 and a stored value in bits 32 to 63.
  Every operation loads the word and then changes it in a second atomic step; what other threads do
  between the two is an argument of the operation, so that a failed exchange is a case of the
  model, and threads that share a lock interleave between load and change.
\<close>

section \<open>Layout\<close>

definition WRITER :: u64 where "WRITER = 1"
definition READER_INC :: u64 where "READER_INC = 2"
definition READER_COUNT_MASK :: u64 where "READER_COUNT_MASK = push_bit 1 0x7fffffff"
definition VALUE_MASK :: u64 where "VALUE_MASK = push_bit 32 0xffffffff"
definition READMARK_NOT_USED :: u32 where "READMARK_NOT_USED = 0xffffffff"

definition lock_new :: u64 where "lock_new = 0"

definition has_writer :: "u64 \<Rightarrow> bool" where
  "has_writer val \<longleftrightarrow> val AND WRITER \<noteq> 0"

definition has_readers :: "u64 \<Rightarrow> bool" where
  "has_readers val \<longleftrightarrow> val AND READER_COUNT_MASK \<noteq> 0"

section \<open>Operations\<close>

text \<open>
  The exchange: \<open>now\<close> is the word when the exchange happens. The result says whether it
  succeeded, and is the word that it leaves.
\<close>

definition compare_exchange :: "u64 \<Rightarrow> u64 \<Rightarrow> u64 \<Rightarrow> bool \<times> u64" where
  "compare_exchange now cur desired = (if now = cur then (True, desired) else (False, now))"

text \<open>
  \<open>env\<close> lists, for the successive attempts, the word at the exchange and at the next load. Without
  interference it is empty.
\<close>

fun lock_read_loop :: "nat \<Rightarrow> (u64 \<times> u64) list \<Rightarrow> u64 \<Rightarrow> bool \<times> u64" where
  "lock_read_loop 0 env cur = (False, cur)"
| "lock_read_loop (Suc n) env cur =
     (if has_writer cur then (False, cur)
      else
        let desired = cur + READER_INC;
            now = (case env of [] \<Rightarrow> cur | (m, _) # _ \<Rightarrow> m)
        in case compare_exchange now cur desired of
             (True, w) \<Rightarrow> (True, w)
           | (False, w) \<Rightarrow> (case env of [] \<Rightarrow> (False, w) | (_, next) # env \<Rightarrow> lock_read_loop n env next))"

definition lock_read :: "(u64 \<times> u64) list \<Rightarrow> u64 \<Rightarrow> bool \<times> u64" where
  "lock_read env cur = lock_read_loop 1000000 env cur"

definition lock_write :: "u64 \<Rightarrow> u64 \<Rightarrow> bool \<times> u64" where
  "lock_write now cur =
     (if has_writer cur \<or> has_readers cur then (False, now)
      else compare_exchange now cur (cur OR WRITER))"

definition is_write_locked :: "u64 \<Rightarrow> bool" where
  "is_write_locked cur = has_writer cur"

definition lock_upgrade :: "u64 \<Rightarrow> u64 \<Rightarrow> bool \<times> u64" where
  "lock_upgrade now cur =
     (if cur AND NOT VALUE_MASK \<noteq> READER_INC then (False, now)
      else compare_exchange now cur ((cur AND VALUE_MASK) OR WRITER))"

text \<open>
  \<open>downgrade\<close>: the release build stores the new word, the debug build exchanges it for the loaded
  one and asserts that this succeeds.
\<close>

definition lock_downgrade :: "u64 \<Rightarrow> u64" where
  "lock_downgrade cur = (cur AND VALUE_MASK) OR READER_INC"

definition lock_downgrade_debug :: "u64 \<Rightarrow> u64 \<Rightarrow> u64 result" where
  "lock_downgrade_debug now cur =
     and_then (ensure (has_writer cur) Panic) (\<lambda>_.
     case compare_exchange now cur (lock_downgrade cur) of
       (ok, w) \<Rightarrow> and_then (ensure ok Panic) (\<lambda>_. Inr w))"

text \<open>\<open>unlock\<close> decides on the word \<open>cur\<close> that it loaded and changes the word \<open>now\<close>.\<close>

definition lock_unlock_at :: "u64 \<Rightarrow> u64 \<Rightarrow> u64 result" where
  "lock_unlock_at now cur =
     (if cur AND WRITER \<noteq> 0 then
        and_then (ensure (\<not> has_readers now) Panic) (\<lambda>_. Inr (now AND NOT WRITER))
      else
        and_then (ensure (has_readers cur) Panic) (\<lambda>_. Inr (now - READER_INC)))"

definition lock_unlock :: "u64 \<Rightarrow> u64 result" where
  "lock_unlock cur = lock_unlock_at cur cur"

definition get_value :: "u64 \<Rightarrow> u32" where
  "get_value cur = ucast (drop_bit 32 cur)"

definition held_value :: "u64 \<Rightarrow> u32 option" where
  "held_value cur = (if has_readers cur then Some (ucast (drop_bit 32 cur)) else None)"

text \<open>The word that is stored, from the one that was loaded.\<close>

definition set_value_exclusive :: "u32 \<Rightarrow> u64 \<Rightarrow> u64 result" where
  "set_value_exclusive v cur =
     and_then (ensure (has_writer cur) Panic) (\<lambda>_.
     Inr ((cur AND NOT VALUE_MASK) OR push_bit 32 (ucast v)))"

section \<open>The word as a state of a lock\<close>

text \<open>The word that stands for a writer flag, a number of readers and a value.\<close>

definition pack_lock :: "bool \<Rightarrow> nat \<Rightarrow> u32 \<Rightarrow> u64" where
  "pack_lock w n v = of_bool w + of_nat (2 * n) + push_bit 32 (ucast v)"

lemma plus_eq_or: "x AND y = 0 \<Longrightarrow> x + y = x OR (y :: 'a :: len word)"
  using word_plus_and_or[of x y] by simp

lemma bit_unat: "bit (unat w) i = bit w i"
  by (simp add: bit_unsigned_iff)

lemma bit_reader_count:
  assumes "n < 2 ^ 31"
  shows "bit (of_nat (2 * n) :: u64) i \<longleftrightarrow> 0 < i \<and> i < 32 \<and> bit n (i - 1)"
proof -
  have "unat (of_nat (2 * n) :: u64) = 2 * n"
    using assms by (simp only: unat_of_nat) simp
  then have b: "bit (of_nat (2 * n) :: u64) i = bit (2 * n) i" by (metis bit_unat)
  have "\<not> bit n (i - 1)" if "32 \<le> i"
  proof -
    have "(2 :: nat) ^ 31 \<le> 2 ^ (i - 1)" using that by (intro power_increasing) auto
    then have "n div 2 ^ (i - 1) = 0" using assms by simp
    then show ?thesis by (simp add: bit_iff_odd)
  qed
  moreover have "bit (2 * n) i \<longleftrightarrow> 0 < i \<and> bit n (i - 1)" by (cases i) (simp_all add: bit_Suc bit_0)
  ultimately show ?thesis using b by (cases "32 \<le> i") auto
qed

lemma pack_lock_bits:
  assumes "n < 2 ^ 31"
  shows "bit (pack_lock w n v) i \<longleftrightarrow>
     (if i = 0 then w else if i < 32 then bit n (i - 1) else i < 64 \<and> bit v (i - 32))"
proof -
  let ?r = "of_nat (2 * n) :: u64" and ?v = "push_bit 32 (ucast v) :: u64"
  have bits: "bit (of_bool w :: u64) i \<longleftrightarrow> i = 0 \<and> w" "bit ?v i \<longleftrightarrow> 32 \<le> i \<and> i < 64 \<and> bit v (i - 32)" for i
    by (auto simp: bit_simps dest: bit_imp_le_length)
  have "of_bool w AND ?r = 0" "(of_bool w OR ?r) AND ?v = 0"
    by (rule bit_eqI; use bits bit_reader_count[OF assms] in \<open>auto simp: bit_and_iff bit_or_iff\<close>)+
  then have "pack_lock w n v = of_bool w OR ?r OR ?v"
    by (simp only: pack_lock_def plus_eq_or or.assoc)
  then show ?thesis using bits bit_reader_count[OF assms, of i] by (auto simp: bit_or_iff)
qed

lemma lock_mask_bits:
  "bit WRITER i \<longleftrightarrow> i = 0" "bit READER_COUNT_MASK i \<longleftrightarrow> 0 < i \<and> i < 32" "bit VALUE_MASK i \<longleftrightarrow> 32 \<le> i \<and> i < 64"
proof -
  have m: "(0x7fffffff :: u64) = mask 31" "(0xffffffff :: u64) = mask 32" by (simp_all add: mask_eq_exp_minus_1)
  show "bit WRITER i \<longleftrightarrow> i = 0" by (simp add: WRITER_def bit_1_iff)
  show "bit READER_COUNT_MASK i \<longleftrightarrow> 0 < i \<and> i < 32" "bit VALUE_MASK i \<longleftrightarrow> 32 \<le> i \<and> i < 64"
    unfolding READER_COUNT_MASK_def VALUE_MASK_def m bit_push_bit_iff bit_mask_iff by auto
qed

lemma has_writer_pack: "n < 2 ^ 31 \<Longrightarrow> has_writer (pack_lock w n v) = w"
proof -
  assume n: "n < 2 ^ 31"
  have "has_writer x = bit x 0" for x by (simp add: has_writer_def WRITER_def and_one_eq bit_0 odd_iff_mod_2_eq_one)
  then show ?thesis using pack_lock_bits[OF n, of w v 0] by simp
qed

lemma has_readers_pack: "n < 2 ^ 31 \<Longrightarrow> has_readers (pack_lock w n v) \<longleftrightarrow> n \<noteq> 0"
proof -
  assume n: "n < 2 ^ 31"
  have "pack_lock w n v AND READER_COUNT_MASK = of_nat (2 * n)"
    by (rule bit_eqI) (auto simp: bit_and_iff lock_mask_bits pack_lock_bits[OF n] bit_reader_count[OF n] simp del: of_nat_mult of_nat_numeral)
  moreover have "(of_nat (2 * n) :: u64) = 0 \<longleftrightarrow> n = 0"
    using n by (simp only: word_unat_eq_iff unat_of_nat) simp
  ultimately show ?thesis by (simp add: has_readers_def)
qed

lemma reader_count_pack: "n < 2 ^ 31 \<Longrightarrow> unat (drop_bit 1 (pack_lock w n v AND READER_COUNT_MASK)) = n"
proof -
  assume n: "n < 2 ^ 31"
  have "pack_lock w n v AND READER_COUNT_MASK = of_nat (2 * n)"
    by (rule bit_eqI) (auto simp: bit_and_iff lock_mask_bits pack_lock_bits[OF n] bit_reader_count[OF n] simp del: of_nat_mult of_nat_numeral)
  moreover have "unat (of_nat (2 * n) :: u64) = 2 * n" using n by (simp only: unat_of_nat) simp
  moreover have "unat (drop_bit 1 x) = unat x div 2" for x :: u64 unfolding unat_drop_bit_eq by (simp add: drop_bit_Suc)
  ultimately show ?thesis by simp
qed

lemma get_value_pack: "n < 2 ^ 31 \<Longrightarrow> get_value (pack_lock w n v) = v"
  unfolding get_value_def by (rule bit_eqI) (simp add: bit_ucast_iff bit_drop_bit_eq pack_lock_bits)

lemma read_pack: "pack_lock False n v + READER_INC = pack_lock False (Suc n) v"
  by (simp add: pack_lock_def READER_INC_def algebra_simps)

lemma unread_pack: "pack_lock False (Suc n) v - READER_INC = pack_lock False n v"
  by (simp add: pack_lock_def READER_INC_def algebra_simps)

lemma write_pack: "pack_lock False 0 v OR WRITER = pack_lock True 0 v"
  by (rule bit_eqI) (simp add: bit_or_iff lock_mask_bits pack_lock_bits)

lemma unwrite_pack: "pack_lock True 0 v AND NOT WRITER = pack_lock False 0 v"
  by (rule bit_eqI) (simp add: bit_and_iff bit_not_iff lock_mask_bits pack_lock_bits)

lemma value_pack: "(pack_lock True 0 u AND NOT VALUE_MASK) OR push_bit 32 (ucast v) = pack_lock True 0 v"
  by (rule bit_eqI) (auto simp: bit_simps lock_mask_bits pack_lock_bits dest: bit_imp_le_length)

lemma upgrade_pack: "(pack_lock False n v AND VALUE_MASK) OR WRITER = pack_lock True 0 v" if "n < 2 ^ 31"
  using that by (intro bit_eqI) (auto simp: bit_simps lock_mask_bits pack_lock_bits)

lemma downgrade_pack: "(pack_lock True 0 v AND VALUE_MASK) OR READER_INC = pack_lock False 1 v"
proof -
  have b: "bit READER_INC i \<longleftrightarrow> i = 1" for i
    by (auto simp: READER_INC_def bit_2_iff)
  have "bit (1 :: nat) (i - 1) \<longleftrightarrow> i = 0 \<or> i = 1" for i by (auto simp: bit_Suc_0_iff)
  then show ?thesis
    by (intro bit_eqI) (auto simp: bit_and_iff bit_or_iff b lock_mask_bits pack_lock_bits)
qed

lemma single_reader_pack: "n < 2 ^ 31 \<Longrightarrow> pack_lock w n v AND NOT VALUE_MASK = READER_INC \<longleftrightarrow> \<not> w \<and> n = 1"
proof -
  assume n: "n < 2 ^ 31"
  have "pack_lock w n v AND NOT VALUE_MASK = pack_lock w n 0"
    by (rule bit_eqI) (auto simp: bit_simps lock_mask_bits pack_lock_bits[OF n])
  moreover have "pack_lock w n 0 = READER_INC \<longleftrightarrow> \<not> w \<and> n = 1"
  proof -
    have "pack_lock w n 0 = of_nat (of_bool w + 2 * n)" "READER_INC = of_nat 2"
      by (simp_all add: pack_lock_def READER_INC_def)
    then have "pack_lock w n 0 = READER_INC \<longleftrightarrow> of_bool w + 2 * n = 2"
      using n by (simp only: word_unat_eq_iff unat_of_nat) simp
    then show ?thesis by (cases w) auto
  qed
  ultimately show ?thesis by simp
qed

section \<open>Threads sharing a lock\<close>

datatype held = HeldRead | HeldWrite

record lock_sys =
  word :: u64
  holds :: "nat \<Rightarrow> held option"
  seen :: "nat \<Rightarrow> u64 option"

text \<open>
  One atomic step of thread \<open>t\<close>. The acquiring steps carry the word that the thread loaded
  earlier, which may be any word: the exchange happens on the current one. The other operations are
  two steps: \<open>LLoad\<close> loads the word, which the thread keeps in \<open>seen\<close>, and the second step changes
  the word that is there by then.
\<close>

datatype lock_op =
    LRead nat u64 | LWrite nat u64 | LUpgrade nat u64 | LLoad nat
  | LDowngrade nat | LUnlock nat | LSetValue nat u32

fun lock_op_ok :: "nat \<Rightarrow> lock_op \<Rightarrow> lock_sys \<Rightarrow> bool" where
  "lock_op_ok N (LRead t cur) s \<longleftrightarrow> t < N \<and> holds s t = None"
| "lock_op_ok N (LWrite t cur) s \<longleftrightarrow> t < N \<and> holds s t = None"
| "lock_op_ok N (LUpgrade t cur) s \<longleftrightarrow> t < N \<and> holds s t = Some HeldRead \<and> seen s t = None"
| "lock_op_ok N (LLoad t) s \<longleftrightarrow> t < N \<and> holds s t \<noteq> None \<and> seen s t = None"
| "lock_op_ok N (LDowngrade t) s \<longleftrightarrow> t < N \<and> holds s t = Some HeldWrite \<and> seen s t \<noteq> None"
| "lock_op_ok N (LUnlock t) s \<longleftrightarrow> t < N \<and> holds s t \<noteq> None \<and> seen s t \<noteq> None"
| "lock_op_ok N (LSetValue t v) s \<longleftrightarrow> t < N \<and> holds s t = Some HeldWrite \<and> seen s t \<noteq> None"

fun acquire :: "nat \<Rightarrow> held \<Rightarrow> bool \<times> u64 \<Rightarrow> lock_sys \<Rightarrow> lock_sys" where
  "acquire t h (True, w) s = s\<lparr>word := w, holds := (holds s)(t \<mapsto> h)\<rparr>"
| "acquire t h (False, _) s = s"

text \<open>The second step of an operation of \<open>t\<close>, which leaves \<open>t\<close> with the hold \<open>h\<close>.\<close>

definition finish :: "nat \<Rightarrow> held option \<Rightarrow> (u64 \<Rightarrow> u64 result) \<Rightarrow> lock_sys \<Rightarrow> lock_sys result" where
  "finish t h f s =
     (case seen s t of
        None \<Rightarrow> Inr s
      | Some cur \<Rightarrow>
          and_then (f cur) (\<lambda>w. Inr (s\<lparr>word := w, holds := (holds s)(t := h), seen := (seen s)(t := None)\<rparr>)))"

fun lock_step :: "lock_op \<Rightarrow> lock_sys \<Rightarrow> lock_sys result" where
  "lock_step (LRead t cur) s = Inr (acquire t HeldRead (lock_read_loop 1 [(word s, word s)] cur) s)"
| "lock_step (LWrite t cur) s = Inr (acquire t HeldWrite (lock_write (word s) cur) s)"
| "lock_step (LUpgrade t cur) s = Inr (acquire t HeldWrite (lock_upgrade (word s) cur) s)"
| "lock_step (LLoad t) s = Inr (s\<lparr>seen := (seen s)(t \<mapsto> word s)\<rparr>)"
| "lock_step (LDowngrade t) s = finish t (Some HeldRead) (lock_downgrade_debug (word s)) s"
| "lock_step (LUnlock t) s = finish t None (lock_unlock_at (word s)) s"
| "lock_step (LSetValue t v) s = finish t (Some HeldWrite) (set_value_exclusive v) s"

definition readers :: "nat \<Rightarrow> lock_sys \<Rightarrow> nat set" where
  "readers N s = {t. t < N \<and> holds s t = Some HeldRead}"

definition writers :: "nat \<Rightarrow> lock_sys \<Rightarrow> nat set" where
  "writers N s = {t. t < N \<and> holds s t = Some HeldWrite}"

fun op_value :: "lock_op \<Rightarrow> u32 \<Rightarrow> u32" where
  "op_value (LSetValue t v) u = v"
| "op_value _ u = u"

text \<open>A loaded word is still good: a writer's is the current one, a reader's shows readers.\<close>

definition seen_ok :: "nat \<Rightarrow> lock_sys \<Rightarrow> bool" where
  "seen_ok N s \<longleftrightarrow>
     (\<forall>t<N. \<forall>w. seen s t = Some w \<longrightarrow>
        (case holds s t of
           None \<Rightarrow> False
         | Some HeldRead \<Rightarrow> \<not> has_writer w \<and> has_readers w
         | Some HeldWrite \<Rightarrow> w = word s))"

definition lock_inv :: "nat \<Rightarrow> u32 \<Rightarrow> lock_sys \<Rightarrow> bool" where
  "lock_inv N v s \<longleftrightarrow>
     word s = pack_lock (writers N s \<noteq> {}) (card (readers N s)) v \<and>
     (writers N s = {} \<or> (\<exists>t. writers N s = {t}) \<and> readers N s = {}) \<and> seen_ok N s"

lemma finite_readers [simp]: "finite (readers N s)"
  by (simp add: readers_def)

lemma card_readers_le: "card (readers N s) \<le> N"
  using card_mono[of "{..<N}" "readers N s"] by (auto simp: readers_def)

lemma holders_upd:
  assumes "t < N" "holds s' = (holds s)(t := h)"
  shows "readers N s' = (if h = Some HeldRead then insert t (readers N s) else readers N s - {t})"
    "writers N s' = (if h = Some HeldWrite then insert t (writers N s) else writers N s - {t})"
  using assms by (auto simp: readers_def writers_def)

lemma seen_okD:
  assumes "seen_ok N s" "t < N" "seen s t = Some w"
  shows "holds s t \<noteq> None" "holds s t = Some HeldRead \<Longrightarrow> \<not> has_writer w \<and> has_readers w"
    "holds s t = Some HeldWrite \<Longrightarrow> w = word s"
proof -
  have "case holds s t of None \<Rightarrow> False | Some HeldRead \<Rightarrow> \<not> has_writer w \<and> has_readers w | Some HeldWrite \<Rightarrow> w = word s"
    using assms by (simp add: seen_ok_def)
  then show "holds s t \<noteq> None" "holds s t = Some HeldRead \<Longrightarrow> \<not> has_writer w \<and> has_readers w" "holds s t = Some HeldWrite \<Longrightarrow> w = word s"
    by (auto split: option.splits)
qed

text \<open>A step of \<open>t\<close> that finishes while no other thread writes.\<close>

lemma seen_ok_step:
  assumes "seen_ok N s" "writers N s \<subseteq> {t}" "holds s' = (holds s)(t := h)" "seen s' = (seen s)(t := None)"
  shows "seen_ok N s'"
  unfolding seen_ok_def
proof (intro allI impI)
  fix d w assume d: "d < N" "seen s' d = Some w"
  then have n: "d \<noteq> t" "seen s d = Some w" using assms(4) by (auto split: if_splits)
  then have "holds s d \<noteq> Some HeldWrite" using assms(2) d(1) by (auto simp: writers_def)
  then show "case holds s' d of None \<Rightarrow> False | Some HeldRead \<Rightarrow> \<not> has_writer w \<and> has_readers w | Some HeldWrite \<Rightarrow> w = word s'"
    using seen_okD[OF assms(1) d(1) n(2)] n(1) assms(3) by (auto split: option.split held.split)
qed

lemma acquired:
  "lock_read_loop 1 [(now, now)] cur = (True, w) \<Longrightarrow> now = cur \<and> \<not> has_writer cur \<and> w = cur + READER_INC"
  "lock_write now cur = (True, w) \<Longrightarrow> now = cur \<and> \<not> has_writer cur \<and> \<not> has_readers cur \<and> w = cur OR WRITER"
  "lock_upgrade now cur = (True, w) \<Longrightarrow>
     now = cur \<and> cur AND NOT VALUE_MASK = READER_INC \<and> w = (cur AND VALUE_MASK) OR WRITER"
  by (auto simp: lock_write_def lock_upgrade_def compare_exchange_def Let_def split: if_splits)

lemma acquire_inv:
  assumes "lock_inv N v s" "t < N" "seen s t = None"
    "\<And>w. res = (True, w) \<Longrightarrow> writers N s = {} \<and> w = pack_lock (h = HeldWrite) (if h = HeldWrite then 0 else Suc (card (readers N s))) v \<and>
       (if h = HeldWrite then readers N s \<subseteq> {t} else t \<notin> readers N s)"
  shows "lock_inv N v (acquire t h res s)"
proof (cases res)
  case (Pair ok w)
  show ?thesis
  proof (cases ok)
    case True
    let ?s = "s\<lparr>word := w, holds := (holds s)(t \<mapsto> h)\<rparr>"
    have a: "writers N s = {}" "w = pack_lock (h = HeldWrite) (if h = HeldWrite then 0 else Suc (card (readers N s))) v"
      "if h = HeldWrite then readers N s \<subseteq> {t} else t \<notin> readers N s" using assms(4) Pair True by auto
    have "seen_ok N s" using assms(1) by (simp add: lock_inv_def)
    then have "seen_ok N ?s" by (rule seen_ok_step[where t = t and h = "Some h"]) (use assms(3) a(1) in auto)
    moreover have "readers N ?s = (if h = HeldRead then insert t (readers N s) else {})" "writers N ?s = (if h = HeldWrite then {t} else {})"
      using holders_upd[OF assms(2), of ?s s "Some h"] a(1,3) by (cases h; auto)+
    ultimately show ?thesis using a Pair True by (cases h) (simp_all add: lock_inv_def)
  qed (use Pair assms(1) in simp)
qed

text \<open>What the invariant says of the word.\<close>

lemma lock_facts:
  assumes "N < 2 ^ 31" "lock_inv N v s"
  shows "card (readers N s) < 2 ^ 31" "has_writer (word s) \<longleftrightarrow> writers N s \<noteq> {}" "has_readers (word s) \<longleftrightarrow> readers N s \<noteq> {}"
    "word s AND NOT VALUE_MASK = READER_INC \<longleftrightarrow> writers N s = {} \<and> card (readers N s) = 1"
    "writers N s = {} \<Longrightarrow> word s = pack_lock False (card (readers N s)) v"
    "t \<in> writers N s \<Longrightarrow> writers N s = {t} \<and> readers N s = {} \<and> word s = pack_lock True 0 v" "seen_ok N s"
proof -
  show n: "card (readers N s) < 2 ^ 31" using card_readers_le[of N s] assms(1) by simp
  show "has_writer (word s) \<longleftrightarrow> writers N s \<noteq> {}" "has_readers (word s) \<longleftrightarrow> readers N s \<noteq> {}"
    "word s AND NOT VALUE_MASK = READER_INC \<longleftrightarrow> writers N s = {} \<and> card (readers N s) = 1"
    using assms(2) has_writer_pack[OF n] has_readers_pack[OF n] single_reader_pack[OF n] by (simp_all add: lock_inv_def)
qed (use assms(2) in \<open>auto simp: lock_inv_def\<close>)

lemma acquire_steps_inv:
  assumes "N < 2 ^ 31" "lock_inv N v s"
  shows "lock_op_ok N (LRead t cur) s \<Longrightarrow> \<exists>s'. lock_step (LRead t cur) s = Inr s' \<and> lock_inv N v s'"
    "lock_op_ok N (LWrite t cur) s \<Longrightarrow> \<exists>s'. lock_step (LWrite t cur) s = Inr s' \<and> lock_inv N v s'"
    "lock_op_ok N (LUpgrade t cur) s \<Longrightarrow> \<exists>s'. lock_step (LUpgrade t cur) s = Inr s' \<and> lock_inv N v s'"
proof -
  note f = lock_facts[OF assms]
  have new: "t \<notin> readers N s" "seen s t = None" if "t < N" "holds s t = None"
    using that seen_okD(1)[OF f(7) that(1)] by (auto simp: readers_def) (cases "seen s t"; auto)
  show "\<exists>s'. lock_step (LRead t cur) s = Inr s' \<and> lock_inv N v s'" if ok: "lock_op_ok N (LRead t cur) s"
  proof -
    have "writers N s = {} \<and> w = pack_lock False (Suc (card (readers N s))) v"
      if "lock_read_loop 1 [(word s, word s)] cur = (True, w)" for w
      using acquired(1)[OF that] f(2,5) read_pack by auto
    then show ?thesis using ok new acquire_inv[OF assms(2), of t "lock_read_loop 1 [(word s, word s)] cur" HeldRead]
      by (simp del: lock_read_loop.simps)
  qed
  show "\<exists>s'. lock_step (LWrite t cur) s = Inr s' \<and> lock_inv N v s'" if ok: "lock_op_ok N (LWrite t cur) s"
  proof -
    have "writers N s = {} \<and> readers N s = {} \<and> w = pack_lock True 0 v" if "lock_write (word s) cur = (True, w)" for w
      using acquired(2)[OF that] f(2,3,5) write_pack by auto
    then show ?thesis using ok new acquire_inv[OF assms(2), of t "lock_write (word s) cur" HeldWrite] by simp
  qed
  show "\<exists>s'. lock_step (LUpgrade t cur) s = Inr s' \<and> lock_inv N v s'" if ok: "lock_op_ok N (LUpgrade t cur) s"
  proof -
    have t: "t \<in> readers N s" using ok by (simp add: readers_def)
    have "writers N s = {} \<and> readers N s \<subseteq> {t} \<and> w = pack_lock True 0 v" if "lock_upgrade (word s) cur = (True, w)" for w
      using acquired(3)[OF that] f(4,5) upgrade_pack[OF f(1)] t by (auto simp: card_1_singleton_iff)
    then show ?thesis using ok acquire_inv[OF assms(2), of t "lock_upgrade (word s) cur" HeldWrite] by simp
  qed
qed

lemma finish_inv:
  assumes "lock_inv N v s" "t < N" "seen s t = Some cur" "writers N s \<subseteq> {t}" "f cur = Inr w"
    "h = Some HeldWrite \<Longrightarrow> writers N s = {t}"
    "w = pack_lock (h = Some HeldWrite) (card (if h = Some HeldRead then insert t (readers N s) else readers N s - {t})) u"
  shows "\<exists>s'. finish t h f s = Inr s' \<and> lock_inv N u s'"
proof -
  let ?s = "s\<lparr>word := w, holds := (holds s)(t := h), seen := (seen s)(t := None)\<rparr>"
  have "seen_ok N s" using assms(1) by (simp add: lock_inv_def)
  then have so: "seen_ok N ?s" by (rule seen_ok_step[OF _ assms(4)]) simp_all
  have R: "readers N ?s = (if h = Some HeldRead then insert t (readers N s) else readers N s - {t})"
    by (rule holders_upd(1)[OF assms(2)]) simp
  have "writers N ?s = (if h = Some HeldWrite then insert t (writers N s) else writers N s - {t})"
    by (rule holders_upd(2)[OF assms(2)]) simp
  then have W: "writers N ?s = (if h = Some HeldWrite then {t} else {})" using assms(4) by auto
  have "readers N s = {}" if "h = Some HeldWrite" using assms(1,6) that by (auto simp: lock_inv_def)
  then have "lock_inv N u ?s" unfolding lock_inv_def R W using so assms(7) by simp
  then show ?thesis using assms(3,5) by (simp add: finish_def)
qed

lemma finish_steps_inv:
  assumes "N < 2 ^ 31" "lock_inv N v s"
  shows "lock_op_ok N (LDowngrade t) s \<Longrightarrow> \<exists>s'. lock_step (LDowngrade t) s = Inr s' \<and> lock_inv N v s'"
    "lock_op_ok N (LUnlock t) s \<Longrightarrow> \<exists>s'. lock_step (LUnlock t) s = Inr s' \<and> lock_inv N v s'"
    "lock_op_ok N (LSetValue t u) s \<Longrightarrow> \<exists>s'. lock_step (LSetValue t u) s = Inr s' \<and> lock_inv N u s'"
proof -
  note f = lock_facts[OF assms]
  have wr: "seen s t = Some (word s)" "writers N s = {t}" "readers N s = {}" "word s = pack_lock True 0 v"
    if "t < N" "holds s t = Some HeldWrite" "seen s t \<noteq> None"
    using that f(6)[of t] seen_okD(3)[OF f(7) that(1)] by (auto simp: writers_def)
  note w0 = has_writer_pack[of 0 True v] has_readers_pack[of 0 True v]
  show "\<exists>s'. lock_step (LDowngrade t) s = Inr s' \<and> lock_inv N v s'" if ok: "lock_op_ok N (LDowngrade t) s"
  proof -
    have t: "t < N" "holds s t = Some HeldWrite" "seen s t \<noteq> None" using ok by auto
    note r = wr[OF t]
    have "lock_downgrade_debug (word s) (word s) = Inr (pack_lock False 1 v)"
      using w0 downgrade_pack r(4) by (simp add: lock_downgrade_debug_def compare_exchange_def lock_downgrade_def)
    from finish_inv[where f = "lock_downgrade_debug (word s)" and h = "Some HeldRead", OF assms(2) t(1) r(1) _ this] show ?thesis using r by simp
  qed
  show "\<exists>s'. lock_step (LSetValue t u) s = Inr s' \<and> lock_inv N u s'" if ok: "lock_op_ok N (LSetValue t u) s"
  proof -
    have t: "t < N" "holds s t = Some HeldWrite" "seen s t \<noteq> None" using ok by auto
    note r = wr[OF t]
    have "set_value_exclusive u (word s) = Inr (pack_lock True 0 u)" using w0 value_pack r(4) by (simp add: set_value_exclusive_def)
    from finish_inv[where f = "set_value_exclusive u" and h = "Some HeldWrite", OF assms(2) t(1) r(1) _ this] show ?thesis using r by simp
  qed
  show "\<exists>s'. lock_step (LUnlock t) s = Inr s' \<and> lock_inv N v s'" if ok: "lock_op_ok N (LUnlock t) s"
  proof -
    obtain cur where t: "t < N" "seen s t = Some cur" using ok by auto
    show ?thesis
    proof (cases "holds s t = Some HeldWrite")
      case True
      have "seen s t \<noteq> None" using t(2) by simp
      note r = wr[OF t(1) True this]
      have "lock_unlock_at (word s) (word s) = Inr (pack_lock False 0 v)"
        using w0 unwrite_pack r(4) by (simp add: lock_unlock_at_def has_writer_def)
      from finish_inv[where f = "lock_unlock_at (word s)" and h = None, OF assms(2) t(1) r(1) _ this] show ?thesis using r by simp
    next
      case False
      obtain x where x: "holds s t = Some x" using ok by auto
      then have h: "holds s t = Some HeldRead" using False by (cases x) simp_all
      then have m: "t \<in> readers N s" "writers N s = {}" using t(1) f(6) by (auto simp: readers_def)
      then obtain n where n: "card (readers N s) = Suc n" by (metis card_0_eq empty_iff finite_readers nat.exhaust)
      have "lock_unlock_at (word s) cur = Inr (pack_lock False n v)"
        using seen_okD(2)[OF f(7) t h] f(5)[OF m(2)] n unread_pack by (simp add: lock_unlock_at_def has_writer_def)
      from finish_inv[where f = "lock_unlock_at (word s)" and h = None, OF assms(2) t _ this] show ?thesis using m n by simp
    qed
  qed
qed

lemma load_inv:
  assumes "N < 2 ^ 31" "lock_inv N v s" "lock_op_ok N (LLoad t) s"
  shows "\<exists>s'. lock_step (LLoad t) s = Inr s' \<and> lock_inv N v s'"
proof -
  note f = lock_facts[OF assms(1,2)]
  let ?s = "s\<lparr>seen := (seen s)(t \<mapsto> word s)\<rparr>"
  have "\<not> has_writer (word s) \<and> has_readers (word s)" if "holds s t = Some HeldRead"
    using that assms(3) f(2,3) f(6)[of "SOME t. t \<in> writers N s"] by (auto simp: readers_def some_in_eq)
  then have "seen_ok N ?s" using assms(3) f(7) by (auto simp: seen_ok_def split: option.splits held.splits)
  moreover have "readers N ?s = readers N s" "writers N ?s = writers N s" by (simp_all add: readers_def writers_def)
  ultimately show ?thesis using assms(2) by (simp add: lock_inv_def)
qed

lemma lock_step_inv:
  assumes "N < 2 ^ 31" "lock_inv N v s" "lock_op_ok N op s"
  shows "\<exists>s'. lock_step op s = Inr s' \<and> lock_inv N (op_value op v) s'"
  using assms(3) acquire_steps_inv[OF assms(1,2)] finish_steps_inv[OF assms(1,2)] load_inv[OF assms(1,2)]
  by (cases op) (simp_all only: op_value.simps)

fun lock_run :: "lock_op list \<Rightarrow> lock_sys \<Rightarrow> lock_sys result" where
  "lock_run [] s = Inr s"
| "lock_run (op # ops) s = and_then (lock_step op s) (lock_run ops)"

fun lock_run_ok :: "nat \<Rightarrow> lock_op list \<Rightarrow> lock_sys \<Rightarrow> bool" where
  "lock_run_ok N [] s \<longleftrightarrow> True"
| "lock_run_ok N (op # ops) s \<longleftrightarrow>
     lock_op_ok N op s \<and> (case lock_step op s of Inl _ \<Rightarrow> True | Inr s \<Rightarrow> lock_run_ok N ops s)"

lemma lock_run_inv:
  assumes "N < 2 ^ 31"
  shows "lock_inv N v s \<Longrightarrow> lock_run_ok N ops s \<Longrightarrow>
     \<exists>s'. lock_run ops s = Inr s' \<and> lock_inv N (fold op_value ops v) s'"
proof (induction ops arbitrary: s v)
  case (Cons op ops)
  obtain s' where "lock_step op s = Inr s'" "lock_inv N (op_value op v) s'"
    using lock_step_inv[OF assms Cons.prems(1)] Cons.prems(2) by auto
  then show ?case using Cons by auto
qed simp

definition lock_start :: lock_sys where
  "lock_start = \<lparr>word = lock_new, holds = (\<lambda>_. None), seen = (\<lambda>_. None)\<rparr>"

lemma lock_start_inv: "lock_inv N 0 lock_start"
  by (simp add: lock_inv_def seen_ok_def lock_start_def lock_new_def readers_def writers_def pack_lock_def)

text \<open>Two readers and a writer that fails; the readers release at once, and one comes back to write.\<close>

definition sample_lock_ops :: "lock_op list" where
  "sample_lock_ops =
     [LRead 0 0, LRead 1 2, LWrite 2 4, LLoad 0, LLoad 1, LUnlock 0, LUnlock 1, LRead 1 0, LUpgrade 1 2, LLoad 1, LSetValue 1 7,
      LLoad 1, LDowngrade 1]"

text \<open>
  C12. The read-write lock excludes, for fewer than \<open>2 ^ 31\<close> threads and every interleaving of their
  loads and changes of the word, with exchanges that fail in any way: no assertion of \<open>unlock\<close>,
  \<open>set_value_exclusive\<close> and \<open>downgrade\<close> fails, there is at most one writer and no reader beside it,
  the writer flag says whether there is one, the count field of the word is the number of readers, and
  the stored value is the last one that was set.
\<close>

theorem lock_run_exclusive:
  assumes "N < 2 ^ 31" "lock_run_ok N ops lock_start"
  shows "\<exists>s. lock_run ops lock_start = Inr s \<and>
     (if writers N s = {} then \<not> has_writer (word s)
      else has_writer (word s) \<and> card (writers N s) = 1 \<and> readers N s = {}) \<and>
     unat (drop_bit 1 (word s AND READER_COUNT_MASK)) = card (readers N s) \<and>
     (has_readers (word s) \<longleftrightarrow> readers N s \<noteq> {}) \<and>
     get_value (word s) = fold op_value ops 0"
proof -
  obtain s where s: "lock_run ops lock_start = Inr s" "lock_inv N (fold op_value ops 0) s"
    using lock_run_inv[OF assms(1) lock_start_inv assms(2)] by blast
  have "card (readers N s) < 2 ^ 31" using card_readers_le[of N s] assms(1) by simp
  then show ?thesis
    using s has_writer_pack has_readers_pack get_value_pack reader_count_pack by (auto simp: lock_inv_def)
qed

theorem lock_run_exclusive_witness:
  "\<exists>s. lock_run sample_lock_ops lock_start = Inr s \<and>
     unat (drop_bit 1 (word s AND READER_COUNT_MASK)) = card (readers 3 s) \<and> get_value (word s) = 7"
proof -
  have ok: "(3 :: nat) < 2 ^ 31" "lock_run_ok 3 sample_lock_ops lock_start" by (simp, code_simp)
  have "fold op_value sample_lock_ops 0 = 7" by (simp add: sample_lock_ops_def)
  then show ?thesis using lock_run_exclusive[OF ok] by auto
qed

end
