(* ===== verification/WalRecovery.thy ===== *)
theory WalRecovery
  imports WalFormat WalLock
begin

text \<open>
  Recovery of the write-ahead log on open (\<open>BuildSharedWal\<close> and \<open>StreamingWalReader\<close> of
  \<^verbatim>\<open>core/storage/sqlite3_ondisk.rs\<close>), and the shared state of the log from
  \<^verbatim>\<open>core/storage/wal.rs\<close> that it fills. The file is a byte list; a failed read is the
  argument \<open>None\<close> of the completion handlers. Frame numbers are unbounded, since a log of
  \<open>2 ^ 64\<close> frames cannot exist; a hash map of frame lists is an association list in
  iteration order.
\<close>

section \<open>Shared state of the log\<close>

record overflow_fallback_coverage =
  cov_checkpoint_seq :: u32
  cov_salt_1 :: u32
  cov_salt_2 :: u32
  cov_max_frame :: nat
  cov_valid :: bool

definition coverage_clear :: overflow_fallback_coverage where
  "coverage_clear =
     \<lparr>cov_checkpoint_seq = 0, cov_salt_1 = 0, cov_salt_2 = 0, cov_max_frame = 0, cov_valid = False\<rparr>"

definition coverage_record :: "u32 \<Rightarrow> u32 \<Rightarrow> u32 \<Rightarrow> nat \<Rightarrow> overflow_fallback_coverage" where
  "coverage_record seq s1 s2 max_frame =
     (if max_frame = 0 then coverage_clear
      else \<lparr>cov_checkpoint_seq = seq, cov_salt_1 = s1, cov_salt_2 = s2, cov_max_frame = max_frame, cov_valid = True\<rparr>)"

text \<open>\<open>WalSharedMetadata\<close> and \<open>WalSharedRuntime\<close> in one record.\<close>

type_synonym frame_map = "(nat \<times> nat list) list"

record wal_file_shared =
  enabled :: bool
  shared_header :: wal_header
  min_frame :: nat
  max_frame :: nat
  nbackfills :: nat
  transaction_count :: nat
  last_checksum :: "u32 \<times> u32"
  loaded :: bool
  loaded_from_disk_scan :: bool
  initialized :: bool
  frame_cache :: frame_map
  frame_cache_high_water :: nat
  read_locks :: "u64 list"
  vacuum_lock :: u64
  write_lock :: u64
  checkpoint_lock :: u64
  epoch :: u32
  coverage :: overflow_fallback_coverage

definition init_read_lock :: "u32 \<Rightarrow> u64 result" where
  "init_read_lock v =
     (let (_, w) = lock_write lock_new lock_new
      in and_then (set_value_exclusive v w) lock_unlock)"

fun init_read_locks :: "u32 list \<Rightarrow> u64 list result" where
  "init_read_locks [] = Inr []"
| "init_read_locks (v # vs) =
     and_then (init_read_lock v) (\<lambda>l. and_then (init_read_locks vs) (\<lambda>ls. Inr (l # ls)))"

definition shared_begin :: "bool \<Rightarrow> wal_file_shared result" where
  "shared_begin big =
     and_then (init_read_locks (map (\<lambda>i. if i < 2 then 0 else READMARK_NOT_USED) [0..<5])) (\<lambda>locks.
     Inr \<lparr>enabled = True, shared_header = wal_header_new big, min_frame = 0, max_frame = 0, nbackfills = 0,
       transaction_count = 0, last_checksum = (0, 0), loaded = False, loaded_from_disk_scan = True,
       initialized = False, frame_cache = [], frame_cache_high_water = 0, read_locks = locks,
       vacuum_lock = lock_new, write_lock = lock_new, checkpoint_lock = lock_new, epoch = 0,
       coverage = coverage_clear\<rparr>)"

section \<open>The streaming reader\<close>

record streaming_state =
  frame_idx :: nat
  cumulative_checksum :: "u32 \<times> u32"
  last_valid_checksum :: "u32 \<times> u32"
  last_valid_frame :: nat
  pending_frames :: frame_map
  st_page_size :: nat
  use_native_endian :: bool
  header_valid :: bool

definition streaming_new :: streaming_state where
  "streaming_new =
     \<lparr>frame_idx = 1, cumulative_checksum = (0, 0), last_valid_checksum = (0, 0), last_valid_frame = 0,
      pending_frames = [], st_page_size = 0, use_native_endian = False, header_valid = False\<rparr>"

text \<open>\<open>entry(key).or_default().extend(frames)\<close>\<close>

fun entry_extend :: "nat \<Rightarrow> nat list \<Rightarrow> frame_map \<Rightarrow> frame_map" where
  "entry_extend k vs [] = [(k, vs)]"
| "entry_extend k vs ((k', ws) # m) = (if k' = k then (k', ws @ vs) # m else (k', ws) # entry_extend k vs m)"

fun flush_entries :: "nat \<Rightarrow> frame_map \<Rightarrow> frame_map \<Rightarrow> frame_map" where
  "flush_entries lim [] cache = cache"
| "flush_entries lim ((page, frames) # pending) cache =
     (let frames = filter (\<lambda>f. f \<le> lim) frames
      in flush_entries lim pending (if frames \<noteq> [] then entry_extend page frames cache else cache))"

definition flush_pending_frames ::
    "streaming_state \<times> wal_file_shared \<Rightarrow> streaming_state \<times> wal_file_shared" where
  "flush_pending_frames = (\<lambda>(st, sh).
     if pending_frames st = [] then (st, sh)
     else (st\<lparr>pending_frames := []\<rparr>,
           sh\<lparr>frame_cache := flush_entries (last_valid_frame st) (pending_frames st) (frame_cache sh),
              max_frame := last_valid_frame st,
              frame_cache_high_water := max (frame_cache_high_water sh) (last_valid_frame st)\<rparr>))"

text \<open>One pass of the loop body, for a frame at \<open>pos\<close>: \<open>None\<close> is \<open>break\<close>.\<close>

definition process_frame ::
    "bool \<Rightarrow> byte list \<Rightarrow> wal_header \<Rightarrow> bool \<Rightarrow> nat \<Rightarrow> streaming_state \<times> wal_file_shared \<Rightarrow>
     (streaming_state \<times> wal_file_shared) option result" where
  "process_frame big buf h use_native pos = (\<lambda>(st, sh).
     let fh = slice buf pos WAL_FRAME_HEADER_SIZE;
         page = slice buf (pos + WAL_FRAME_HEADER_SIZE) (st_page_size st);
         page_no = be_u32 (slice fh 0 4);
         dbsize = be_u32 (slice fh 4 4);
         s1 = be_u32 (slice fh 8 4);
         s2 = be_u32 (slice fh 12 4);
         c1 = be_u32 (slice fh 16 4);
         c2 = be_u32 (slice fh 20 4)
     in if page_no = 0 then Inr None
        else if s1 \<noteq> salt_1 h \<or> s2 \<noteq> salt_2 h then Inr None
        else
          and_then (checksum_wal big (slice fh 0 8) (cumulative_checksum st) use_native) (\<lambda>seed.
          and_then (checksum_wal big page seed use_native) (\<lambda>calc.
          if calc \<noteq> (c1, c2) then Inr None
          else
            let st = st\<lparr>cumulative_checksum := calc,
                        pending_frames := entry_extend (unat page_no) [frame_idx st] (pending_frames st)\<rparr>;
                (st, sh) =
                  (if dbsize > 0
                   then flush_pending_frames (st\<lparr>last_valid_frame := frame_idx st, last_valid_checksum := calc\<rparr>, sh)
                   else (st, sh))
            in Inr (Some (st\<lparr>frame_idx := frame_idx st + 1\<rparr>, sh)))))"

function process_frames_from ::
    "bool \<Rightarrow> byte list \<Rightarrow> wal_header \<Rightarrow> bool \<Rightarrow> nat \<Rightarrow> nat \<Rightarrow> streaming_state \<times> wal_file_shared \<Rightarrow>
     (nat \<times> streaming_state \<times> wal_file_shared) result" where
  "process_frames_from big buf h use_native page_size pos s =
     (let frame_size = WAL_FRAME_HEADER_SIZE + page_size
      in if pos + frame_size \<le> length buf then
           and_then (process_frame big buf h use_native pos s) (\<lambda>res.
           case res of
             None \<Rightarrow> Inr (pos, s)
           | Some s \<Rightarrow> process_frames_from big buf h use_native page_size (pos + frame_size) s)
         else Inr (pos, s))"
  by pat_completeness auto
termination
  by (relation "measure (\<lambda>(_, buf, _, _, _, pos, _). length buf - pos)") (auto simp: WAL_FRAME_HEADER_SIZE_def)

declare process_frames_from.simps [simp del]

definition process_frames ::
    "bool \<Rightarrow> byte list \<Rightarrow> wal_header \<Rightarrow> bool \<Rightarrow> streaming_state \<times> wal_file_shared \<Rightarrow>
     (nat \<times> streaming_state \<times> wal_file_shared) result" where
  "process_frames big buf h use_native s = process_frames_from big buf h use_native (st_page_size (fst s)) 0 s"

definition retain_up_to :: "nat \<Rightarrow> frame_map \<Rightarrow> frame_map" where
  "retain_up_to mx cache =
     (let cache = map (\<lambda>(p, fs). (p, filter (\<lambda>f. f \<le> mx) fs)) cache
      in filter (\<lambda>(p, fs). fs \<noteq> []) cache)"

definition finalize_loading :: "streaming_state \<Rightarrow> wal_file_shared \<Rightarrow> wal_file_shared" where
  "finalize_loading st sh =
     (let mx = last_valid_frame st;
          sh =
            (if mx > 0 then
               let h = shared_header sh
               in sh\<lparr>frame_cache := retain_up_to mx (frame_cache sh),
                     coverage := coverage_record (checkpoint_seq h) (salt_1 h) (salt_2 h) mx\<rparr>
             else sh\<lparr>coverage := coverage_clear\<rparr>);
          sh = sh\<lparr>max_frame := mx, last_checksum := last_valid_checksum st\<rparr>;
          sh = (if header_valid st then sh\<lparr>initialized := True\<rparr> else sh)
      in sh\<lparr>nbackfills := 0, loaded := True\<rparr>)"

record wal_reader =
  reader_state :: streaming_state
  reader_shared :: wal_file_shared
  reader_off :: nat
  reader_page :: nat
  reader_done :: bool

definition finalize_reader :: "wal_reader \<Rightarrow> wal_reader" where
  "finalize_reader r =
     r\<lparr>reader_shared := finalize_loading (reader_state r) (reader_shared r), reader_done := True\<rparr>"

definition parse_wal_header :: "byte list \<Rightarrow> wal_header" where
  "parse_wal_header s =
     \<lparr>magic = be_u32 (slice s 0 4), file_format = be_u32 (slice s 4 4), wal_page_size = be_u32 (slice s 8 4),
      checkpoint_seq = be_u32 (slice s 12 4), salt_1 = be_u32 (slice s 16 4), salt_2 = be_u32 (slice s 20 4),
      checksum_1 = be_u32 (slice s 24 4), checksum_2 = be_u32 (slice s 28 4)\<rparr>"

definition handle_header_read :: "bool \<Rightarrow> byte list option \<Rightarrow> wal_reader \<Rightarrow> wal_reader result" where
  "handle_header_read big res r =
     (case res of
        None \<Rightarrow> Inr (finalize_reader r)
      | Some s \<Rightarrow>
          if length s \<noteq> WAL_HEADER_SIZE then Inr (finalize_reader r)
          else
            let h = parse_wal_header s;
                use_native = (big = (magic h AND 1 \<noteq> 0))
            in and_then (checksum_wal big (slice s 0 24) (0, 0) use_native) (\<lambda>calc.
               let ok = (calc = (checksum_1 h, checksum_2 h));
                   page_sz = unat (wal_page_size h)
               in if PageSize_new page_sz = None \<or> \<not> ok then
                    Inr (finalize_reader (r\<lparr>reader_shared := (reader_shared r)\<lparr>shared_header := wal_header_new big\<rparr>\<rparr>))
                  else
                    Inr (r\<lparr>reader_shared := (reader_shared r)\<lparr>shared_header := h\<rparr>,
                           reader_state := (reader_state r)\<lparr>st_page_size := page_sz, use_native_endian := use_native,
                             cumulative_checksum := (checksum_1 h, checksum_2 h),
                             last_valid_checksum := (checksum_1 h, checksum_2 h), header_valid := True\<rparr>,
                           reader_off := WAL_HEADER_SIZE, reader_page := page_sz\<rparr>)))"

definition handle_chunk_read :: "bool \<Rightarrow> nat \<Rightarrow> byte list option \<Rightarrow> wal_reader \<Rightarrow> wal_reader result" where
  "handle_chunk_read big file_size res r =
     (case res of
        None \<Rightarrow> Inr (finalize_reader r)
      | Some buf \<Rightarrow>
          let h = shared_header (reader_shared r);
              use_native = use_native_endian (reader_state r)
          in and_then (process_frames big buf h use_native (reader_state r, reader_shared r)) (\<lambda>(consumed, st, sh).
             let r = r\<lparr>reader_state := st, reader_shared := sh, reader_off := reader_off r + consumed\<rparr>
             in Inr (if consumed < length buf \<or> reader_off r \<ge> file_size then finalize_reader r else r)))"

text \<open>The size of the next read; an empty read ends the scan.\<close>

definition submit_one_chunk :: "nat \<Rightarrow> nat \<Rightarrow> nat \<Rightarrow> nat result" where
  "submit_one_chunk page_size file_size offset =
     (if page_size = 0 then Inl InternalError
      else
        let frame_size = WAL_FRAME_HEADER_SIZE + page_size
        in if frame_size = 0 then Inl InternalError
           else
             let base = 16 * 1024 * 1024;
                 aligned = (base div frame_size) * frame_size
             in Inr (min (max aligned frame_size) (file_size - offset)))"

function chunk_loop :: "bool \<Rightarrow> byte list \<Rightarrow> wal_reader \<Rightarrow> wal_reader result" where
  "chunk_loop big file r =
     (if reader_done r then Inr r
      else
        let offset = reader_off r
        in if offset \<ge> length file then Inr (finalize_reader r)
           else
             and_then (submit_one_chunk (reader_page r) (length file) offset) (\<lambda>read_size.
             and_then (if read_size = 0 then Inr r
                       else handle_chunk_read big (length file) (Some (slice file offset read_size)) r) (\<lambda>r'.
             if reader_off r' \<le> offset then Inr (finalize_reader r')
             else chunk_loop big file r')))"
  by pat_completeness auto
termination
  by (relation "measure (\<lambda>(_, file, r). length file - reader_off r)") auto

declare chunk_loop.simps [simp del]

definition build_shared_wal :: "bool \<Rightarrow> byte list \<Rightarrow> wal_file_shared result" where
  "build_shared_wal big file =
     and_then (shared_begin big) (\<lambda>sh.
     if length file < WAL_HEADER_SIZE then Inr (sh\<lparr>loaded := True\<rparr>)
     else
       let r = \<lparr>reader_state = streaming_new, reader_shared = sh, reader_off = 0, reader_page = 0, reader_done = False\<rparr>
       in and_then (handle_header_read big (Some (slice file 0 WAL_HEADER_SIZE)) r) (\<lambda>r.
          and_then (chunk_loop big file r) (\<lambda>r. Inr (reader_shared r))))"

section \<open>Reference: the valid frames of a byte string\<close>

text \<open>
  The frames at the start of a byte string whose salts and chained checksums are right, as page
  number, database size and checksum.
\<close>

type_synonym frame_info = "u32 \<times> u32 \<times> (u32 \<times> u32)"

definition frame_at :: "wal_header \<Rightarrow> nat \<Rightarrow> u32 \<times> u32 \<Rightarrow> byte list \<Rightarrow> frame_info option" where
  "frame_at h ps ck bs =
     (if length bs < WAL_FRAME_HEADER_SIZE + ps then None
      else
        let pn = be_u32 (slice bs 0 4);
            db = be_u32 (slice bs 4 4);
            c = frame_checksum h ck pn db (slice bs WAL_FRAME_HEADER_SIZE ps)
        in if pn = 0 \<or> be_u32 (slice bs 8 4) \<noteq> salt_1 h \<or> be_u32 (slice bs 12 4) \<noteq> salt_2 h \<or>
              (be_u32 (slice bs 16 4), be_u32 (slice bs 20 4)) \<noteq> c then None
           else Some (pn, db, c))"

lemma frame_at_length: "frame_at h ps ck bs = Some f \<Longrightarrow> WAL_FRAME_HEADER_SIZE + ps \<le> length bs"
  by (auto simp: frame_at_def split: if_splits)

function scan_frames :: "wal_header \<Rightarrow> nat \<Rightarrow> u32 \<times> u32 \<Rightarrow> byte list \<Rightarrow> frame_info list" where
  "scan_frames h ps ck bs =
     (case frame_at h ps ck bs of
        None \<Rightarrow> []
      | Some (pn, db, c) \<Rightarrow> (pn, db, c) # scan_frames h ps c (drop (WAL_FRAME_HEADER_SIZE + ps) bs))"
  by pat_completeness auto
termination
  by (relation "measure (\<lambda>(_, _, _, bs). length bs)")
    (auto dest!: frame_at_length simp: WAL_FRAME_HEADER_SIZE_def)

declare scan_frames.simps [simp del]

definition apply_frame :: "frame_info \<Rightarrow> streaming_state \<times> wal_file_shared \<Rightarrow> streaming_state \<times> wal_file_shared" where
  "apply_frame = (\<lambda>(pn, db, c) (st, sh).
     let st = st\<lparr>cumulative_checksum := c,
                 pending_frames := entry_extend (unat pn) [frame_idx st] (pending_frames st)\<rparr>;
         (st, sh) =
           (if db > 0
            then flush_pending_frames (st\<lparr>last_valid_frame := frame_idx st, last_valid_checksum := c\<rparr>, sh)
            else (st, sh))
     in (st\<lparr>frame_idx := frame_idx st + 1\<rparr>, sh))"

lemma scan_frames_short: "length bs < WAL_FRAME_HEADER_SIZE + ps \<Longrightarrow> scan_frames h ps ck bs = []"
  by (simp add: scan_frames.simps frame_at_def)

lemma length_scan_frames: "length (scan_frames h ps ck bs) * (WAL_FRAME_HEADER_SIZE + ps) \<le> length bs"
proof (induction h ps ck bs rule: scan_frames.induct)
  case (1 h ps ck bs)
  show ?case
  proof (cases "frame_at h ps ck bs")
    case (Some f)
    obtain pn db c where f: "f = (pn, db, c)" by (cases f)
    show ?thesis
      using frame_at_length[OF Some] 1[OF Some f[symmetric] refl] Some f
      by (simp add: scan_frames.simps[of h ps ck bs])
  qed (simp add: scan_frames.simps[of h ps ck bs])
qed

lemma slice_drop: "slice (drop pos buf) i n = slice buf (pos + i) n"
  by (simp add: slice_def add.commute)

lemma header_words:
  "length bs \<ge> 8 \<Longrightarrow> u32_to_be (be_u32 (slice bs 0 4)) @ u32_to_be (be_u32 (slice bs 4 4)) = slice bs 0 8"
  using slice_append[of bs 0 4 4] by simp

lemma process_frame_scan:
  assumes "ps mod 8 = 0" "pos + (WAL_FRAME_HEADER_SIZE + ps) \<le> length buf" "st_page_size st = ps"
    "use_native = (big = wal_be h)"
  shows "process_frame big buf h use_native pos (st, sh) =
     Inr (map_option (\<lambda>f. apply_frame f (st, sh)) (frame_at h ps (cumulative_checksum st) (drop pos buf)))"
proof -
  define bs where "bs = drop pos buf"
  have len: "\<not> length bs < WAL_FRAME_HEADER_SIZE + ps" "8 \<le> length bs"
    using assms(2) by (auto simp: WAL_FRAME_HEADER_SIZE_def bs_def)
  have page: "slice buf (pos + WAL_FRAME_HEADER_SIZE) ps = slice bs WAL_FRAME_HEADER_SIZE ps" by (simp add: slice_drop bs_def)
  have native: "(use_native = big) = wal_be h" using assms(4) by auto
  have l8: "length (slice bs 0 8) mod 8 = 0" "length (slice bs WAL_FRAME_HEADER_SIZE ps) mod 8 = 0"
    using assms(1) len by (auto simp: WAL_FRAME_HEADER_SIZE_def)
  have ck: "and_then (checksum_wal big (slice bs 0 8) ck use_native) (\<lambda>seed.
      and_then (checksum_wal big (slice bs WAL_FRAME_HEADER_SIZE ps) seed use_native) f) =
      f (frame_checksum h ck (be_u32 (slice bs 0 4)) (be_u32 (slice bs 4 4)) (slice bs WAL_FRAME_HEADER_SIZE ps))" for ck f
    using l8 by (simp add: checksum_wal_eq native frame_checksum_split header_words[OF len(2)])
  have hd: "slice (slice buf pos WAL_FRAME_HEADER_SIZE) i n = slice bs i n" if "i + n \<le> 24" for i n
    using slice_slice[OF that, of buf pos] by (simp add: WAL_FRAME_HEADER_SIZE_def bs_def slice_drop)
  show ?thesis
    unfolding process_frame_def apply_frame_def frame_at_def bs_def[symmetric]
    using len(1) assms(3) by (auto simp: hd page ck Let_def split: prod.splits)
qed

lemma flush_frame:
  assumes "flush_pending_frames (st, sh) = (st', sh')"
  shows "st_page_size st' = st_page_size st" "cumulative_checksum st' = cumulative_checksum st"
    "use_native_endian st' = use_native_endian st" "header_valid st' = header_valid st"
    "shared_header sh' = shared_header sh" "frame_idx st' = frame_idx st"
    "last_valid_frame st' = last_valid_frame st" "last_valid_checksum st' = last_valid_checksum st"
  using assms by (auto simp: flush_pending_frames_def split: if_splits)

lemma apply_frame_frame:
  assumes "apply_frame (pn, db, c) (st, sh) = (st', sh')"
  shows "st_page_size st' = st_page_size st" "cumulative_checksum st' = c"
    "use_native_endian st' = use_native_endian st" "header_valid st' = header_valid st"
    "shared_header sh' = shared_header sh"
proof -
  define st1 where "st1 = st\<lparr>cumulative_checksum := c,
    pending_frames := entry_extend (unat pn) [frame_idx st] (pending_frames st)\<rparr>"
  obtain st2 sh2 where f: "flush_pending_frames (st1\<lparr>last_valid_frame := frame_idx st1, last_valid_checksum := c\<rparr>, sh) = (st2, sh2)"
    by fastforce
  have "(st', sh') = (if db > 0 then (st2\<lparr>frame_idx := frame_idx st2 + 1\<rparr>, sh2) else (st1\<lparr>frame_idx := frame_idx st1 + 1\<rparr>, sh))"
    using assms f by (simp add: apply_frame_def Let_def st1_def split: if_splits)
  then show "st_page_size st' = st_page_size st" "cumulative_checksum st' = c"
    "use_native_endian st' = use_native_endian st" "header_valid st' = header_valid st"
    "shared_header sh' = shared_header sh"
    using flush_frame[OF f] by (auto simp: st1_def split: if_splits)
qed

lemma process_frames_scan:
  assumes "ps mod 8 = 0" "use_native = (big = wal_be h)"
  shows "st_page_size st = ps \<Longrightarrow>
     process_frames_from big buf h use_native ps pos (st, sh) =
       (let fs = scan_frames h ps (cumulative_checksum st) (drop pos buf)
        in Inr (pos + length fs * (WAL_FRAME_HEADER_SIZE + ps), fold apply_frame fs (st, sh)))"
proof (induction "length buf - pos" arbitrary: pos st sh rule: less_induct)
  case less
  let ?fsz = "WAL_FRAME_HEADER_SIZE + ps"
  show ?case
  proof (cases "pos + ?fsz \<le> length buf")
    case False
    then have "scan_frames h ps (cumulative_checksum st) (drop pos buf) = []" by (intro scan_frames_short) (auto simp: WAL_FRAME_HEADER_SIZE_def)
    then show ?thesis using False by (subst process_frames_from.simps) (simp add: Let_def)
  next
    case True
    note step = process_frame_scan[OF assms(1) True less.prems assms(2), of sh]
    show ?thesis
    proof (cases "frame_at h ps (cumulative_checksum st) (drop pos buf)")
      case None
      then show ?thesis using True step
        by (subst process_frames_from.simps) (simp add: Let_def scan_frames.simps[of _ _ _ "drop pos buf"])
    next
      case (Some f)
      obtain pn db c where f: "f = (pn, db, c)" by (cases f)
      obtain st' sh' where s': "apply_frame f (st, sh) = (st', sh')" by fastforce
      have fr: "st_page_size st' = ps" "cumulative_checksum st' = c"
        using apply_frame_frame[OF s'[unfolded f]] less.prems by simp_all
      have "length buf - (pos + ?fsz) < length buf - pos" using True by (simp add: WAL_FRAME_HEADER_SIZE_def)
      note ih = less.hyps[OF this fr(1), of sh', unfolded fr(2)]
      show ?thesis
        using True step ih Some s' f
        by (subst process_frames_from.simps, subst scan_frames.simps) (simp add: Let_def ac_simps)
    qed
  qed
qed

text \<open>The checksum that the frame after \<open>fs\<close> chains from.\<close>

definition chain_end :: "u32 \<times> u32 \<Rightarrow> frame_info list \<Rightarrow> u32 \<times> u32" where
  "chain_end ck fs = fold (\<lambda>(_, _, c) _. c) fs ck"

lemma chain_end_simps [simp]:
  "chain_end ck [] = ck" "chain_end ck ((pn, db, c) # fs) = chain_end c fs"
  "chain_end ck (fs @ gs) = chain_end (chain_end ck fs) gs"
  by (simp_all add: chain_end_def)

lemma frame_at_append: "WAL_FRAME_HEADER_SIZE + ps \<le> length xs \<Longrightarrow> frame_at h ps ck (xs @ ys) = frame_at h ps ck xs"
  by (simp add: frame_at_def slice_append_left WAL_FRAME_HEADER_SIZE_def)

lemma scan_frames_append:
  "length xs = k * (WAL_FRAME_HEADER_SIZE + ps) \<Longrightarrow>
     scan_frames h ps ck (xs @ ys) =
       (let fs = scan_frames h ps ck xs
        in if length fs = k then fs @ scan_frames h ps (chain_end ck fs) ys else fs)"
proof (induction k arbitrary: xs ck)
  case 0
  then show ?case by (simp add: scan_frames_short WAL_FRAME_HEADER_SIZE_def)
next
  case (Suc k)
  let ?fsz = "WAL_FRAME_HEADER_SIZE + ps"
  have at: "frame_at h ps ck (xs @ ys) = frame_at h ps ck xs" using Suc.prems by (intro frame_at_append) simp
  have d: "drop ?fsz (xs @ ys) = drop ?fsz xs @ ys" using Suc.prems by simp
  have ih: "scan_frames h ps c (drop ?fsz xs @ ys) =
      (let fs = scan_frames h ps c (drop ?fsz xs)
       in if length fs = k then fs @ scan_frames h ps (chain_end c fs) ys else fs)" for c
    using Suc.IH[of "drop ?fsz xs" c] Suc.prems by simp
  show ?case
    by (subst (1 2) scan_frames.simps) (auto simp: at d ih Let_def simp del: drop_append split: option.splits)
qed

lemma fold_apply_frame:
  assumes "fold apply_frame fs (st, sh) = (st', sh')"
  shows "st_page_size st' = st_page_size st \<and> cumulative_checksum st' = chain_end (cumulative_checksum st) fs \<and>
    use_native_endian st' = use_native_endian st \<and> header_valid st' = header_valid st \<and> shared_header sh' = shared_header sh"
  using assms
proof (induction fs arbitrary: st sh)
  case (Cons f fs)
  obtain pn db c where f: "f = (pn, db, c)" by (cases f)
  obtain st1 sh1 where s1: "apply_frame f (st, sh) = (st1, sh1)" by fastforce
  show ?case using Cons apply_frame_frame[OF s1[unfolded f]] s1 f by auto
qed simp

lemma retain_idem [simp]: "retain_up_to n (retain_up_to n c) = retain_up_to n c"
  unfolding retain_up_to_def Let_def by (induction c) auto

lemma finalize_loading_idem [simp]: "finalize_loading st (finalize_loading st sh) = finalize_loading st sh"
  by (simp add: finalize_loading_def Let_def)

definition scanned :: "byte list \<Rightarrow> wal_reader \<Rightarrow> wal_file_shared" where
  "scanned file r =
     (let st = reader_state r;
          fs = scan_frames (shared_header (reader_shared r)) (st_page_size st) (cumulative_checksum st) (drop (reader_off r) file);
          (st, sh) = fold apply_frame fs (st, reader_shared r)
      in finalize_loading st sh)"

lemma submit_one_chunk_cases:
  assumes "0 < ps" "off < len"
  obtains "submit_one_chunk ps len off = Inr (len - off)"
  | k where "submit_one_chunk ps len off = Inr (Suc k * (WAL_FRAME_HEADER_SIZE + ps))"
      "Suc k * (WAL_FRAME_HEADER_SIZE + ps) < len - off"
proof -
  let ?f = "WAL_FRAME_HEADER_SIZE + ps"
  define m where "m = (16 * 1024 * 1024 div ?f)"
  have "max (m * ?f) ?f = max m 1 * ?f" by (cases m) (auto simp: max_def)
  moreover obtain k where "max m 1 = Suc k" by (cases m) auto
  ultimately have "submit_one_chunk ps len off = Inr (min (Suc k * ?f) (len - off))"
    using assms by (simp add: submit_one_chunk_def m_def Let_def)
  then show ?thesis using that by (cases "Suc k * ?f < len - off") (auto simp: min_def)
qed

lemma handle_chunk_eq:
  assumes "ps mod 8 = 0" "st_page_size (reader_state r) = ps"
    "use_native_endian (reader_state r) = (big = wal_be (shared_header (reader_shared r)))"
  shows "handle_chunk_read big len (Some buf) r =
     (let fs = scan_frames (shared_header (reader_shared r)) ps (cumulative_checksum (reader_state r)) buf;
          (st, sh) = fold apply_frame fs (reader_state r, reader_shared r);
          n = length fs * (WAL_FRAME_HEADER_SIZE + ps);
          r = r\<lparr>reader_state := st, reader_shared := sh, reader_off := reader_off r + n\<rparr>
      in Inr (if n < length buf \<or> reader_off r \<ge> len then finalize_reader r else r))"
  using process_frames_scan[OF assms(1,3,2), of buf 0 "reader_shared r"] assms(2)
  by (simp add: handle_chunk_read_def process_frames_def Let_def split: prod.splits)

lemma chunk_loop_done: "reader_done r \<Longrightarrow> chunk_loop big file r = Inr r"
  by (simp add: chunk_loop.simps)

lemma finalize_reader_fields [simp]:
  "reader_done (finalize_reader r)" "reader_off (finalize_reader r) = reader_off r"
  "reader_shared (finalize_reader r) = finalize_loading (reader_state r) (reader_shared r)"
  "reader_state (finalize_reader r) = reader_state r"
  by (simp_all add: finalize_reader_def)

text \<open>One round of the loop, for a chunk of \<open>n\<close> bytes.\<close>

definition chunk_frames :: "byte list \<Rightarrow> wal_reader \<Rightarrow> nat \<Rightarrow> frame_info list" where
  "chunk_frames file r n =
     scan_frames (shared_header (reader_shared r)) (st_page_size (reader_state r))
       (cumulative_checksum (reader_state r)) (slice file (reader_off r) n)"

definition chunk_next :: "byte list \<Rightarrow> wal_reader \<Rightarrow> nat \<Rightarrow> wal_reader" where
  "chunk_next file r n =
     (let (st, sh) = fold apply_frame (chunk_frames file r n) (reader_state r, reader_shared r)
      in r\<lparr>reader_state := st, reader_shared := sh,
           reader_off := reader_off r + length (chunk_frames file r n) * (WAL_FRAME_HEADER_SIZE + st_page_size (reader_state r))\<rparr>)"

definition reader_ok :: "bool \<Rightarrow> nat \<Rightarrow> wal_reader \<Rightarrow> bool" where
  "reader_ok big ps r \<longleftrightarrow>
     ps mod 8 = 0 \<and> 0 < ps \<and> \<not> reader_done r \<and> reader_page r = ps \<and> st_page_size (reader_state r) = ps \<and>
     use_native_endian (reader_state r) = (big = wal_be (shared_header (reader_shared r)))"

lemma chunk_next_fields:
  assumes "reader_ok big ps r"
  shows "reader_ok big ps (chunk_next file r n)"
    "reader_off (chunk_next file r n) = reader_off r + length (chunk_frames file r n) * (WAL_FRAME_HEADER_SIZE + ps)"
    "shared_header (reader_shared (chunk_next file r n)) = shared_header (reader_shared r)"
    "cumulative_checksum (reader_state (chunk_next file r n)) = chain_end (cumulative_checksum (reader_state r)) (chunk_frames file r n)"
    "(reader_state (chunk_next file r n), reader_shared (chunk_next file r n)) =
       fold apply_frame (chunk_frames file r n) (reader_state r, reader_shared r)"
proof -
  obtain st' sh' where s': "fold apply_frame (chunk_frames file r n) (reader_state r, reader_shared r) = (st', sh')" by fastforce
  note fr = fold_apply_frame[OF s']
  show "reader_ok big ps (chunk_next file r n)"
    "reader_off (chunk_next file r n) = reader_off r + length (chunk_frames file r n) * (WAL_FRAME_HEADER_SIZE + ps)"
    "shared_header (reader_shared (chunk_next file r n)) = shared_header (reader_shared r)"
    "cumulative_checksum (reader_state (chunk_next file r n)) = chain_end (cumulative_checksum (reader_state r)) (chunk_frames file r n)"
    "(reader_state (chunk_next file r n), reader_shared (chunk_next file r n)) =
       fold apply_frame (chunk_frames file r n) (reader_state r, reader_shared r)"
    using assms fr by (auto simp: chunk_next_def s' reader_ok_def)
qed

lemma chunk_loop_step:
  assumes "reader_ok big ps r" "reader_off r < length file"
    "submit_one_chunk ps (length file) (reader_off r) = Inr n" "n \<noteq> 0"
  defines "r1 \<equiv> chunk_next file r n"
    and "stop \<equiv> length (chunk_frames file r n) * (WAL_FRAME_HEADER_SIZE + ps) < length (slice file (reader_off r) n) \<or>
       reader_off (chunk_next file r n) \<ge> length file"
  shows "chunk_loop big file r =
     (let r' = (if stop then finalize_reader r1 else r1)
      in if reader_off r' \<le> reader_off r then Inr (finalize_reader r') else chunk_loop big file r')"
proof -
  have r: "ps mod 8 = 0" "st_page_size (reader_state r) = ps" "\<not> reader_done r" "reader_page r = ps"
    "use_native_endian (reader_state r) = (big = wal_be (shared_header (reader_shared r)))"
    using assms(1) by (simp_all add: reader_ok_def)
  have "handle_chunk_read big (length file) (Some (slice file (reader_off r) n)) r = Inr (if stop then finalize_reader r1 else r1)"
    using handle_chunk_eq[OF r(1,2,5), of "length file" "slice file (reader_off r) n"] r(2)
    by (auto simp: stop_def r1_def chunk_next_def chunk_frames_def Let_def split: prod.splits)
  then show ?thesis
    using assms(2-4) r(3,4) by (subst chunk_loop.simps) (simp add: Let_def)
qed

lemma chunk_loop_stop:
  assumes "reader_ok big ps r" "reader_off r < length file"
    "submit_one_chunk ps (length file) (reader_off r) = Inr n" "n \<noteq> 0"
    "length (chunk_frames file r n) * (WAL_FRAME_HEADER_SIZE + ps) < length (slice file (reader_off r) n) \<or>
       reader_off (chunk_next file r n) \<ge> length file"
  shows "\<exists>r'. chunk_loop big file r = Inr r' \<and>
     reader_shared r' = (case fold apply_frame (chunk_frames file r n) (reader_state r, reader_shared r) of
        (st, sh) \<Rightarrow> finalize_loading st sh)"
proof -
  have "reader_shared (finalize_reader (chunk_next file r n)) =
      (case fold apply_frame (chunk_frames file r n) (reader_state r, reader_shared r) of (st, sh) \<Rightarrow> finalize_loading st sh)"
    using chunk_next_fields(5)[OF assms(1), of "file" n] by (auto split: prod.splits)
  moreover have "reader_shared (finalize_reader (finalize_reader x)) = reader_shared (finalize_reader x)" for x by simp
  moreover have "chunk_loop big file r \<in>
      {Inr (finalize_reader (finalize_reader (chunk_next file r n))), Inr (finalize_reader (chunk_next file r n))}"
    unfolding chunk_loop_step[OF assms(1-4)] using assms(5) by (auto simp: Let_def chunk_loop_done)
  ultimately show ?thesis by (metis empty_iff insert_iff)
qed

text \<open>Reading in chunks is the same as scanning the rest of the file at once.\<close>

lemma chunk_loop_scan:
  assumes "reader_ok big ps r"
  shows "\<exists>r'. chunk_loop big file r = Inr r' \<and> reader_shared r' = scanned file r"
  using assms
proof (induction "length file - reader_off r" arbitrary: r rule: less_induct)
  case less
  define F where "F = WAL_FRAME_HEADER_SIZE + ps"
  have F: "F \<noteq> 0" by (simp add: F_def WAL_FRAME_HEADER_SIZE_def)
  let ?off = "reader_off r" and ?h = "shared_header (reader_shared r)" and ?st = "reader_state r"
  have r: "0 < ps" "st_page_size ?st = ps" "\<not> reader_done r" using less.prems by (simp_all add: reader_ok_def)
  show ?case
  proof (cases "?off < length file")
    case False
    then show ?thesis using r
      by (subst chunk_loop.simps) (simp add: scanned_def scan_frames_short WAL_FRAME_HEADER_SIZE_def)
  next
    case True
    show ?thesis
    proof (cases rule: submit_one_chunk_cases[OF r(1) True])
      case 1
      let ?n = "length file - ?off"
      have fs: "chunk_frames file r ?n = scan_frames ?h ps (cumulative_checksum ?st) (drop ?off file)"
        using r(2) by (simp add: chunk_frames_def slice_def)
      have "length (chunk_frames file r ?n) * (WAL_FRAME_HEADER_SIZE + ps) < length (slice file ?off ?n) \<or>
          reader_off (chunk_next file r ?n) \<ge> length file"
        using True by (auto simp: chunk_next_fields(2)[OF less.prems])
      from chunk_loop_stop[OF less.prems True 1 _ this] True r(2) show ?thesis by (simp add: scanned_def fs Let_def)
    next
      case (2 k)
      define n where "n = Suc k * F"
      have n: "submit_one_chunk ps (length file) ?off = Inr n" "n < length file - ?off" "n \<noteq> 0"
        using 2 F unfolding n_def F_def by simp_all auto
      have len: "length (slice file ?off n) = Suc k * (WAL_FRAME_HEADER_SIZE + ps)"
        using n(2) unfolding n_def F_def by simp
      have split: "drop ?off file = slice file ?off n @ drop (?off + n) file"
        using append_take_drop_id[of n "drop ?off file"] by (simp add: slice_def add.commute)
      have all: "scan_frames ?h ps (cumulative_checksum ?st) (drop ?off file) =
          (if length (chunk_frames file r n) = Suc k
           then chunk_frames file r n @ scan_frames ?h ps (chain_end (cumulative_checksum ?st) (chunk_frames file r n)) (drop (?off + n) file)
           else chunk_frames file r n)"
        using scan_frames_append[OF len, of ?h] r(2) by (simp only: split chunk_frames_def Let_def)
      have le: "length (chunk_frames file r n) \<le> Suc k"
        using length_scan_frames[of ?h ps "cumulative_checksum ?st" "slice file ?off n"] len F r(2)
        by (simp only: chunk_frames_def mult_le_cancel2 F_def)
      show ?thesis
      proof (cases "length (chunk_frames file r n) = Suc k")
        case False
        then have "length (chunk_frames file r n) * (WAL_FRAME_HEADER_SIZE + ps) < length (slice file ?off n)"
          unfolding len using le F by (simp only: mult_less_cancel2 F_def) auto
        from chunk_loop_stop[OF less.prems True n(1,3) disjI1[OF this]] show ?thesis
          using all False r(2) by (simp add: scanned_def Let_def)
      next
        case full: True
        note nx = chunk_next_fields[OF less.prems, of "file" n]
        have off: "reader_off (chunk_next file r n) = ?off + n" using nx(2) full by (simp add: n_def F_def)
        have "\<not> (length (chunk_frames file r n) * (WAL_FRAME_HEADER_SIZE + ps) < length (slice file ?off n) \<or>
            reader_off (chunk_next file r n) \<ge> length file)"
          unfolding len off full using n(2) by simp
        then have "chunk_loop big file r = chunk_loop big file (chunk_next file r n)"
          using chunk_loop_step[OF less.prems True n(1,3)] n(3) off by (simp only: if_False Let_def)  simp
        moreover have "\<exists>r'. chunk_loop big file (chunk_next file r n) = Inr r' \<and> reader_shared r' = scanned file (chunk_next file r n)"
          by (rule less.hyps) (use off n nx(1) in auto)
        moreover have "scanned file (chunk_next file r n) = scanned file r"
          using all full nx(1,3,4,5) r(2) off by (simp add: scanned_def reader_ok_def Let_def)
        ultimately show ?thesis by simp
      qed
    qed
  qed
qed

end
