(* ===== verification/WalCommitted.thy ===== *)
theory WalCommitted
  imports WalRecovery
begin

text \<open>
  What recovery finds: exactly the frames up to the last commit frame of the valid prefix of the
  log, whatever follows it. The log is written by \<open>prepare_wal_frame\<close>; a crash cuts it at an
  arbitrary byte or leaves frames of an older generation behind it.
\<close>

section \<open>Frame maps\<close>

definition frames_of :: "frame_map \<Rightarrow> nat \<Rightarrow> nat list" where
  "frames_of m p = (case map_of m p of None \<Rightarrow> [] | Some fs \<Rightarrow> fs)"

lemma frames_of_simps [simp]:
  "frames_of [] p = []" "frames_of ((k, fs) # m) p = (if k = p then fs else frames_of m p)"
  by (simp_all add: frames_of_def)

lemma frames_of_extend [simp]: "frames_of (entry_extend k vs m) p = frames_of m p @ (if p = k then vs else [])"
  by (induction k vs m rule: entry_extend.induct) auto

lemma keys_extend: "fst ` set (entry_extend k vs m) = insert k (fst ` set m)"
  by (induction k vs m rule: entry_extend.induct) auto

lemma distinct_extend: "distinct (map fst m) \<Longrightarrow> distinct (map fst (entry_extend k vs m))"
proof (induction k vs m rule: entry_extend.induct)
  case (2 k vs k' ws m)
  then show ?case using keys_extend[of k vs m] by auto
qed simp

lemma frames_of_absent: "p \<notin> fst ` set m \<Longrightarrow> frames_of m p = []"
  using map_of_eq_None_iff[of m p] by (simp add: frames_of_def)

lemma frames_of_flush:
  "distinct (map fst pend) \<Longrightarrow>
     frames_of (flush_entries n pend cache) p = frames_of cache p @ filter (\<lambda>f. f \<le> n) (frames_of pend p)"
proof (induction n pend cache rule: flush_entries.induct)
  case (2 n page frames pend cache)
  then have "frames_of pend page = []" by (intro frames_of_absent) simp
  with 2 show ?case by (auto simp: Let_def)
qed simp

lemma distinct_flush: "distinct (map fst cache) \<Longrightarrow> distinct (map fst (flush_entries n pend cache))"
  by (induction n pend cache rule: flush_entries.induct) (auto simp: Let_def distinct_extend)

lemma frames_of_retain: "frames_of (retain_up_to n m) p = filter (\<lambda>f. f \<le> n) (frames_of m p)"
  if "distinct (map fst m)"
  using that
proof (induction m arbitrary: p)
  case (Cons a m)
  obtain k fs where a: "a = (k, fs)" by (cases a)
  have "frames_of m k = []" using Cons.prems a by (intro frames_of_absent) simp
  then have "frames_of (retain_up_to n m) k = []" using Cons a by simp
  then show ?case using Cons a by (auto simp: retain_up_to_def Let_def)
qed (simp add: retain_up_to_def)

section \<open>The state after a sequence of frames\<close>

text \<open>The number of frames up to and including the last commit frame.\<close>

fun last_commit :: "(u32 \<times> u32 \<times> 'a) list \<Rightarrow> nat" where
  "last_commit [] = 0"
| "last_commit ((pn, db, c) # fs) = (if last_commit fs > 0 then Suc (last_commit fs) else if db > 0 then 1 else 0)"

lemma last_commit_snoc [simp]:
  "last_commit (fs @ [(pn, db, c)]) = (if db > 0 then Suc (length fs) else last_commit fs)"
  by (induction fs rule: last_commit.induct) auto

lemma last_commit_le: "last_commit fs \<le> length fs"
  by (induction fs rule: last_commit.induct) auto

text \<open>The frames that hold page \<open>p\<close>, numbered from 1.\<close>

definition page_frames :: "(u32 \<times> u32 \<times> 'a) list \<Rightarrow> nat \<Rightarrow> nat \<Rightarrow> nat \<Rightarrow> nat list" where
  "page_frames fs i j p = filter (\<lambda>f. unat (fst (fs ! (f - 1))) = p) [Suc i..<Suc j]"

lemma page_frames_snoc:
  "j \<le> length fs \<Longrightarrow> page_frames (fs @ gs) i j p = page_frames fs i j p"
  unfolding page_frames_def by (rule filter_cong) (auto simp: nth_append)

lemma page_frames_Suc:
  "i \<le> length fs \<Longrightarrow> page_frames (fs @ [(pn, db, c)]) i (Suc (length fs)) p =
     page_frames fs i (length fs) p @ (if p = unat pn then [Suc (length fs)] else [])"
  using page_frames_snoc[of "length fs" fs "[(pn, db, c)]" i p] by (auto simp: page_frames_def)

lemma page_frames_append:
  "i \<le> j \<Longrightarrow> j \<le> k \<Longrightarrow> page_frames fs i j p @ page_frames fs j k p = page_frames fs i k p"
  using upt_add_eq_append[of "Suc i" "Suc j" "k - j"] by (simp add: page_frames_def flip: filter_append)

definition scan_inv :: "u32 \<times> u32 \<Rightarrow> frame_info list \<Rightarrow> streaming_state \<Rightarrow> wal_file_shared \<Rightarrow> bool" where
  "scan_inv ck fs st sh \<longleftrightarrow>
     frame_idx st = Suc (length fs) \<and> last_valid_frame st = last_commit fs \<and>
     last_valid_checksum st = chain_end ck (take (last_commit fs) fs) \<and>
     cumulative_checksum st = chain_end ck fs \<and>
     distinct (map fst (frame_cache sh)) \<and> distinct (map fst (pending_frames st)) \<and>
     frame_cache_high_water sh = last_commit fs \<and>
     (\<forall>p. frames_of (frame_cache sh) p = page_frames fs 0 (last_commit fs) p) \<and>
     (\<forall>p. frames_of (pending_frames st) p = page_frames fs (last_commit fs) (length fs) p)"

lemma frames_le: "f \<in> set (page_frames fs i j p) \<Longrightarrow> f \<le> j"
  by (auto simp: page_frames_def)

lemma filter_page_frames: "filter (\<lambda>f. f \<le> j) (page_frames fs i j p) = page_frames fs i j p"
  by (auto simp: filter_id_conv frames_le)

lemma entry_extend_ne [simp]: "entry_extend k vs m \<noteq> []"
  by (cases m) (auto split: prod.splits if_splits)

lemma scan_inv_step:
  assumes "scan_inv ck fs st sh" "apply_frame (pn, db, c) (st, sh) = (st', sh')"
  shows "scan_inv ck (fs @ [(pn, db, c)]) st' sh'"
proof -
  let ?n = "length fs" and ?l = "last_commit fs"
  note inv = assms(1)[unfolded scan_inv_def]
  have l: "?l \<le> ?n" by (rule last_commit_le)
  define pend where "pend = entry_extend (unat pn) [Suc ?n] (pending_frames st)"
  have pend: "frames_of pend p = page_frames (fs @ [(pn, db, c)]) ?l (Suc ?n) p" "distinct (map fst pend)" for p
    using inv page_frames_Suc[OF l] by (auto simp: pend_def distinct_extend)
  have cache: "frames_of (frame_cache sh) p = page_frames (fs @ [(pn, db, c)]) 0 ?l p" for p
    using inv page_frames_snoc[OF l] by simp
  show ?thesis
  proof (cases "db > 0")
    case False
    then have "st' = st\<lparr>cumulative_checksum := c, pending_frames := pend, frame_idx := Suc (Suc ?n)\<rparr>" "sh' = sh"
      using assms(2) inv by (auto simp: apply_frame_def pend_def Let_def)
    then show ?thesis using inv pend cache False l by (simp add: scan_inv_def)
  next
    case True
    then have s': "st' = st\<lparr>cumulative_checksum := c, pending_frames := [], last_valid_frame := Suc ?n,
          last_valid_checksum := c, frame_idx := Suc (Suc ?n)\<rparr>"
      "sh' = sh\<lparr>frame_cache := flush_entries (Suc ?n) pend (frame_cache sh), max_frame := Suc ?n,
          frame_cache_high_water := Suc ?n\<rparr>"
      using assms(2) inv l by (auto simp: apply_frame_def flush_pending_frames_def pend_def Let_def max_def)
    have "frames_of (frame_cache sh') p = page_frames (fs @ [(pn, db, c)]) 0 (Suc ?n) p" for p
      using s' frames_of_flush[OF pend(2)] pend(1) cache page_frames_append[of 0 ?l "Suc ?n"] l by (simp add: filter_page_frames)
    then show ?thesis using inv pend True l s' distinct_flush by (simp add: scan_inv_def page_frames_def)
  qed
qed

lemma scan_inv_fold:
  "scan_inv ck fs st sh \<Longrightarrow> fold apply_frame gs (st, sh) = (st', sh') \<Longrightarrow> scan_inv ck (fs @ gs) st' sh'"
proof (induction gs arbitrary: fs st sh)
  case (Cons g gs)
  obtain pn db c where g: "g = (pn, db, c)" by (cases g)
  obtain st1 sh1 where s1: "apply_frame g (st, sh) = (st1, sh1)" by fastforce
  have "scan_inv ck (fs @ [g]) st1 sh1" using scan_inv_step[OF Cons.prems(1)] s1 g by simp
  then show ?case using Cons.IH[of "fs @ [g]" st1 sh1] Cons.prems(2) s1 by simp
qed simp

section \<open>The header\<close>

definition prefix_words :: "wal_header \<Rightarrow> u32 list" where
  "prefix_words h = [magic h, file_format h, wal_page_size h, checkpoint_seq h, salt_1 h, salt_2 h]"

definition wal_header_ok :: "wal_header \<Rightarrow> bool" where
  "wal_header_ok h \<longleftrightarrow>
     PageSize_new (unat (wal_page_size h)) \<noteq> None \<and>
     checksum_words (word_reader (wal_be h)) (concat (map u32_to_be (prefix_words h))) (0, 0) = (checksum_1 h, checksum_2 h)"

text \<open>The header that a connection installs before it writes the first frame of a generation.\<close>

definition fill_wal_header :: "bool \<Rightarrow> u32 \<times> u32 \<Rightarrow> nat \<Rightarrow> wal_header \<Rightarrow> wal_header" where
  "fill_wal_header big random page_size h =
     (let h = h\<lparr>magic := (if big then WAL_MAGIC_BE else WAL_MAGIC_LE)\<rparr>;
          h = (if wal_page_size h = 0 then h\<lparr>wal_page_size := of_nat (PageSize_get page_size)\<rparr> else h)
      in if salt_1 h = 0 \<and> salt_2 h = 0 then h\<lparr>salt_1 := fst random, salt_2 := snd random\<rparr> else h)"

definition prepare_wal_header ::
    "bool \<Rightarrow> u32 \<times> u32 \<Rightarrow> nat \<Rightarrow> wal_file_shared \<Rightarrow> (wal_header option \<times> wal_file_shared) result" where
  "prepare_wal_header big random page_size sh =
     (if initialized sh then Inr (None, sh)
      else
        let h = fill_wal_header big random page_size (shared_header sh);
            prefix = take (WAL_HEADER_SIZE - 8) (wal_header_as_bytes big h);
            use_native = (magic h AND 1 \<noteq> 0)
        in and_then (checksum_wal big prefix (0, 0) use_native) (\<lambda>(c1, c2).
           let h = h\<lparr>checksum_1 := c1, checksum_2 := c2\<rparr>
           in Inr (Some h, sh\<lparr>shared_header := h, last_checksum := (c1, c2)\<rparr>)))"

lemma checksum_words_pair:
  assumes "length a = 4" "length b = 4"
  shows "checksum_words rd (a @ b @ r) (s0, s1) =
     checksum_words rd r (s0 + (rd a + s1), s1 + (rd b + (s0 + (rd a + s1))))"
proof -
  obtain a0 a1 a2 a3 where a: "a = [a0, a1, a2, a3]" using assms(1) by (auto simp: length_Suc_conv numeral_eq_Suc)
  obtain b0 b1 b2 b3 where b: "b = [b0, b1, b2, b3]" using assms(2) by (auto simp: length_Suc_conv numeral_eq_Suc)
  show ?thesis by (simp add: a b Let_def)
qed

lemma length_u32_to_ne [simp]: "length (u32_to_ne big w) = 4"
  by (simp add: u32_to_ne_def)

lemma magic_bits: "WAL_MAGIC_BE AND 1 = 1" "WAL_MAGIC_LE AND 1 = 0" "bit WAL_MAGIC_BE 0" "\<not> bit WAL_MAGIC_LE 0"
  by (simp_all add: WAL_MAGIC_BE_def WAL_MAGIC_LE_def)

text \<open>The checksum over the in-memory header is the one that a reader computes over the file.\<close>

lemma header_checksum_eq:
  assumes "wal_be h = big"
  shows "checksum_words (word_reader (wal_be h = big)) (concat (map (u32_to_ne big) (prefix_words h))) (0, 0) =
     checksum_words (word_reader (wal_be h)) (concat (map u32_to_be (prefix_words h))) (0, 0)"
proof -
  have rd: "word_reader (wal_be h = big) (u32_to_ne big w) = word_reader (wal_be h) (u32_to_be w)" for w
    using assms by (simp add: word_reader_def u32_to_ne_def)
  have six: "checksum_words r (concat (map f (prefix_words h))) (0, 0) =
      checksum_words r (f (magic h) @ f (file_format h) @ f (wal_page_size h) @ f (checkpoint_seq h) @ f (salt_1 h) @ f (salt_2 h) @ []) (0, 0)"
    for r f by (simp add: prefix_words_def)
  show ?thesis by (simp only: six checksum_words_pair length_u32_to_ne length_u32_to_be rd checksum_words.simps)
qed

lemma prepare_wal_header_ok:
  assumes "prepare_wal_header big random page_size sh = Inr (Some h, sh')"
    "PageSize_new (PageSize_get page_size) \<noteq> None" "wal_page_size (shared_header sh) = 0"
  shows "wal_header_ok h" "shared_header sh' = h" "last_checksum sh' = (checksum_1 h, checksum_2 h)"
    "unat (wal_page_size h) = PageSize_get page_size"
proof -
  let ?m = "if big then WAL_MAGIC_BE else WAL_MAGIC_LE"
  define h1 where "h1 = fill_wal_header big random page_size (shared_header sh)"
  have m: "magic h1 = ?m" "wal_page_size h1 = of_nat (PageSize_get page_size)" using assms(3) by (simp_all add: h1_def fill_wal_header_def Let_def)
  have be: "wal_be h1 = big" "(magic h1 AND 1 \<noteq> 0) = big" using m magic_bits by simp_all
  have pre: "take (WAL_HEADER_SIZE - 8) (wal_header_as_bytes big h1) = concat (map (u32_to_ne big) (prefix_words h1))"
    by (simp add: wal_header_as_bytes_def prefix_words_def WAL_HEADER_SIZE_def)
  have len: "length (concat (map (u32_to_ne big) (prefix_words h1))) mod 8 = 0" by (simp add: prefix_words_def)
  obtain c1 c2 where c: "checksum_words (word_reader (wal_be h1)) (concat (map u32_to_be (prefix_words h1))) (0, 0) = (c1, c2)"
    by fastforce
  have hs: "h = h1\<lparr>checksum_1 := c1, checksum_2 := c2\<rparr>" "sh' = sh\<lparr>shared_header := h, last_checksum := (c1, c2)\<rparr>"
    using assms(1,3) len header_checksum_eq[OF be(1)] c
    by (auto simp: prepare_wal_header_def Let_def h1_def[symmetric] pre checksum_wal_eq be split: if_splits)
  have ps: "unat (wal_page_size h) = PageSize_get page_size"
    using assms(2) m(2) hs(1) by (auto simp: PageSize_new_def split: if_splits)
  show "wal_header_ok h" using c hs(1) assms(2) ps by (simp add: wal_header_ok_def prefix_words_def)
  show "shared_header sh' = h" "last_checksum sh' = (checksum_1 h, checksum_2 h)" using hs by simp_all
  show "unat (wal_page_size h) = PageSize_get page_size" by (fact ps)
qed

lemma parse_wal_header_bytes [simp]: "parse_wal_header (wal_header_bytes h) = h"
  by (simp add: parse_wal_header_def wal_header_bytes_eq)

lemma handle_header_read_ok:
  assumes "wal_header_ok h"
  shows "handle_header_read big (Some (wal_header_bytes h)) r =
     Inr (r\<lparr>reader_shared := (reader_shared r)\<lparr>shared_header := h\<rparr>,
            reader_state := (reader_state r)\<lparr>st_page_size := unat (wal_page_size h), use_native_endian := (big = wal_be h),
              cumulative_checksum := (checksum_1 h, checksum_2 h),
              last_valid_checksum := (checksum_1 h, checksum_2 h), header_valid := True\<rparr>,
            reader_off := WAL_HEADER_SIZE, reader_page := unat (wal_page_size h)\<rparr>)"
proof -
  have pre: "slice (wal_header_bytes h) 0 24 = concat (map u32_to_be (prefix_words h))"
    "length (concat (map u32_to_be (prefix_words h))) mod 8 = 0"
    by (simp_all add: wal_header_bytes_eq prefix_words_def slice_def)
  have n: "(magic h AND 1 \<noteq> 0) = wal_be h" "((big = wal_be h) = big) = wal_be h" by (auto simp: and_one_eq bit_0 odd_iff_mod_2_eq_one)
  show ?thesis
    using assms by (auto simp: handle_header_read_def Let_def pre checksum_wal_eq n wal_header_ok_def WAL_HEADER_SIZE_def)
qed

section \<open>The image of a log\<close>

text \<open>The bytes of frames as \<open>prepare_wal_frame\<close> chains them: page number, database size and page.\<close>

type_synonym log_frame = "u32 \<times> u32 \<times> byte list"

fun wal_frames :: "wal_header \<Rightarrow> u32 \<times> u32 \<Rightarrow> log_frame list \<Rightarrow> byte list" where
  "wal_frames h ck [] = []"
| "wal_frames h ck ((pn, db, page) # fs) =
     frame_bytes h ck pn db page @ wal_frames h (frame_checksum h ck pn db page) fs"

fun frame_infos :: "wal_header \<Rightarrow> u32 \<times> u32 \<Rightarrow> log_frame list \<Rightarrow> frame_info list" where
  "frame_infos h ck [] = []"
| "frame_infos h ck ((pn, db, page) # fs) =
     (pn, db, frame_checksum h ck pn db page) # frame_infos h (frame_checksum h ck pn db page) fs"

definition log_ok :: "nat \<Rightarrow> log_frame list \<Rightarrow> bool" where
  "log_ok ps fs \<longleftrightarrow> list_all (\<lambda>(pn, db, page). pn \<noteq> 0 \<and> length page = ps) fs"

definition wal_image :: "wal_header \<Rightarrow> log_frame list \<Rightarrow> byte list" where
  "wal_image h fs = wal_header_bytes h @ wal_frames h (checksum_1 h, checksum_2 h) fs"

lemma length_frame_bytes [simp]: "length (frame_bytes h ck pn db page) = WAL_FRAME_HEADER_SIZE + length page"
  by (simp add: frame_bytes_def WAL_FRAME_HEADER_SIZE_def split: prod.splits)

lemma length_frame_infos [simp]: "length (frame_infos h ck fs) = length fs"
  by (induction h ck fs rule: frame_infos.induct) auto

lemma length_wal_frames: "log_ok ps fs \<Longrightarrow> length (wal_frames h ck fs) = length fs * (WAL_FRAME_HEADER_SIZE + ps)"
  by (induction h ck fs rule: wal_frames.induct) (auto simp: log_ok_def)

lemma frame_infos_nth: "i < length fs \<Longrightarrow> fst (frame_infos h ck fs ! i) = fst (fs ! i) \<and> fst (snd (frame_infos h ck fs ! i)) = fst (snd (fs ! i))"
proof (induction h ck fs arbitrary: i rule: frame_infos.induct)
  case (2 h ck pn db page fs)
  then show ?case by (cases i) auto
qed simp

lemma frame_infos_take: "take k (frame_infos h ck fs) = frame_infos h ck (take k fs)"
proof (induction h ck fs arbitrary: k rule: frame_infos.induct)
  case (2 h ck pn db page fs)
  then show ?case by (cases k) auto
qed simp

lemma frame_at_bytes:
  assumes "pn \<noteq> 0" "length page = ps"
  shows "frame_at h ps ck (frame_bytes h ck pn db page @ rest) = Some (pn, db, frame_checksum h ck pn db page)"
proof -
  obtain c1 c2 where c: "frame_checksum h ck pn db page = (c1, c2)" by fastforce
  show ?thesis using assms c by (simp add: frame_at_def frame_bytes_def WAL_FRAME_HEADER_SIZE_def Let_def)
qed

lemma scan_wal_frames:
  "log_ok ps fs \<Longrightarrow> scan_frames h ps ck (wal_frames h ck fs @ rest) =
     frame_infos h ck fs @ scan_frames h ps (chain_end ck (frame_infos h ck fs)) rest"
proof (induction h ck fs rule: wal_frames.induct)
  case (2 h ck pn db page fs)
  then have "pn \<noteq> 0" "length page = ps" "log_ok ps fs" by (auto simp: log_ok_def)
  then show ?case using "2.IH"
    by (subst scan_frames.simps) (simp add: frame_at_bytes)
qed simp

lemma last_commit_infos [simp]: "last_commit (frame_infos h ck fs) = last_commit fs"
  by (induction h ck fs rule: frame_infos.induct) auto

lemma page_frames_infos: "j \<le> length fs \<Longrightarrow> page_frames (frame_infos h ck fs) i j p = page_frames fs i j p"
  unfolding page_frames_def by (rule filter_cong) (auto simp: frame_infos_nth)

section \<open>Recovery\<close>

lemma init_read_lock_ok: "init_read_lock v = Inr (pack_lock False 0 v)"
proof -
  have z: "lock_new = pack_lock False 0 0" by (simp add: lock_new_def pack_lock_def)
  have "lock_write lock_new lock_new = (True, pack_lock True 0 0)"
    using write_pack by (simp add: z lock_write_def has_writer_pack has_readers_pack compare_exchange_def)
  moreover have "set_value_exclusive v (pack_lock True 0 0) = Inr (pack_lock True 0 v)"
    by (simp add: set_value_exclusive_def has_writer_pack value_pack)
  moreover have "lock_unlock (pack_lock True 0 v) = Inr (pack_lock False 0 v)"
    using has_writer_pack[of 0 True v] by (simp add: lock_unlock_def lock_unlock_at_def has_writer_def unwrite_pack has_readers_pack)
  ultimately show ?thesis by (simp add: init_read_lock_def)
qed

lemma init_read_locks_ok: "init_read_locks vs = Inr (map (pack_lock False 0) vs)"
  by (induction vs) (simp_all add: init_read_lock_ok)

text \<open>Nobody holds a lock, and no read mark but 0 and 1 is in use.\<close>

definition fresh_locks :: "wal_file_shared \<Rightarrow> bool" where
  "fresh_locks sh \<longleftrightarrow>
     enabled sh \<and> read_locks sh = map (pack_lock False 0) (0 # 0 # replicate 3 READMARK_NOT_USED) \<and>
     write_lock sh = lock_new \<and> checkpoint_lock sh = lock_new \<and> vacuum_lock sh = lock_new"

lemma shared_begin_ok:
  "\<exists>sh. shared_begin big = Inr sh \<and> frame_cache sh = [] \<and> frame_cache_high_water sh = 0 \<and> max_frame sh = 0 \<and>
     nbackfills sh = 0 \<and> fresh_locks sh"
  by (simp add: shared_begin_def init_read_locks_ok fresh_locks_def upt_conv_Cons numeral_3_eq_3)

lemma fold_apply_frame_locks: "fresh_locks (snd (fold apply_frame fs (st, sh))) = fresh_locks sh"
proof (induction fs arbitrary: st sh)
  case (Cons f fs)
  have "fresh_locks (snd (apply_frame f (st, sh))) = fresh_locks sh"
    by (cases f) (simp add: apply_frame_def flush_pending_frames_def fresh_locks_def Let_def)
  then show ?case using Cons[of "fst (apply_frame f (st, sh))" "snd (apply_frame f (st, sh))"] by simp
qed simp

lemma finalize_locks: "fresh_locks (finalize_loading st sh) = fresh_locks sh"
  by (simp add: finalize_loading_def fresh_locks_def Let_def)

text \<open>The shared state that holds exactly the committed frames of \<open>fs\<close>.\<close>

definition recovered :: "wal_header \<Rightarrow> log_frame list \<Rightarrow> wal_file_shared \<Rightarrow> bool" where
  "recovered h fs sh \<longleftrightarrow>
     shared_header sh = h \<and> initialized sh \<and> loaded sh \<and> nbackfills sh = 0 \<and>
     max_frame sh = last_commit fs \<and> frame_cache_high_water sh = last_commit fs \<and>
     last_checksum sh = chain_end (checksum_1 h, checksum_2 h) (frame_infos h (checksum_1 h, checksum_2 h) (take (last_commit fs) fs)) \<and>
     coverage sh = coverage_record (checkpoint_seq h) (salt_1 h) (salt_2 h) (last_commit fs) \<and>
     distinct (map fst (frame_cache sh)) \<and>
     (\<forall>p. frames_of (frame_cache sh) p = page_frames fs 0 (last_commit fs) p)"

lemma distinct_retain: "distinct (map fst m) \<Longrightarrow> distinct (map fst (retain_up_to n m))"
proof -
  assume "distinct (map fst m)"
  then have "distinct (map fst (map (\<lambda>(p, fs). (p, filter (\<lambda>f. f \<le> n) fs)) m))" by (simp add: case_prod_beta comp_def)
  then show ?thesis unfolding retain_up_to_def Let_def by (rule distinct_map_filter)
qed

lemma finalize_recovered:
  assumes "scan_inv (checksum_1 h, checksum_2 h) (frame_infos h (checksum_1 h, checksum_2 h) fs) st sh"
    "header_valid st" "shared_header sh = h"
  shows "recovered h fs (finalize_loading st sh)"
proof -
  note inv = assms(1)[unfolded scan_inv_def last_commit_infos frame_infos_take]
  have pf: "page_frames (frame_infos h (checksum_1 h, checksum_2 h) fs) 0 (last_commit fs) p = page_frames fs 0 (last_commit fs) p" for p
    by (rule page_frames_infos) (rule last_commit_le)
  have c: "frames_of (retain_up_to (last_commit fs) (frame_cache sh)) p = page_frames fs 0 (last_commit fs) p" for p
    using inv pf by (simp add: frames_of_retain filter_page_frames)
  show ?thesis
    using inv assms(2,3) c pf by (simp add: recovered_def finalize_loading_def Let_def coverage_record_def distinct_retain)
qed

lemma PageSize_new_dvd: "PageSize_new n \<noteq> None \<Longrightarrow> n mod 8 = 0 \<and> 0 < n"
  by (auto simp: PageSize_new_def split: if_splits)

lemma build_shared_wal_recovered:
  assumes "wal_header_ok h" "log_ok (unat (wal_page_size h)) fs"
    "frame_at h (unat (wal_page_size h)) (chain_end (checksum_1 h, checksum_2 h) (frame_infos h (checksum_1 h, checksum_2 h) fs)) tail = None"
  shows "\<exists>sh. build_shared_wal big (wal_image h fs @ tail) = Inr sh \<and> recovered h fs sh \<and> fresh_locks sh"
proof -
  let ?ps = "unat (wal_page_size h)" and ?ck = "(checksum_1 h, checksum_2 h)" and ?file = "wal_image h fs @ tail"
  obtain sh0 where sh0: "shared_begin big = Inr sh0" "frame_cache sh0 = []" "frame_cache_high_water sh0 = 0" "fresh_locks sh0"
    using shared_begin_ok by blast
  define st where "st = streaming_new\<lparr>st_page_size := ?ps, use_native_endian := (big = wal_be h),
    cumulative_checksum := ?ck, last_valid_checksum := ?ck, header_valid := True\<rparr>"
  define r where "r = \<lparr>reader_state = st, reader_shared = sh0\<lparr>shared_header := h\<rparr>,
    reader_off = WAL_HEADER_SIZE, reader_page = ?ps, reader_done = False\<rparr>"
  have ok: "reader_ok big ?ps r"
    using PageSize_new_dvd assms(1) by (simp add: reader_ok_def r_def st_def wal_header_ok_def)
  obtain r' where r': "chunk_loop big ?file r = Inr r'" "reader_shared r' = scanned ?file r"
    using chunk_loop_scan[OF ok] by blast
  have hd: "slice ?file 0 WAL_HEADER_SIZE = wal_header_bytes h" "drop WAL_HEADER_SIZE ?file = wal_frames h ?ck fs @ tail"
    by (simp_all add: wal_image_def WAL_HEADER_SIZE_def)
  have build: "build_shared_wal big ?file = Inr (scanned ?file r)"
    using handle_header_read_ok[OF assms(1), of big "\<lparr>reader_state = streaming_new, reader_shared = sh0, reader_off = 0, reader_page = 0, reader_done = False\<rparr>"] r'
    by (simp add: build_shared_wal_def sh0 Let_def hd wal_image_def WAL_HEADER_SIZE_def r_def st_def)
  have "scan_frames h ?ps ?ck (wal_frames h ?ck fs @ tail) = frame_infos h ?ck fs"
    using scan_wal_frames[OF assms(2)] assms(3) by (simp add: scan_frames.simps[of _ _ _ tail])
  moreover obtain st' sh' where f: "fold apply_frame (frame_infos h ?ck fs) (st, sh0\<lparr>shared_header := h\<rparr>) = (st', sh')"
    by fastforce
  ultimately have sc: "scanned ?file r = finalize_loading st' sh'"
    by (simp add: scanned_def r_def hd st_def Let_def del: drop_append)
  have "scan_inv ?ck [] st (sh0\<lparr>shared_header := h\<rparr>)"
    using sh0 by (simp add: scan_inv_def st_def streaming_new_def page_frames_def)
  from scan_inv_fold[OF this f] have "scan_inv ?ck (frame_infos h ?ck fs) st' sh'" by simp
  moreover have "header_valid st'" "shared_header sh' = h" using fold_apply_frame[OF f] by (simp_all add: st_def)
  ultimately have "recovered h fs (finalize_loading st' sh')" by (rule finalize_recovered)
  moreover have "fresh_locks (sh0\<lparr>shared_header := h\<rparr>)" using sh0(4) by (simp add: fresh_locks_def)
  then have "fresh_locks (finalize_loading st' sh')"
    using fold_apply_frame_locks[of "frame_infos h ?ck fs" st "sh0\<lparr>shared_header := h\<rparr>"] f by (simp add: finalize_locks)
  ultimately show ?thesis using build sc by simp
qed

text \<open>A file that is shorter than a header or whose header is not valid is an empty log.\<close>

definition no_header :: "bool \<Rightarrow> byte list \<Rightarrow> bool" where
  "no_header big file \<longleftrightarrow>
     length file < WAL_HEADER_SIZE \<or>
     (let s = slice file 0 WAL_HEADER_SIZE; h = parse_wal_header s
      in PageSize_new (unat (wal_page_size h)) = None \<or>
         checksum_wal big (slice s 0 24) (0, 0) (big = (magic h AND 1 \<noteq> 0)) \<noteq> Inr (checksum_1 h, checksum_2 h))"

lemma build_no_header:
  assumes "no_header big file" "build_shared_wal big file = Inr sh"
  shows "frame_cache sh = [] \<and> frame_cache_high_water sh = 0 \<and> max_frame sh = 0 \<and> nbackfills sh = 0 \<and> fresh_locks sh"
proof -
  obtain sh0 where sh0: "shared_begin big = Inr sh0" "frame_cache sh0 = []" "frame_cache_high_water sh0 = 0" "max_frame sh0 = 0" "nbackfills sh0 = 0"
    "fresh_locks sh0" using shared_begin_ok by blast
  show ?thesis
  proof (cases "length file < WAL_HEADER_SIZE")
    case True
    then show ?thesis using assms(2) sh0 by (auto simp: build_shared_wal_def fresh_locks_def)
  next
    case False
    then have len: "length (slice file 0 WAL_HEADER_SIZE) = WAL_HEADER_SIZE" by (simp add: slice_def)
    define r0 where "r0 = \<lparr>reader_state = streaming_new, reader_shared = sh0, reader_off = 0, reader_page = 0, reader_done = False\<rparr>"
    obtain r1 where r1: "handle_header_read big (Some (slice file 0 WAL_HEADER_SIZE)) r0 = Inr r1" "and_then (chunk_loop big file r1) (\<lambda>r. Inr (reader_shared r)) = Inr sh"
      using assms(2) False sh0(1) by (auto simp: build_shared_wal_def r0_def Let_def)
    then have "r1 = finalize_reader (r0\<lparr>reader_shared := sh0\<lparr>shared_header := wal_header_new big\<rparr>\<rparr>)"
      using assms(1) False len by (auto simp: handle_header_read_def no_header_def Let_def r0_def split: if_splits)
    then have "sh = finalize_loading streaming_new (sh0\<lparr>shared_header := wal_header_new big\<rparr>)"
      using r1(2) by (simp add: chunk_loop.simps finalize_reader_def r0_def)
    then show ?thesis using sh0 by (simp add: finalize_locks) (simp add: finalize_loading_def streaming_new_def Let_def fresh_locks_def)
  qed
qed

section \<open>A log that is cut short\<close>

lemma wal_frames_append:
  "wal_frames h ck (fs @ gs) = wal_frames h ck fs @ wal_frames h (chain_end ck (frame_infos h ck fs)) gs"
  by (induction h ck fs rule: wal_frames.induct) auto

lemma log_ok_take: "log_ok ps fs \<Longrightarrow> log_ok ps (take k fs)"
  by (auto simp: log_ok_def list_all_iff dest: in_set_takeD)

lemma frame_at_short: "length bs < WAL_FRAME_HEADER_SIZE + ps \<Longrightarrow> frame_at h ps ck bs = None"
  by (simp add: frame_at_def)

lemma take_wal_image:
  assumes "log_ok ps fs" "WAL_HEADER_SIZE \<le> n"
  shows "\<exists>rest. take n (wal_image h fs) = wal_image h (take ((n - WAL_HEADER_SIZE) div (WAL_FRAME_HEADER_SIZE + ps)) fs) @ rest \<and>
     length rest < WAL_FRAME_HEADER_SIZE + ps"
proof -
  define m F k where "m = n - WAL_HEADER_SIZE" "F = WAL_FRAME_HEADER_SIZE + ps" "k = m div F"
  let ?ck = "(checksum_1 h, checksum_2 h)"
  have F: "0 < F" by (simp add: m_F_k_def WAL_FRAME_HEADER_SIZE_def)
  have head: "take n (wal_image h fs) = wal_header_bytes h @ take m (wal_frames h ?ck fs)"
    using assms(2) by (simp add: wal_image_def m_F_k_def WAL_HEADER_SIZE_def)
  obtain B where B: "wal_frames h ?ck fs = wal_frames h ?ck (take k fs) @ B"
    using wal_frames_append[of h ?ck "take k fs" "drop k fs"] by simp
  have len: "length (wal_frames h ?ck (take k fs)) = min (length fs) k * F" "length (wal_frames h ?ck fs) = length fs * F"
    using length_wal_frames[OF log_ok_take[OF assms(1)]] length_wal_frames[OF assms(1)] by (simp_all add: m_F_k_def)
  have km: "k * F \<le> m" by (simp add: m_F_k_def)
  then have le: "min (length fs) k * F \<le> m" using order_trans mult_le_mono1 min.cobounded2 by metis
  define rest where "rest = take (m - min (length fs) k * F) B"
  have "take m (wal_frames h ?ck fs) = wal_frames h ?ck (take k fs) @ rest"
    using le len(1) by (simp add: B rest_def)
  moreover have "length rest < F"
  proof (cases "k \<le> length fs")
    case True
    have "m - k * F = m mod F" by (simp add: m_F_k_def(3) minus_div_mult_eq_mod)
    moreover have "m mod F < F" using F by simp
    ultimately show ?thesis using True by (auto simp: rest_def min_def)
  next
    case False
    then have "B = []" using B len by simp
    then show ?thesis using F by (simp add: rest_def)
  qed
  ultimately show ?thesis using head by (auto simp: wal_image_def m_F_k_def)
qed

section \<open>Properties\<close>

text \<open>
  C40. A frame that the writer prepares in any buffer of the right size reads back with the page number,
  database size, salts and page that were written, is accepted at its place in the chain, and is
  the same bytes on little-endian and big-endian targets.
\<close>

theorem wal_frame_roundtrip:
  assumes "length buf = WAL_FRAME_HEADER_SIZE + length page" "length page mod 8 = 0" "pgno \<noteq> 0"
    "length buf' = length buf"
  shows "\<exists>c1 c2 frame. prepare_wal_frame big buf h prev pgno dbsize page = Inr ((c1, c2), frame) \<and>
     parse_wal_frame_header frame =
       Inr (\<lparr>page_number = pgno, db_size = dbsize, frame_salt_1 = salt_1 h, frame_salt_2 = salt_2 h,
             frame_checksum_1 = c1, frame_checksum_2 = c2\<rparr>, page) \<and>
     frame_at h (length page) prev frame = Some (pgno, dbsize, (c1, c2)) \<and>
     prepare_wal_frame (\<not> big) buf' h prev pgno dbsize page = Inr ((c1, c2), frame)"
proof -
  obtain c1 c2 where c: "frame_checksum h prev pgno dbsize page = (c1, c2)" by fastforce
  define frame where "frame = frame_bytes h prev pgno dbsize page"
  have fr: "frame = concat (map u32_to_be [pgno, dbsize, salt_1 h, salt_2 h, c1, c2]) @ page"
    by (simp add: frame_def frame_bytes_def c)
  have prep: "prepare_wal_frame b bf h prev pgno dbsize page = Inr ((c1, c2), frame)"
    if "length bf = length buf" for b bf
    using prepare_wal_frame_eq[of bf page b h prev pgno dbsize] that assms(1,2) c by (simp add: frame_def)
  have "parse_wal_frame_header frame =
       Inr (\<lparr>page_number = pgno, db_size = dbsize, frame_salt_1 = salt_1 h, frame_salt_2 = salt_2 h,
             frame_checksum_1 = c1, frame_checksum_2 = c2\<rparr>, page)"
    by (simp add: parse_wal_frame_header_def fr WAL_FRAME_HEADER_SIZE_def ensure_def)
  moreover have "frame_at h (length page) prev frame = Some (pgno, dbsize, (c1, c2))"
    using frame_at_bytes[OF assms(3) refl, where rest = "[]" and h = h and ck = prev and db = dbsize] c by (simp add: frame_def)
  ultimately show ?thesis using prep[of buf big] prep[OF assms(4), of "\<not> big"] by blast
qed

theorem wal_frame_roundtrip_witness:
  "\<exists>c1 c2 frame. prepare_wal_frame False (replicate 32 0xff) (wal_header_new False) (1, 2) 7 9 (replicate 8 5) = Inr ((c1, c2), frame) \<and>
     frame_at (wal_header_new False) 8 (1, 2) frame = Some (7, 9, (c1, c2)) \<and>
     prepare_wal_frame True (replicate 32 0) (wal_header_new False) (1, 2) 7 9 (replicate 8 5) = Inr ((c1, c2), frame)"
  using wal_frame_roundtrip[of "replicate 32 0xff" "replicate 8 5" 7 "replicate 32 0" False "wal_header_new False" "(1, 2)" 9]
  by (auto simp: WAL_FRAME_HEADER_SIZE_def)

text \<open>
  C3. Opening a log that holds a valid header and a chain of written frames, followed by bytes that
  do not continue the chain, succeeds on either target and recovers exactly the frames up to the
  last commit frame: the maximum frame, the running checksum of the next append, the frame cache
  and the coverage of the index; frames after the last commit and the tail leave no trace.
\<close>

theorem wal_recovery_committed:
  assumes "wal_header_ok h" "log_ok (unat (wal_page_size h)) fs"
    "frame_at h (unat (wal_page_size h))
       (chain_end (checksum_1 h, checksum_2 h) (frame_infos h (checksum_1 h, checksum_2 h) fs)) tail = None"
  shows "\<exists>sh. build_shared_wal big (wal_image h fs @ tail) = Inr sh \<and> recovered h fs sh"
  using build_shared_wal_recovered[OF assms] by blast

definition sample_header :: wal_header where
  "sample_header = \<lparr>magic = 0x377f0683, file_format = 3007000, wal_page_size = 512, checkpoint_seq = 0,
     salt_1 = 1, salt_2 = 2, checksum_1 = 369412824, checksum_2 = 3168642195\<rparr>"

lemma sample_header_ok: "wal_header_ok sample_header"
  by (simp add: wal_header_ok_def sample_header_def prefix_words_def PageSize_new_def word_reader_def
      checksum_words_pair checksum_words_pair[where r = "[]", simplified])

definition sample_log :: "log_frame list" where
  "sample_log = [(1, 0, replicate 512 0), (2, 2, replicate 512 1), (1, 0, replicate 512 2)]"

lemma sample_log_ok: "log_ok (unat (wal_page_size sample_header)) sample_log"
  by (simp add: log_ok_def sample_log_def sample_header_def)

theorem wal_recovery_committed_witness:
  "\<exists>sh. build_shared_wal False (wal_image sample_header sample_log @ [1, 2, 3]) = Inr sh \<and>
     max_frame sh = 2 \<and> frames_of (frame_cache sh) 1 = [1] \<and> frames_of (frame_cache sh) 2 = [2]"
  using wal_recovery_committed[OF sample_header_ok sample_log_ok, of "[1, 2, 3]" False]
  by (auto simp: frame_at_def WAL_FRAME_HEADER_SIZE_def recovered_def sample_log_def page_frames_def upt_conv_Cons)

text \<open>
  C9. A crash that cuts the log at any byte after the header: opening succeeds and recovers exactly the
  transactions whose commit frame is wholly in the file.
\<close>

theorem wal_recovery_torn:
  assumes "wal_header_ok h" "log_ok (unat (wal_page_size h)) fs" "WAL_HEADER_SIZE \<le> n"
  shows "\<exists>sh. build_shared_wal big (take n (wal_image h fs)) = Inr sh \<and>
     recovered h (take ((n - WAL_HEADER_SIZE) div (WAL_FRAME_HEADER_SIZE + unat (wal_page_size h))) fs) sh"
  using take_wal_image[OF assms(2,3)] build_shared_wal_recovered[OF assms(1) log_ok_take[OF assms(2)]]
  by (metis frame_at_short)

theorem wal_recovery_torn_witness:
  "\<exists>sh. build_shared_wal True (take 1600 (wal_image sample_header sample_log)) = Inr sh \<and>
     max_frame sh = 2 \<and> frames_of (frame_cache sh) 1 = [1] \<and> frames_of (frame_cache sh) 2 = [2]"
  using wal_recovery_torn[OF sample_header_ok sample_log_ok, of 1600 True]
  by (auto simp: WAL_FRAME_HEADER_SIZE_def WAL_HEADER_SIZE_def recovered_def sample_log_def sample_header_def page_frames_def upt_conv_Cons)

end
