(* ===== verification/WalIndex.thy ===== *)
theory WalIndex
  imports WalCommitted
begin

text \<open>
  The in-memory index of the write-ahead log (\<open>WalSharedRuntime\<close> and the index operations of
  \<open>InProcessWalCoordination\<close> in \<^verbatim>\<open>core/storage/wal.rs\<close>): which frames hold a page.
  The lemmas relate it to the list of pages in the slots of the log, of which the operations are
  appending at a slot, cutting at a slot and searching backwards.
\<close>

section \<open>Operations\<close>

text \<open>\<open>partition_point\<close> on an ascending list is the length of its longest prefix with the property.\<close>

definition latest_frame_in_range :: "nat list \<Rightarrow> nat \<Rightarrow> nat \<Rightarrow> nat option" where
  "latest_frame_in_range frames lo hi =
     (let pre = takeWhile (\<lambda>f. f \<le> hi) frames
      in if pre = [] then None
         else if lo \<le> last pre \<and> last pre \<le> hi then Some (last pre)
         else None)"

definition coord_find_frame :: "nat \<Rightarrow> nat \<Rightarrow> nat \<Rightarrow> nat option \<Rightarrow> wal_file_shared \<Rightarrow> nat option" where
  "coord_find_frame pg mn mx watermark sh =
     (let (lo, hi) = (case watermark of Some x \<Rightarrow> (0, x) | None \<Rightarrow> (mn, mx))
      in case map_of (frame_cache sh) pg of
           None \<Rightarrow> None
         | Some frames \<Rightarrow> latest_frame_in_range frames lo hi)"

fun latest_entries :: "nat \<Rightarrow> nat \<Rightarrow> frame_map \<Rightarrow> (nat \<times> nat) list" where
  "latest_entries mn mx [] = []"
| "latest_entries mn mx ((pg, frames) # cache) =
     (case latest_frame_in_range frames mn mx of
        Some f \<Rightarrow> (pg, f) # latest_entries mn mx cache
      | None \<Rightarrow> latest_entries mn mx cache)"

definition iter_latest_frames :: "nat \<Rightarrow> nat \<Rightarrow> wal_file_shared \<Rightarrow> (nat \<times> nat) list" where
  "iter_latest_frames mn mx sh = sort_key fst (latest_entries mn mx (frame_cache sh))"

text \<open>\<open>retain\<close> with a closure that pops the tail of each list while it satisfies \<open>P\<close>.\<close>

definition pop_tail :: "(nat \<Rightarrow> bool) \<Rightarrow> frame_map \<Rightarrow> frame_map" where
  "pop_tail P cache =
     filter (\<lambda>(_, fs). fs \<noteq> []) (map (\<lambda>(pg, fs). (pg, rev (dropWhile P (rev fs)))) cache)"

definition cache_frame :: "nat \<Rightarrow> nat \<Rightarrow> wal_file_shared \<Rightarrow> wal_file_shared" where
  "cache_frame pg frame_id sh =
     (let cache = frame_cache sh;
          cache = (if frame_id \<le> frame_cache_high_water sh then pop_tail (\<lambda>f. f \<ge> frame_id) cache else cache)
      in sh\<lparr>frame_cache := entry_extend pg [frame_id] cache, frame_cache_high_water := frame_id\<rparr>)"

definition rollback_cache :: "nat \<Rightarrow> wal_file_shared \<Rightarrow> wal_file_shared" where
  "rollback_cache mx sh =
     (let sh = sh\<lparr>frame_cache := pop_tail (\<lambda>f. f > mx) (frame_cache sh)\<rparr>
      in if frame_cache_high_water sh > mx then sh\<lparr>frame_cache_high_water := mx\<rparr> else sh)"

section \<open>The slots of the log\<close>

text \<open>The frames, numbered from 1, that hold page \<open>p\<close> in a log whose slots hold the pages \<open>L\<close>.\<close>

definition slots_of :: "nat list \<Rightarrow> nat \<Rightarrow> nat list" where
  "slots_of L p = filter (\<lambda>f. L ! (f - 1) = p) [1..<Suc (length L)]"

text \<open>The newest frame of \<open>p\<close> between two frame numbers.\<close>

definition newest :: "nat list \<Rightarrow> nat \<Rightarrow> nat \<Rightarrow> nat \<Rightarrow> nat option" where
  "newest L lo hi p =
     (let fs = filter (\<lambda>f. lo \<le> f \<and> f \<le> hi) (slots_of L p)
      in if fs = [] then None else Some (last fs))"

definition index_ok :: "nat list \<Rightarrow> wal_file_shared \<Rightarrow> bool" where
  "index_ok L sh \<longleftrightarrow>
     distinct (map fst (frame_cache sh)) \<and> frame_cache_high_water sh = length L \<and>
     (\<forall>p. frames_of (frame_cache sh) p = slots_of L p)"

lemma slots_of_snoc: "slots_of (L @ [q]) p = slots_of L p @ (if p = q then [Suc (length L)] else [])"
proof -
  have "filter (\<lambda>f. (L @ [q]) ! (f - 1) = p) [1..<Suc (length L)] = slots_of L p"
    unfolding slots_of_def by (rule filter_cong) (auto simp: nth_append)
  then show ?thesis by (auto simp: slots_of_def)
qed

lemma slots_of_sorted: "sorted_wrt (<) (slots_of L p)"
  unfolding slots_of_def by (simp add: sorted_wrt_filter sorted_wrt_upt del: upt_Suc)

lemma slots_of_take: "slots_of (take n L) p = filter (\<lambda>f. f \<le> n) (slots_of L p)"
proof -
  have "[1..<Suc (length (take n L))] = filter (\<lambda>f. f \<le> n) [1..<Suc (length L)]"
  proof (induction L rule: rev_induct)
    case (snoc x L)
    then show ?case by (auto simp: min_def split: if_splits)
  qed simp
  then have "slots_of (take n L) p = filter (\<lambda>f. take n L ! (f - 1) = p) (filter (\<lambda>f. f \<le> n) [1..<Suc (length L)])"
    by (simp add: slots_of_def)
  also have "\<dots> = filter (\<lambda>f. f \<le> n) (slots_of L p)"
    unfolding slots_of_def filter_filter by (rule filter_cong) auto
  finally show ?thesis .
qed

lemma sorted_filter_takeWhile: "sorted_wrt (<) (xs :: nat list) \<Longrightarrow> takeWhile (\<lambda>f. f \<le> n) xs = filter (\<lambda>f. f \<le> n) xs"
proof (induction xs)
  case (Cons x xs)
  then show ?case by (auto simp: filter_empty_conv intro!: sym[OF filter_False])
qed simp

lemma sorted_pop:
  "sorted_wrt (<) (xs :: nat list) \<Longrightarrow> (\<And>a b. a < b \<Longrightarrow> P a \<Longrightarrow> P b) \<Longrightarrow> rev (dropWhile P (rev xs)) = filter (\<lambda>f. \<not> P f) xs"
proof (induction xs rule: rev_induct)
  case (snoc x xs)
  then have ih: "rev (dropWhile P (rev xs)) = filter (\<lambda>f. \<not> P f) xs" by (simp add: sorted_wrt_append)
  show ?case
  proof (cases "P x")
    case False
    then have "\<forall>a\<in>set xs. \<not> P a" using snoc.prems by (auto simp: sorted_wrt_append)
    then show ?thesis using False by simp
  qed (simp add: ih)
qed simp

section \<open>The operations on the slots\<close>

lemma frames_of_pop_tail:
  "distinct (map fst cache) \<Longrightarrow> frames_of (pop_tail P cache) p = rev (dropWhile P (rev (frames_of cache p)))"
proof (induction cache arbitrary: p)
  case (Cons a cache)
  obtain k fs where a: "a = (k, fs)" by (cases a)
  have "frames_of cache k = []" using Cons.prems a by (intro frames_of_absent) simp
  then have "frames_of (pop_tail P cache) k = []" using Cons a by simp
  then show ?case using Cons a by (auto simp: pop_tail_def) (metis dropWhile_eq_Nil_conv set_rev)
qed (simp add: pop_tail_def)

lemma distinct_pop_tail: "distinct (map fst cache) \<Longrightarrow> distinct (map fst (pop_tail P cache))"
proof -
  assume "distinct (map fst cache)"
  then have "distinct (map fst (map (\<lambda>(pg, fs). (pg, rev (dropWhile P (rev fs)))) cache))" by (simp add: case_prod_beta comp_def)
  then show ?thesis unfolding pop_tail_def by (rule distinct_map_filter)
qed

lemma pop_tail_slots:
  assumes "index_ok L sh" "\<And>a b. a < b \<Longrightarrow> P a \<Longrightarrow> P b"
  shows "frames_of (pop_tail P (frame_cache sh)) p = filter (\<lambda>f. \<not> P f) (slots_of L p)"
  using assms sorted_pop[OF slots_of_sorted assms(2)] by (simp add: index_ok_def frames_of_pop_tail)

lemma index_cache_frame:
  assumes "index_ok L sh" "0 < f" "f \<le> Suc (length L)"
  shows "index_ok (take (f - 1) L @ [pg]) (cache_frame pg f sh)"
proof -
  let ?c = "if f \<le> frame_cache_high_water sh then pop_tail (\<lambda>g. g \<ge> f) (frame_cache sh) else frame_cache sh"
  have "frames_of (pop_tail (\<lambda>g. g \<ge> f) (frame_cache sh)) p = slots_of (take (f - 1) L) p" for p
  proof -
    have "frames_of (pop_tail (\<lambda>g. g \<ge> f) (frame_cache sh)) p = filter (\<lambda>g. \<not> f \<le> g) (slots_of L p)"
      by (rule pop_tail_slots[OF assms(1)]) simp
    also have "\<dots> = filter (\<lambda>g. g \<le> f - 1) (slots_of L p)" using assms(2) by (intro filter_cong) auto
    finally show ?thesis by (simp add: slots_of_take)
  qed
  moreover have "frames_of (frame_cache sh) p = slots_of (take (f - 1) L) p" if "\<not> f \<le> frame_cache_high_water sh" for p
    using that assms by (simp add: index_ok_def)
  ultimately have c: "frames_of ?c p = slots_of (take (f - 1) L) p" for p by simp
  have d: "distinct (map fst ?c)" using assms(1) by (simp add: index_ok_def distinct_pop_tail)
  have l: "length (take (f - 1) L) = f - 1" using assms(3) by simp
  show ?thesis
    unfolding index_ok_def cache_frame_def Let_def using c d l assms(2)
    by (simp add: slots_of_snoc distinct_extend)
qed

lemma index_rollback:
  assumes "index_ok L sh"
  shows "index_ok (take n L) (rollback_cache n sh)"
proof -
  have "frames_of (pop_tail (\<lambda>f. f > n) (frame_cache sh)) p = slots_of (take n L) p" for p
    using pop_tail_slots[OF assms, of "\<lambda>f. f > n"] by (simp add: slots_of_take not_less)
  then show ?thesis
    using assms distinct_pop_tail by (auto simp: index_ok_def rollback_cache_def Let_def min_def)
qed

lemma latest_slot: "latest_frame_in_range (slots_of L p) lo hi = newest L lo hi p"
proof -
  let ?s = "slots_of L p" and ?f = "filter (\<lambda>f. f \<le> hi) (slots_of L p)"
  have tw: "takeWhile (\<lambda>f. f \<le> hi) ?s = ?f" by (rule sorted_filter_takeWhile) (rule slots_of_sorted)
  have nf: "filter (\<lambda>f. lo \<le> f \<and> f \<le> hi) ?s = filter (\<lambda>f. lo \<le> f) ?f" by (simp add: conj_commute)
  have srt: "sorted_wrt (<) ?f" by (simp add: sorted_wrt_filter slots_of_sorted)
  show ?thesis
  proof (cases ?f rule: rev_cases)
    case (snoc ys y)
    have "y \<in> set ?f" by (simp add: snoc del: set_filter)
    then have "y \<le> hi" by simp
    moreover have "\<forall>x\<in>set ys. x < y" using snoc srt by (simp add: sorted_wrt_append)
    ultimately show ?thesis using snoc
      by (auto simp: latest_frame_in_range_def newest_def tw nf Let_def filter_empty_conv)
  qed (simp add: latest_frame_in_range_def newest_def tw nf)
qed

lemma index_find:
  assumes "index_ok L sh"
  shows "coord_find_frame pg lo hi None sh = newest L lo hi pg"
    "coord_find_frame pg lo hi (Some w) sh = newest L 0 w pg"
proof -
  have "(case map_of (frame_cache sh) pg of None \<Rightarrow> None | Some fs \<Rightarrow> latest_frame_in_range fs a b) =
      latest_frame_in_range (frames_of (frame_cache sh) pg) a b" for a b
    by (simp add: frames_of_def latest_frame_in_range_def split: option.split)
  then show "coord_find_frame pg lo hi None sh = newest L lo hi pg" "coord_find_frame pg lo hi (Some w) sh = newest L 0 w pg"
    using assms by (simp_all add: coord_find_frame_def index_ok_def latest_slot)
qed

lemma latest_entries_set:
  assumes "distinct (map fst cache)"
  shows "(p, f) \<in> set (latest_entries lo hi cache) \<longleftrightarrow> latest_frame_in_range (frames_of cache p) lo hi = Some f"
  using assms
proof (induction cache)
  case (Cons a cache)
  obtain k fs where a: "a = (k, fs)" by (cases a)
  have "frames_of cache k = []" using Cons.prems a by (intro frames_of_absent) simp
  then show ?case using Cons a by (auto simp: latest_frame_in_range_def[of "[]"] split: option.splits)
qed (simp add: latest_frame_in_range_def)

lemma latest_entries_keys: "fst ` set (latest_entries lo hi cache) \<subseteq> fst ` set cache"
  by (induction lo hi cache rule: latest_entries.induct) (auto split: option.splits)

lemma latest_entries_distinct: "distinct (map fst cache) \<Longrightarrow> distinct (map fst (latest_entries lo hi cache))"
proof (induction lo hi cache rule: latest_entries.induct)
  case (2 mn mx pg frames cache)
  then show ?case using latest_entries_keys[of mn mx cache] by (auto split: option.splits)
qed simp

lemma iter_latest:
  assumes "index_ok L sh"
  shows "(p, f) \<in> set (iter_latest_frames lo hi sh) \<longleftrightarrow> newest L lo hi p = Some f"
    "distinct (map fst (iter_latest_frames lo hi sh))"
proof -
  have d: "distinct (map fst (frame_cache sh))" using assms by (simp add: index_ok_def)
  show "(p, f) \<in> set (iter_latest_frames lo hi sh) \<longleftrightarrow> newest L lo hi p = Some f"
    using latest_entries_set[OF d] assms by (simp add: iter_latest_frames_def index_ok_def latest_slot)
  show "distinct (map fst (iter_latest_frames lo hi sh))"
    using latest_entries_distinct[OF d] by (simp add: iter_latest_frames_def distinct_map)
qed

section \<open>The interface of the index\<close>

lemma newest_take:
  assumes "hi \<le> n"
  shows "newest (take n L) lo hi p = newest L lo hi p"
proof -
  have "filter (\<lambda>f. lo \<le> f \<and> f \<le> hi) (slots_of (take n L) p) = filter (\<lambda>f. lo \<le> f \<and> f \<le> hi) (slots_of L p)"
    unfolding slots_of_take filter_filter by (rule filter_cong) (use assms in auto)
  then show ?thesis by (simp add: newest_def)
qed

lemma newest_Suc: "newest (L @ [q]) lo (Suc (length L)) q = (if lo \<le> Suc (length L) then Some (Suc (length L)) else None)"
  by (auto simp: newest_def slots_of_snoc slots_of_def filter_empty_conv)

lemma newest_agree: "take n L = take n L' \<Longrightarrow> hi \<le> n \<Longrightarrow> newest L lo hi p = newest L' lo hi p"
  using newest_take by metis

text \<open>
  What the rest of the log relies on: a state that stands for the pages in the slots, an operation
  that writes a slot and gives up those after it, one that cuts the log, and a search.
\<close>

locale page_index =
  fixes stands_for :: "nat list \<Rightarrow> 's \<Rightarrow> bool"
    and put_frame :: "nat \<Rightarrow> nat \<Rightarrow> 's \<Rightarrow> 's"
    and cut :: "nat \<Rightarrow> 's \<Rightarrow> 's"
    and search :: "nat \<Rightarrow> nat \<Rightarrow> nat \<Rightarrow> 's \<Rightarrow> nat option"
  assumes put_stands: "stands_for L s \<Longrightarrow> 0 < f \<Longrightarrow> f \<le> Suc (length L) \<Longrightarrow> stands_for (take (f - 1) L @ [p]) (put_frame p f s)"
    and cut_stands: "stands_for L s \<Longrightarrow> stands_for (take n L) (cut n s)"
    and search_stands: "stands_for L s \<Longrightarrow> search p lo hi s = newest L lo hi p"
begin

lemma search_put_above:
  assumes "stands_for L s" "hi < f" "f \<le> Suc (length L)"
  shows "search p lo hi (put_frame q f s) = search p lo hi s"
proof -
  have "newest (take (f - 1) L @ [q]) lo hi p = newest L lo hi p"
    by (rule newest_agree[where n = "f - 1"]) (use assms in auto)
  then show ?thesis using put_stands[OF assms(1) _ assms(3)] search_stands assms by (metis gr0I not_less_zero)
qed

lemma search_put_same:
  assumes "stands_for L s" "0 < f" "f \<le> Suc (length L)" "lo \<le> f"
  shows "search p lo f (put_frame p f s) = Some f"
proof -
  have "Suc (length (take (f - 1) L)) = f" using assms(2,3) by simp
  then show ?thesis
    using newest_Suc[of "take (f - 1) L" p lo] search_stands[OF put_stands[OF assms(1-3)], of p] assms(4) by metis
qed

lemma search_cut_above:
  assumes "stands_for L s" "hi \<le> n"
  shows "search p lo hi (cut n s) = search p lo hi s"
  using search_stands[OF cut_stands[OF assms(1)]] search_stands[OF assms(1)] newest_take[OF assms(2)] by simp

end

interpretation frame_index: page_index index_ok cache_frame rollback_cache "\<lambda>p lo hi. coord_find_frame p lo hi None"
  by unfold_locales (fact index_cache_frame index_rollback index_find(1))+

text \<open>The index that recovery builds stands for the committed frames.\<close>

lemma recovered_index:
  assumes "recovered h fs sh"
  shows "index_ok (map (\<lambda>(pn, _). unat pn) (take (last_commit fs) fs)) sh"
proof -
  have "page_frames fs 0 (last_commit fs) p = slots_of (map (\<lambda>(pn, _). unat pn) (take (last_commit fs) fs)) p" for p
    using last_commit_le[of fs] unfolding page_frames_def slots_of_def
    by (simp del: upt_Suc, intro filter_cong) (auto simp: case_prod_beta min_def)
  then show ?thesis using assms last_commit_le[of fs] by (simp add: recovered_def index_ok_def)
qed

section \<open>Sequences of operations\<close>

datatype index_op = IPut nat nat | ICut nat

fun index_step :: "index_op \<Rightarrow> wal_file_shared \<Rightarrow> wal_file_shared" where
  "index_step (IPut p f) sh = cache_frame p f sh"
| "index_step (ICut n) sh = rollback_cache n sh"

fun slots_step :: "index_op \<Rightarrow> nat list \<Rightarrow> nat list" where
  "slots_step (IPut p f) L = take (f - 1) L @ [p]"
| "slots_step (ICut n) L = take n L"

text \<open>A frame is written inside the log or at its end.\<close>

fun index_ops_ok :: "index_op list \<Rightarrow> nat list \<Rightarrow> bool" where
  "index_ops_ok [] L \<longleftrightarrow> True"
| "index_ops_ok (op # ops) L \<longleftrightarrow>
     (case op of IPut p f \<Rightarrow> 0 < f \<and> f \<le> Suc (length L) | ICut n \<Rightarrow> True) \<and> index_ops_ok ops (slots_step op L)"

lemma index_run:
  "index_ok L sh \<Longrightarrow> index_ops_ok ops L \<Longrightarrow> index_ok (fold slots_step ops L) (fold index_step ops sh)"
proof (induction ops arbitrary: L sh)
  case (Cons op ops)
  have "index_ok (slots_step op L) (index_step op sh)"
    using Cons.prems frame_index.put_stands frame_index.cut_stands by (cases op) auto
  then show ?case using Cons by simp
qed simp

section \<open>Properties\<close>

text \<open>
  C13. After recovery and any sequence of appends, slot reuses and rollbacks, a search finds the newest
  frame of the page in the range among the pages that the slots of the log hold, and the list for a
  checkpoint has exactly the newest frame of each page, once.
\<close>

theorem frame_index_refines:
  assumes "recovered h fs sh0" "index_ops_ok ops (map (\<lambda>(pn, _). unat pn) (take (last_commit fs) fs))"
  defines "L \<equiv> fold slots_step ops (map (\<lambda>(pn, _). unat pn) (take (last_commit fs) fs))"
    and "sh \<equiv> fold index_step ops sh0"
  shows "coord_find_frame p lo hi None sh = newest L lo hi p \<and>
     coord_find_frame p lo hi (Some w) sh = newest L 0 w p \<and>
     set (iter_latest_frames lo hi sh) = {(q, f). newest L lo hi q = Some f} \<and>
     distinct (map fst (iter_latest_frames lo hi sh))"
proof -
  have ok: "index_ok L sh" unfolding L_def sh_def by (rule index_run[OF recovered_index[OF assms(1)] assms(2)])
  show ?thesis using index_find[OF ok] iter_latest[OF ok] by auto
qed

theorem frame_index_refines_witness:
  "\<exists>sh. build_shared_wal False (wal_image sample_header sample_log) = Inr sh \<and>
     coord_find_frame 9 1 5 None (fold index_step [IPut 7 3, IPut 9 4, IPut 8 3] sh) = None \<and>
     coord_find_frame 8 1 5 None (fold index_step [IPut 7 3, IPut 9 4, IPut 8 3] sh) = Some 3"
proof -
  have "frame_at sample_header (unat (wal_page_size sample_header)) ck [] = None" for ck
    by (simp add: frame_at_def WAL_FRAME_HEADER_SIZE_def)
  then obtain sh where sh: "build_shared_wal False (wal_image sample_header sample_log) = Inr sh" "recovered sample_header sample_log sh"
    using build_shared_wal_recovered[OF sample_header_ok sample_log_ok, of "[]" False] by auto
  show ?thesis
    using sh(1) frame_index_refines[OF sh(2), of "[IPut 7 3, IPut 9 4, IPut 8 3]" 9 1 5]
      frame_index_refines[OF sh(2), of "[IPut 7 3, IPut 9 4, IPut 8 3]" 8 1 5]
    by (simp add: sample_log_def newest_def slots_of_def upt_conv_Cons)
qed

end
