(* ===== verification/WalCoord.thy ===== *)
theory WalCoord
  imports WalIndex
begin

text \<open>
  How connections of one process coordinate through the shared state of the log
  (\<open>InProcessWalCoordination\<close> in \<^verbatim>\<open>core/storage/wal.rs\<close>): snapshots, read marks,
  checkpoint guards, the frame up to which a checkpoint may copy, and the restart of the log. An
  operation runs without interference from others here; a snapshot may be stale when it is used.
  \<open>None\<close> as a guard stands for the error \<open>Busy\<close>.
\<close>

section \<open>Snapshots\<close>

record wal_snapshot =
  sn_max_frame :: nat
  sn_nbackfills :: nat
  sn_last_checksum :: "u32 \<times> u32"
  sn_checkpoint_seq :: u32
  sn_transaction_count :: nat

definition sn_min_frame :: "wal_snapshot \<Rightarrow> nat" where
  "sn_min_frame sn = sn_nbackfills sn + 1"

datatype read_guard = GuardNone | DbFile | ReadMark nat

definition NO_LOCK_HELD :: nat where "NO_LOCK_HELD = 2 ^ 64 - 1"

definition from_lock_index :: "nat \<Rightarrow> read_guard" where
  "from_lock_index i = (if i = NO_LOCK_HELD then GuardNone else if i = 0 then DbFile else ReadMark i)"

fun lock_index :: "read_guard \<Rightarrow> nat" where
  "lock_index GuardNone = NO_LOCK_HELD"
| "lock_index DbFile = 0"
| "lock_index (ReadMark i) = i"

definition snapshot_of :: "wal_file_shared \<Rightarrow> wal_snapshot" where
  "snapshot_of sh =
     \<lparr>sn_max_frame = max_frame sh, sn_nbackfills = nbackfills sh, sn_last_checksum = last_checksum sh,
      sn_checkpoint_seq = checkpoint_seq (shared_header sh), sn_transaction_count = transaction_count sh\<rparr>"

definition publish_commit :: "nat \<Rightarrow> u32 \<times> u32 \<Rightarrow> nat \<Rightarrow> wal_file_shared \<Rightarrow> wal_file_shared" where
  "publish_commit mx ck tc sh = sh\<lparr>max_frame := mx, last_checksum := ck, transaction_count := tc\<rparr>"

definition coord_publish_backfill :: "nat \<Rightarrow> wal_file_shared \<Rightarrow> wal_file_shared" where
  "coord_publish_backfill mx sh = sh\<lparr>nbackfills := mx\<rparr>"

definition bump_checkpoint_epoch :: "wal_file_shared \<Rightarrow> wal_file_shared" where
  "bump_checkpoint_epoch sh = sh\<lparr>epoch := epoch sh + 1\<rparr>"

definition mark_initialized :: "wal_file_shared \<Rightarrow> wal_file_shared" where
  "mark_initialized sh = sh\<lparr>initialized := True\<rparr>"

definition prepare_truncate :: "wal_file_shared \<Rightarrow> wal_file_shared result" where
  "prepare_truncate sh = and_then (ensure (enabled sh) Panic) (\<lambda>_. Inr (sh\<lparr>initialized := False\<rparr>))"

section \<open>Locks\<close>

definition on_read_lock :: "(u64 \<Rightarrow> bool \<times> u64) \<Rightarrow> nat \<Rightarrow> wal_file_shared \<Rightarrow> bool \<times> wal_file_shared" where
  "on_read_lock f slot sh =
     (let (ok, w) = f (read_locks sh ! slot) in (ok, sh\<lparr>read_locks := (read_locks sh)[slot := w]\<rparr>))"

definition try_read_mark_shared :: "nat \<Rightarrow> wal_file_shared \<Rightarrow> bool \<times> wal_file_shared" where
  "try_read_mark_shared = on_read_lock (lock_read [])"

definition try_read_mark_exclusive :: "nat \<Rightarrow> wal_file_shared \<Rightarrow> bool \<times> wal_file_shared" where
  "try_read_mark_exclusive = on_read_lock (\<lambda>l. lock_write l l)"

definition try_upgrade_read_mark :: "nat \<Rightarrow> wal_file_shared \<Rightarrow> bool \<times> wal_file_shared" where
  "try_upgrade_read_mark = on_read_lock (\<lambda>l. lock_upgrade l l)"

definition downgrade_read_mark :: "nat \<Rightarrow> wal_file_shared \<Rightarrow> wal_file_shared" where
  "downgrade_read_mark slot sh =
     sh\<lparr>read_locks := (read_locks sh)[slot := lock_downgrade (read_locks sh ! slot)]\<rparr>"

definition unlock_read_mark :: "nat \<Rightarrow> wal_file_shared \<Rightarrow> wal_file_shared result" where
  "unlock_read_mark slot sh =
     and_then (lock_unlock (read_locks sh ! slot)) (\<lambda>w. Inr (sh\<lparr>read_locks := (read_locks sh)[slot := w]\<rparr>))"

definition read_mark_value :: "nat \<Rightarrow> wal_file_shared \<Rightarrow> u32" where
  "read_mark_value slot sh = get_value (read_locks sh ! slot)"

definition set_read_mark_value_exclusive :: "nat \<Rightarrow> u32 \<Rightarrow> wal_file_shared \<Rightarrow> wal_file_shared result" where
  "set_read_mark_value_exclusive slot v sh =
     and_then (set_value_exclusive v (read_locks sh ! slot)) (\<lambda>w.
     Inr (sh\<lparr>read_locks := (read_locks sh)[slot := w]\<rparr>))"

definition try_write_lock :: "wal_file_shared \<Rightarrow> bool \<times> wal_file_shared" where
  "try_write_lock sh = (let (ok, w) = lock_write (write_lock sh) (write_lock sh) in (ok, sh\<lparr>write_lock := w\<rparr>))"

definition unlock_write_lock :: "wal_file_shared \<Rightarrow> wal_file_shared result" where
  "unlock_write_lock sh = and_then (lock_unlock (write_lock sh)) (\<lambda>w. Inr (sh\<lparr>write_lock := w\<rparr>))"

definition try_checkpoint_lock :: "wal_file_shared \<Rightarrow> bool \<times> wal_file_shared" where
  "try_checkpoint_lock sh =
     (let (ok, w) = lock_write (checkpoint_lock sh) (checkpoint_lock sh) in (ok, sh\<lparr>checkpoint_lock := w\<rparr>))"

definition unlock_checkpoint_lock :: "wal_file_shared \<Rightarrow> wal_file_shared result" where
  "unlock_checkpoint_lock sh = and_then (lock_unlock (checkpoint_lock sh)) (\<lambda>w. Inr (sh\<lparr>checkpoint_lock := w\<rparr>))"

fun unlock_read_marks :: "nat list \<Rightarrow> wal_file_shared \<Rightarrow> wal_file_shared result" where
  "unlock_read_marks [] sh = Inr sh"
| "unlock_read_marks (i # is) sh = and_then (unlock_read_mark i sh) (unlock_read_marks is)"

definition min_pinned_read_frame :: "wal_file_shared \<Rightarrow> nat option" where
  "min_pinned_read_frame sh =
     fold (\<lambda>slot mn.
       case held_value (read_locks sh ! slot) of
         None \<Rightarrow> mn
       | Some v \<Rightarrow> if v \<noteq> READMARK_NOT_USED then Some (case mn of None \<Rightarrow> unat v | Some m \<Rightarrow> min m (unat v)) else mn)
       [1..<5] None"

section \<open>Read transactions\<close>

text \<open>The best mark so far is a slot, if any, and its value.\<close>

fun best_read_mark :: "nat \<Rightarrow> nat list \<Rightarrow> nat option \<times> u32 \<Rightarrow> wal_file_shared \<Rightarrow> nat option \<times> u32" where
  "best_read_mark mx [] best sh = best"
| "best_read_mark mx (i # is) (best_idx, best_mark) sh =
     (let mark = read_mark_value i sh
      in best_read_mark mx is
           (if mark \<noteq> READMARK_NOT_USED \<and> mark \<le> of_nat mx \<and> (best_idx = None \<or> mark > best_mark)
            then (Some i, mark) else (best_idx, best_mark)) sh)"

fun claim_read_mark ::
    "nat \<Rightarrow> nat list \<Rightarrow> nat option \<times> u32 \<Rightarrow> wal_file_shared \<Rightarrow> ((nat option \<times> u32) \<times> wal_file_shared) result" where
  "claim_read_mark mx [] best sh = Inr (best, sh)"
| "claim_read_mark mx (i # is) best sh =
     (let (ok, sh) = try_read_mark_exclusive i sh
      in if \<not> ok then claim_read_mark mx is best sh
         else
           and_then (set_read_mark_value_exclusive i (of_nat mx) sh) (\<lambda>sh.
           and_then (unlock_read_mark i sh) (\<lambda>sh.
           Inr ((Some i, of_nat mx), sh))))"

definition pin_read_mark ::
    "wal_snapshot \<Rightarrow> nat option \<times> u32 \<Rightarrow> wal_file_shared \<Rightarrow> (read_guard option \<times> wal_file_shared) result" where
  "pin_read_mark sn best sh =
     (case best of
        (None, _) \<Rightarrow> Inr (None, sh)
      | (Some i, mark) \<Rightarrow>
          let (ok, sh) = try_read_mark_shared i sh
          in if \<not> ok then Inr (None, sh)
             else if read_mark_value i sh \<noteq> mark \<or> snapshot_of sh \<noteq> sn
             then and_then (unlock_read_mark i sh) (\<lambda>sh. Inr (None, sh))
             else Inr (Some (ReadMark i), sh))"

definition coord_try_begin_read_tx ::
    "wal_snapshot \<Rightarrow> wal_file_shared \<Rightarrow> (read_guard option \<times> wal_file_shared) result" where
  "coord_try_begin_read_tx sn sh =
     and_then (ensure (sn_max_frame sn \<le> 2 ^ 32 - 1) Panic) (\<lambda>_.
     let (got, sh) = (if sn_max_frame sn = sn_nbackfills sn then try_read_mark_shared 0 sh else (False, sh))
     in if got then
          (if snapshot_of sh \<noteq> sn then and_then (unlock_read_mark 0 sh) (\<lambda>sh. Inr (None, sh))
           else Inr (Some DbFile, sh))
        else
          let best = best_read_mark (sn_max_frame sn) [1..<5] (None, 0) sh
          in and_then
               (if fst best = None \<or> unat (snd best) < sn_max_frame sn
                then claim_read_mark (sn_max_frame sn) [1..<5] best sh else Inr (best, sh))
               (\<lambda>(best, sh). pin_read_mark sn best sh))"

fun coord_end_read_tx :: "read_guard \<Rightarrow> wal_file_shared \<Rightarrow> wal_file_shared result" where
  "coord_end_read_tx GuardNone sh = Inr sh"
| "coord_end_read_tx DbFile sh = unlock_read_mark 0 sh"
| "coord_end_read_tx (ReadMark i) sh = unlock_read_mark i sh"

section \<open>Checkpoints and restarts\<close>

datatype checkpoint_mode = Passive "nat option" | Full | Restart | Truncate "nat option"

fun should_restart_log :: "checkpoint_mode \<Rightarrow> bool" where
  "should_restart_log (Truncate _) = True"
| "should_restart_log Restart = True"
| "should_restart_log _ = False"

fun require_all_backfilled :: "checkpoint_mode \<Rightarrow> bool" where
  "require_all_backfilled (Passive _) = False"
| "require_all_backfilled _ = True"

datatype checkpoint_guard = GuardRead0 | GuardWriter

text \<open>The lock on read mark 0 and the write lock, for a caller with the checkpoint lock.\<close>

definition acquire_vacuum_checkpoint_guard ::
    "wal_file_shared \<Rightarrow> (checkpoint_guard option \<times> wal_file_shared) result" where
  "acquire_vacuum_checkpoint_guard sh =
     (let (ok, sh) = try_read_mark_exclusive 0 sh
      in if \<not> ok then and_then (unlock_checkpoint_lock sh) (\<lambda>sh. Inr (None, sh))
         else
           let (ok, sh) = try_write_lock sh
           in if \<not> ok then
                and_then (unlock_read_mark 0 sh) (\<lambda>sh.
                and_then (unlock_checkpoint_lock sh) (\<lambda>sh. Inr (None, sh)))
              else Inr (Some GuardWriter, sh))"

definition acquire_checkpoint_guard ::
    "checkpoint_mode \<Rightarrow> wal_file_shared \<Rightarrow> (checkpoint_guard option \<times> wal_file_shared) result" where
  "acquire_checkpoint_guard mode sh =
     (let (ok, sh) = try_checkpoint_lock sh
      in if \<not> ok then Inr (None, sh)
         else case mode of
           Passive _ \<Rightarrow>
             (let (ok, sh) = try_read_mark_exclusive 0 sh
              in if \<not> ok then and_then (unlock_checkpoint_lock sh) (\<lambda>sh. Inr (None, sh))
                 else Inr (Some GuardRead0, sh))
         | Full \<Rightarrow>
             (let (ok, sh) = try_read_mark_exclusive 0 sh
              in if \<not> ok then and_then (unlock_checkpoint_lock sh) (\<lambda>sh. Inr (None, sh))
                 else
                   let (ok, sh) = try_write_lock sh
                   in if \<not> ok then
                        and_then (unlock_read_mark 0 sh) (\<lambda>sh.
                        and_then (unlock_checkpoint_lock sh) (\<lambda>sh. Inr (None, sh)))
                      else Inr (Some GuardWriter, sh))
         | _ \<Rightarrow>
             (let (ok, sh) = try_read_mark_exclusive 0 sh
              in if \<not> ok then and_then (unlock_checkpoint_lock sh) (\<lambda>sh. Inr (None, sh))
                 else
                   let (ok, sh) = try_write_lock sh
                   in if \<not> ok then
                        and_then (unlock_checkpoint_lock sh) (\<lambda>sh.
                        and_then (unlock_read_mark 0 sh) (\<lambda>sh. Inr (None, sh)))
                      else Inr (Some GuardWriter, sh)))"

fun release_checkpoint_guard :: "checkpoint_guard \<Rightarrow> wal_file_shared \<Rightarrow> wal_file_shared result" where
  "release_checkpoint_guard GuardWriter sh =
     and_then (unlock_write_lock sh) (\<lambda>sh.
     and_then (unlock_read_mark 0 sh) unlock_checkpoint_lock)"
| "release_checkpoint_guard GuardRead0 sh = and_then (unlock_read_mark 0 sh) unlock_checkpoint_lock"

fun safe_frame_loop :: "nat list \<Rightarrow> nat \<Rightarrow> wal_file_shared \<Rightarrow> (nat \<times> wal_file_shared) result" where
  "safe_frame_loop [] mx sh = Inr (mx, sh)"
| "safe_frame_loop (i # is) mx sh =
     (let this_mark = read_mark_value i sh
      in if this_mark < of_nat mx then
           let (ok, sh) = try_read_mark_exclusive i sh
           in if ok then
                and_then (set_read_mark_value_exclusive i (if i = 1 then of_nat mx else READMARK_NOT_USED) sh) (\<lambda>sh.
                and_then (unlock_read_mark i sh) (safe_frame_loop is mx))
              else safe_frame_loop is (unat this_mark) sh
         else safe_frame_loop is mx sh)"

definition coord_max_safe_frame :: "nat \<Rightarrow> wal_file_shared \<Rightarrow> (nat \<times> wal_file_shared) result" where
  "coord_max_safe_frame mx sh = and_then (ensure (mx \<le> 2 ^ 32 - 1) Panic) (\<lambda>_. safe_frame_loop [1..<5] mx sh)"

fun set_marks :: "(nat \<times> u32) list \<Rightarrow> wal_file_shared \<Rightarrow> wal_file_shared result" where
  "set_marks [] sh = Inr sh"
| "set_marks ((i, v) # ms) sh = and_then (set_read_mark_value_exclusive i v sh) (set_marks ms)"

definition restart_wal_header :: "u32 \<Rightarrow> wal_file_shared \<Rightarrow> wal_file_shared result" where
  "restart_wal_header random sh =
     (let h = shared_header sh;
          h = h\<lparr>checkpoint_seq := checkpoint_seq h + 1, salt_1 := salt_1 h + 1, salt_2 := random\<rparr>;
          sh = sh\<lparr>shared_header := h, max_frame := 0, nbackfills := 0,
                  last_checksum := (checksum_1 h, checksum_2 h), initialized := False,
                  frame_cache := [], frame_cache_high_water := 0\<rparr>
      in set_marks ([(0, 0), (1, 0)] @ map (\<lambda>i. (i, READMARK_NOT_USED)) [2..<5]) sh)"

text \<open>Takes all read marks but 0; on failure those taken so far, \<open>held\<close>, are released.\<close>

fun lock_read_marks :: "nat list \<Rightarrow> nat list \<Rightarrow> wal_file_shared \<Rightarrow> (bool \<times> wal_file_shared) result" where
  "lock_read_marks held [] sh = Inr (True, sh)"
| "lock_read_marks held (i # is) sh =
     (let (ok, sh) = try_read_mark_exclusive i sh
      in if \<not> ok then and_then (unlock_read_marks held sh) (\<lambda>sh. Inr (False, sh))
         else
           and_then (set_read_mark_value_exclusive i READMARK_NOT_USED sh) (\<lambda>sh.
           lock_read_marks (held @ [i]) is sh))"

definition begin_restart :: "u32 \<Rightarrow> wal_file_shared \<Rightarrow> (wal_snapshot option \<times> wal_file_shared) result" where
  "begin_restart random sh =
     and_then (lock_read_marks [] [1..<5] sh) (\<lambda>(ok, sh).
     if \<not> ok then Inr (None, sh)
     else and_then (restart_wal_header random sh) (\<lambda>sh. Inr (Some (snapshot_of sh), sh)))"

definition end_restart :: "wal_file_shared \<Rightarrow> wal_file_shared result" where
  "end_restart sh = unlock_read_marks [1..<5] sh"

text \<open>The outcomes: not the only reader of mark 0, busy, or restarted.\<close>

datatype restart_outcome = NotUpgraded | RestartBusy | Restarted wal_snapshot

definition try_restart_log_for_write :: "u32 \<Rightarrow> wal_file_shared \<Rightarrow> (restart_outcome \<times> wal_file_shared) result" where
  "try_restart_log_for_write random sh =
     (let (ok, sh) = try_upgrade_read_mark 0 sh
      in if \<not> ok then Inr (NotUpgraded, sh)
         else
           and_then (begin_restart random sh) (\<lambda>(res, sh).
           let sh = downgrade_read_mark 0 sh
           in case res of
                None \<Rightarrow> Inr (RestartBusy, sh)
              | Some sn \<Rightarrow> and_then (end_restart sh) (\<lambda>sh. Inr (Restarted sn, sh))))"

section \<open>The locks as states\<close>

text \<open>A lock as a writer flag, a number of readers and a value.\<close>

type_synonym mark = "bool \<times> nat \<times> u32"

definition lock_of :: "mark \<Rightarrow> u64" where
  "lock_of = (\<lambda>(w, n, v). pack_lock w n v)"

definition mark_ok :: "mark \<Rightarrow> bool" where
  "mark_ok = (\<lambda>(w, n, v). n < 2 ^ 31 \<and> (w \<longrightarrow> n = 0))"

definition free :: "mark \<Rightarrow> bool" where
  "free = (\<lambda>(w, n, v). \<not> w \<and> n = 0)"

lemma lock_write_of: "mark_ok m \<Longrightarrow> lock_write (lock_of m) (lock_of m) =
    (if free m then (True, lock_of (True, 0, snd (snd m))) else (False, lock_of m))"
  by (cases m) (auto simp: lock_write_def lock_of_def mark_ok_def free_def has_writer_pack has_readers_pack
      compare_exchange_def write_pack)

lemma lock_read_alone: "lock_read [] l = (if has_writer l then (False, l) else (True, l + READER_INC))"
proof -
  have "lock_read [] l = lock_read_loop (Suc 999999) [] l"
    unfolding lock_read_def by (rule arg_cong[where f = "\<lambda>n. lock_read_loop n [] l"]) simp
  then show ?thesis by (simp only: lock_read_loop.simps(2) compare_exchange_def Let_def list.case) simp
qed

lemma lock_read_of: "mark_ok m \<Longrightarrow> lock_read [] (lock_of m) =
    (if fst m then (False, lock_of m) else (True, lock_of (False, Suc (fst (snd m)), snd (snd m))))"
  by (cases m) (auto simp: lock_read_alone lock_of_def mark_ok_def has_writer_pack read_pack)

lemma lock_upgrade_of: "mark_ok m \<Longrightarrow> lock_upgrade (lock_of m) (lock_of m) =
    (if \<not> fst m \<and> fst (snd m) = 1 then (True, lock_of (True, 0, snd (snd m))) else (False, lock_of m))"
  by (cases m) (auto simp: lock_upgrade_def lock_of_def mark_ok_def single_reader_pack compare_exchange_def upgrade_pack Let_def)

lemma lock_downgrade_of: "fst m \<Longrightarrow> mark_ok m \<Longrightarrow> lock_downgrade (lock_of m) = lock_of (False, 1, snd (snd m))"
  by (cases m) (auto simp: lock_downgrade_def lock_of_def mark_ok_def downgrade_pack)

lemma lock_unlock_of: "mark_ok m \<Longrightarrow> \<not> free m \<Longrightarrow>
    lock_unlock (lock_of m) = Inr (lock_of (False, fst (snd m) - 1, snd (snd m)))"
proof (cases m)
  case (fields w n v)
  assume m: "mark_ok m" "\<not> free m"
  have "pack_lock w n v AND WRITER \<noteq> 0 \<longleftrightarrow> w" using m has_writer_pack[of n w v] by (simp add: fields mark_ok_def has_writer_def)
  then show ?thesis using m fields has_readers_pack[of n w v]
    by (cases n) (auto simp: lock_unlock_def lock_unlock_at_def lock_of_def mark_ok_def free_def ensure_def unwrite_pack unread_pack)
qed

lemma set_value_of: "mark_ok m \<Longrightarrow> fst m \<Longrightarrow> set_value_exclusive v (lock_of m) = Inr (lock_of (True, 0, v))"
  by (cases m) (auto simp: set_value_exclusive_def lock_of_def mark_ok_def has_writer_pack value_pack ensure_def)

lemma get_value_of [simp]: "mark_ok m \<Longrightarrow> get_value (lock_of m) = snd (snd m)"
  by (cases m) (auto simp: lock_of_def mark_ok_def get_value_pack)

definition marks_are :: "mark list \<Rightarrow> wal_file_shared \<Rightarrow> bool" where
  "marks_are M sh \<longleftrightarrow> read_locks sh = map lock_of M \<and> list_all mark_ok M"

definition set_mark :: "nat \<Rightarrow> mark \<Rightarrow> wal_file_shared \<Rightarrow> wal_file_shared" where
  "set_mark i m sh = sh\<lparr>read_locks := (read_locks sh)[i := lock_of m]\<rparr>"

lemma marks_are_set: "marks_are M sh \<Longrightarrow> mark_ok m \<Longrightarrow> marks_are (M[i := m]) (set_mark i m sh)"
  by (auto simp: marks_are_def set_mark_def map_update list_all_iff dest: set_update_subset_insert[THEN subsetD])

lemma marks_nth: "marks_are M sh \<Longrightarrow> i < length M \<Longrightarrow> read_locks sh ! i = lock_of (M ! i) \<and> mark_ok (M ! i)"
  by (simp add: marks_are_def list_all_length)

lemma set_mark_same:
  assumes "marks_are M sh" "i < length M"
  shows "sh\<lparr>read_locks := (read_locks sh)[i := lock_of (M ! i)]\<rparr> = sh"
proof -
  have "(read_locks sh)[i := lock_of (M ! i)] = read_locks sh" using marks_nth[OF assms] by (metis list_update_id)
  then show ?thesis by simp
qed

lemma mark_ops:
  assumes "marks_are M sh" "i < length M"
  shows "try_read_mark_exclusive i sh =
      (if free (M ! i) then (True, set_mark i (True, 0, snd (snd (M ! i))) sh) else (False, sh))"
    "try_read_mark_shared i sh =
      (if fst (M ! i) then (False, sh) else (True, set_mark i (False, Suc (fst (snd (M ! i))), snd (snd (M ! i))) sh))"
    "try_upgrade_read_mark i sh =
      (if \<not> fst (M ! i) \<and> fst (snd (M ! i)) = 1 then (True, set_mark i (True, 0, snd (snd (M ! i))) sh) else (False, sh))"
    "fst (M ! i) \<Longrightarrow> downgrade_read_mark i sh = set_mark i (False, 1, snd (snd (M ! i))) sh"
    "\<not> free (M ! i) \<Longrightarrow> unlock_read_mark i sh = Inr (set_mark i (False, fst (snd (M ! i)) - 1, snd (snd (M ! i))) sh)"
    "fst (M ! i) \<Longrightarrow> set_read_mark_value_exclusive i v sh = Inr (set_mark i (True, 0, v) sh)"
    "read_mark_value i sh = snd (snd (M ! i))"
  using marks_nth[OF assms]
  by (simp_all add: set_mark_same[OF assms] try_read_mark_exclusive_def try_read_mark_shared_def try_upgrade_read_mark_def downgrade_read_mark_def
      unlock_read_mark_def set_read_mark_value_exclusive_def read_mark_value_def on_read_lock_def set_mark_def
      lock_write_of lock_read_of lock_upgrade_of lock_downgrade_of lock_unlock_of set_value_of)

section \<open>Effects on the read marks\<close>

text \<open>Only the values of free marks differ.\<close>

definition idle_step :: "mark list \<Rightarrow> mark list \<Rightarrow> bool" where
  "idle_step M M' \<longleftrightarrow> length M' = length M \<and> (\<forall>i<length M. M' ! i = M ! i \<or> free (M ! i) \<and> free (M' ! i))"

lemma idle_refl [simp]: "idle_step M M"
  by (simp add: idle_step_def)

lemma idle_trans: "idle_step M M1 \<Longrightarrow> idle_step M1 M2 \<Longrightarrow> idle_step M M2"
  unfolding idle_step_def by (metis (no_types))

lemma idle_update: "i < length M \<Longrightarrow> free (M ! i) \<Longrightarrow> idle_step M (M[i := (False, 0, v)])"
  by (auto simp: idle_step_def free_def nth_list_update)

definition same_but_marks :: "wal_file_shared \<Rightarrow> wal_file_shared \<Rightarrow> bool" where
  "same_but_marks sh sh' \<longleftrightarrow> (\<exists>ls. sh' = sh\<lparr>read_locks := ls\<rparr>)"

lemma same_but_marks_refl [simp]: "same_but_marks sh sh"
  unfolding same_but_marks_def by (rule exI[of _ "read_locks sh"]) simp

lemma same_but_marks_set [simp]: "same_but_marks sh (set_mark i m sh)"
  by (auto simp: same_but_marks_def set_mark_def)

lemma same_but_marks_trans: "same_but_marks sh sh1 \<Longrightarrow> same_but_marks sh1 sh2 \<Longrightarrow> same_but_marks sh sh2"
  by (auto simp: same_but_marks_def)

lemma same_but_marks_fields:
  assumes "same_but_marks sh sh'"
  shows "snapshot_of sh' = snapshot_of sh" "frame_cache sh' = frame_cache sh" "frame_cache_high_water sh' = frame_cache_high_water sh"
    "max_frame sh' = max_frame sh" "nbackfills sh' = nbackfills sh" "write_lock sh' = write_lock sh"
    "checkpoint_lock sh' = checkpoint_lock sh" "vacuum_lock sh' = vacuum_lock sh" "shared_header sh' = shared_header sh"
    "initialized sh' = initialized sh"
  using assms by (auto simp: same_but_marks_def snapshot_of_def)

lemma snapshot_of_set_mark [simp]: "snapshot_of (set_mark i m sh) = snapshot_of sh"
  by (rule same_but_marks_fields) simp

lemma set_mark_mark [simp]: "set_mark i a (set_mark i b sh) = set_mark i a sh"
  by (simp add: set_mark_def)

lemma set_mark_id: "marks_are M sh \<Longrightarrow> i < length M \<Longrightarrow> set_mark i (M ! i) sh = sh"
  unfolding set_mark_def by (rule set_mark_same)

lemma refresh_mark:
  assumes "marks_are M sh" "i < length M" "free (M ! i)"
  shows "and_then (set_read_mark_value_exclusive i v (set_mark i (True, 0, u) sh)) (\<lambda>sh. and_then (unlock_read_mark i sh) f) =
     f (set_mark i (False, 0, v) sh)"
proof -
  have m: "marks_are (M[i := (True, 0, w)]) (set_mark i (True, 0, w) sh)" for w
    by (rule marks_are_set[OF assms(1)]) (simp add: mark_ok_def)
  show ?thesis using mark_ops(6)[OF m, of i u v] mark_ops(5)[OF m, of i v] assms(2) by (simp add: free_def)
qed

lemma claim_read_mark_cases:
  assumes "marks_are M sh" "\<forall>i\<in>set is. i < length M"
  obtains "claim_read_mark mx is best sh = Inr (best, sh)"
  | i where "i \<in> set is" "free (M ! i)" "claim_read_mark mx is best sh = Inr ((Some i, of_nat mx), set_mark i (False, 0, of_nat mx) sh)"
  using assms(2)
proof (induction "is" arbitrary: thesis)
  case (Cons i "is")
  show ?case
  proof (cases "free (M ! i)")
    case True
    have "claim_read_mark mx (i # is) best sh = Inr ((Some i, of_nat mx), set_mark i (False, 0, of_nat mx) sh)"
      using True Cons.prems(3) refresh_mark[OF assms(1), of i "of_nat mx" "snd (snd (M ! i))" "\<lambda>sh. Inr ((Some i, of_nat mx), sh)"]
      by (simp add: mark_ops(1)[OF assms(1)])
    then show ?thesis using Cons.prems(2)[of i] True by simp
  next
    case False
    then have e: "claim_read_mark mx (i # is) best sh = claim_read_mark mx is best sh"
      using Cons.prems(3) mark_ops(1)[OF assms(1)] by simp
    show ?thesis by (rule Cons.IH) (use Cons.prems e in auto)
  qed
qed simp

definition best_ok :: "mark list \<Rightarrow> nat \<Rightarrow> nat option \<times> u32 \<Rightarrow> bool" where
  "best_ok M mx best \<longleftrightarrow>
     (case fst best of None \<Rightarrow> True
      | Some i \<Rightarrow> 0 < i \<and> i < length M \<and> snd best = snd (snd (M ! i)) \<and> snd best \<le> of_nat mx)"

lemma best_read_mark_ok:
  assumes "marks_are M sh" "\<forall>i\<in>set is. 0 < i \<and> i < length M" "best_ok M mx best"
  shows "best_ok M mx (best_read_mark mx is best sh)"
  using assms(2,3)
proof (induction "is" arbitrary: best)
  case (Cons i "is")
  obtain bi bm where b: "best = (bi, bm)" by (cases best)
  let ?b = "if read_mark_value i sh \<noteq> READMARK_NOT_USED \<and> read_mark_value i sh \<le> of_nat mx \<and> (bi = None \<or> read_mark_value i sh > bm)
    then (Some i, read_mark_value i sh) else (bi, bm)"
  have "best_ok M mx ?b" using Cons.prems b mark_ops(7)[OF assms(1)] by (simp add: best_ok_def)
  then show ?case using Cons b by (simp add: Let_def)
qed simp

lemma pin_read_mark_cases:
  assumes "marks_are M sh" "best_ok M mx best" "\<forall>i<length M. Suc (fst (snd (M ! i))) < 2 ^ 31"
  obtains "pin_read_mark sn best sh = Inr (None, sh)"
  | i n where "pin_read_mark sn best sh = Inr (Some (ReadMark i), set_mark i (False, Suc n, snd best) sh)"
      "0 < i" "i < length M" "M ! i = (False, n, snd best)" "snd best \<le> of_nat mx" "snapshot_of sh = sn"
proof (cases "fst best")
  case None
  then show ?thesis using that(1) by (simp add: pin_read_mark_def case_prod_beta)
next
  case (Some i)
  then have i: "0 < i" "i < length M" "snd best = snd (snd (M ! i))" "snd best \<le> of_nat mx"
    using assms(2) by (auto simp: best_ok_def)
  obtain w n v where m: "M ! i = (w, n, v)" by (cases "M ! i")
  have best: "best = (Some i, v)" using Some i(3) m by (metis prod.collapse snd_conv)
  have mok: "mark_ok (False, Suc n, v)" using assms(3) i(2) m by (auto simp: mark_ok_def)
  note ops = mark_ops[OF assms(1) i(2)]
  note ops' = mark_ops[OF marks_are_set[OF assms(1) mok, of i], of i]
  show ?thesis
  proof (cases w)
    case True
    then show ?thesis using that(1) best ops(2) m by (simp add: pin_read_mark_def)
  next
    case False
    have undo: "unlock_read_mark i (set_mark i (False, Suc n, v) sh) = Inr sh"
      using ops'(5) i(2) m False set_mark_id[OF assms(1) i(2)] by (simp add: free_def)
    show ?thesis
    proof (cases "snapshot_of sh = sn")
      case True
      then show ?thesis using that(2)[of i n] False best ops(2) ops'(7) i m by (simp add: pin_read_mark_def)
    next
      case ne: False
      then show ?thesis using that(1) False best ops(2) m undo by (simp add: pin_read_mark_def)
    qed
  qed
qed

lemma choose_read_mark:
  assumes "marks_are M sh" "length M = 5" "best_ok M mx best"
  obtains M1 sh1 best1 where
    "(if fst best = None \<or> unat (snd best) < mx then claim_read_mark mx [1..<5] best sh else Inr (best, sh)) = Inr (best1, sh1)"
    "same_but_marks sh sh1" "marks_are M1 sh1" "idle_step M M1" "best_ok M1 mx best1"
proof (cases "fst best = None \<or> unat (snd best) < mx")
  case True
  have l: "\<forall>i\<in>set [1..<5]. i < length M" using assms(2) by auto
  show ?thesis
  proof (rule claim_read_mark_cases[OF assms(1) l, of mx best])
    assume "claim_read_mark mx [1..<5] best sh = Inr (best, sh)"
    then show ?thesis using that[of best sh M] True assms by simp
  next
    fix i assume i: "i \<in> set [1..<5]" "free (M ! i)"
      "claim_read_mark mx [1..<5] best sh = Inr ((Some i, of_nat mx), set_mark i (False, 0, of_nat mx) sh)"
    have "marks_are (M[i := (False, 0, of_nat mx)]) (set_mark i (False, 0, of_nat mx) sh)"
      by (rule marks_are_set[OF assms(1)]) (simp add: mark_ok_def)
    moreover have "best_ok (M[i := (False, 0, of_nat mx)]) mx (Some i, of_nat mx)" using i(1) assms(2) by (simp add: best_ok_def)
    moreover have "idle_step M (M[i := (False, 0, of_nat mx)])" using i assms(2) by (intro idle_update) auto
    ultimately show ?thesis using that[of "(Some i, of_nat mx)" "set_mark i (False, 0, of_nat mx) sh"] True i(3) by simp
  qed
next
  case False
  show ?thesis by (rule that[of best sh M]) (use False assms in auto)
qed

lemma begin_read_spec:
  assumes "marks_are M sh" "length M = 5" "\<forall>i<5. Suc (fst (snd (M ! i))) < 2 ^ 31" "sn_max_frame sn < 2 ^ 32"
  obtains M' sh' where "coord_try_begin_read_tx sn sh = Inr (None, sh')" "same_but_marks sh sh'" "marks_are M' sh'" "idle_step M M'"
  | n v where "coord_try_begin_read_tx sn sh = Inr (Some DbFile, set_mark 0 (False, Suc n, v) sh)" "M ! 0 = (False, n, v)"
      "snapshot_of sh = sn" "sn_max_frame sn = sn_nbackfills sn"
  | M1 sh1 i n v where "coord_try_begin_read_tx sn sh = Inr (Some (ReadMark i), set_mark i (False, Suc n, v) sh1)"
      "same_but_marks sh sh1" "marks_are M1 sh1" "idle_step M M1" "0 < i" "i < 5" "M1 ! i = (False, n, v)"
      "unat v \<le> sn_max_frame sn" "snapshot_of sh = sn"
proof -
  let ?mx = "sn_max_frame sn"
  obtain w n v where m0: "M ! 0 = (w, n, v)" by (cases "M ! 0")
  have l: "\<forall>i\<in>set [1..<5]. 0 < i \<and> i < length M" using assms(2) by auto
  define best where "best = best_read_mark ?mx [1..<5] (None, 0) sh"
  have best: "best_ok M ?mx best" unfolding best_def by (rule best_read_mark_ok[OF assms(1) l]) (simp add: best_ok_def)
  have mx: "unat (of_nat ?mx :: u32) = ?mx" using assms(4) by (simp add: unat_of_nat)
  from choose_read_mark[OF assms(1,2) best] obtain M1 sh1 best1 where C1:
    "(if fst best = None \<or> unat (snd best) < ?mx then claim_read_mark ?mx [1..<5] best sh else Inr (best, sh)) = Inr (best1, sh1)"
    "same_but_marks sh sh1" "marks_are M1 sh1" "idle_step M M1" "best_ok M1 ?mx best1" .
  note op0 = mark_ops[OF assms(1), of 0, unfolded m0 assms(2), simplified]
  show ?thesis
  proof (cases "?mx = sn_nbackfills sn \<and> \<not> w")
    case True
    have mok: "mark_ok (False, Suc n, v)" using assms(3)[rule_format, of 0] m0 by (auto simp: mark_ok_def)
    have undo: "unlock_read_mark 0 (set_mark 0 (False, Suc n, v) sh) = Inr sh"
      using mark_ops(5)[OF marks_are_set[OF assms(1) mok, of 0], of 0] assms(2) m0 True set_mark_id[OF assms(1), of 0]
      by (simp add: free_def)
    show ?thesis
    proof (cases "snapshot_of sh = sn")
      case sn: True
      then show ?thesis using that(2)[of n v] True op0(2) m0 assms(4) by (simp add: coord_try_begin_read_tx_def)
    next
      case False
      then show ?thesis using that(1)[of sh M] True op0(2) undo assms by (simp add: coord_try_begin_read_tx_def)
    qed
  next
    case False
    then have run: "coord_try_begin_read_tx sn sh = pin_read_mark sn best1 sh1"
      using op0(2) C1(1) assms(4) unfolding best_def by (auto simp: coord_try_begin_read_tx_def Let_def)
    have len: "length M1 = 5" using C1(4) assms(2) by (simp add: idle_step_def)
    have rd: "fst (snd (M1 ! i)) = fst (snd (M ! i))" if "i < 5" for i
      using C1(4) that assms(2) unfolding idle_step_def free_def by (metis (mono_tags, lifting) case_prod_beta)
    have room: "\<forall>i<length M1. Suc (fst (snd (M1 ! i))) < 2 ^ 31" using assms(3) len rd by simp
    have sn1: "snapshot_of sh1 = snapshot_of sh" using same_but_marks_fields(1)[OF C1(2)] .
    show ?thesis
    proof (rule pin_read_mark_cases[OF C1(3,5) room, of sn])
      assume "pin_read_mark sn best1 sh1 = Inr (None, sh1)"
      then show ?thesis using that(1)[of sh1 M1] run C1 by simp
    next
      fix i n assume "pin_read_mark sn best1 sh1 = Inr (Some (ReadMark i), set_mark i (False, Suc n, snd best1) sh1)"
        "0 < i" "i < length M1" "M1 ! i = (False, n, snd best1)" "snd best1 \<le> of_nat ?mx" "snapshot_of sh1 = sn"
      then show ?thesis using that(3)[of i n "snd best1" sh1 M1] run C1 len mx sn1 by (simp add: word_le_nat_alt)
    qed
  qed
qed

text \<open>The limit of a checkpoint: the lowest mark of a slot that is in use.\<close>

definition lower_to :: "mark list \<Rightarrow> nat \<Rightarrow> nat \<Rightarrow> nat" where
  "lower_to M i mx = (if free (M ! i) then mx else min mx (unat (snd (snd (M ! i)))))"

lemma lower_to_le: "lower_to M i mx \<le> mx"
  by (simp add: lower_to_def)

lemma safe_frame_loop_spec:
  assumes "mx < 2 ^ 32" "marks_are M sh" "\<forall>i\<in>set is. i < length M" "distinct is"
  shows "\<exists>M' sh'. safe_frame_loop is mx sh = Inr (fold (lower_to M) is mx, sh') \<and>
     same_but_marks sh sh' \<and> marks_are M' sh' \<and> idle_step M M'"
  using assms
proof (induction "is" arbitrary: mx M sh)
  case (Cons i "is")
  obtain w n v where m: "M ! i = (w, n, v)" by (cases "M ! i")
  have i: "i < length M" "i \<notin> set is" using Cons.prems by auto
  note ops = mark_ops[OF Cons.prems(2) i(1)]
  have lt: "v < of_nat mx \<longleftrightarrow> unat v < mx" using Cons.prems(1) by (simp add: word_less_nat_alt unat_of_nat)
  show ?case
  proof (cases "free (M ! i)")
    case False
    then have "safe_frame_loop (i # is) mx sh = safe_frame_loop is (lower_to M i mx) sh"
      using ops(1,7) m lt by (simp add: lower_to_def)
    moreover have "lower_to M i mx < 2 ^ 32" using Cons.prems(1) lower_to_le[of M i mx] by simp
    ultimately show ?thesis using Cons.IH[of "lower_to M i mx" M sh] Cons.prems by simp
  next
    case True
    define u :: u32 where "u = (if i = 1 then of_nat mx else READMARK_NOT_USED)"
    define M1 where "M1 = (if unat v < mx then M[i := (False, 0, u)] else M)"
    define sh1 where "sh1 = (if unat v < mx then set_mark i (False, 0, u) sh else sh)"
    have run: "safe_frame_loop (i # is) mx sh = safe_frame_loop is mx sh1"
      using ops(1,7) m lt True refresh_mark[OF Cons.prems(2) i(1) True, of u "snd (snd (M ! i))" "safe_frame_loop is mx"]
      by (simp add: sh1_def u_def Let_def)
    have M1: "marks_are M1 sh1" "same_but_marks sh sh1" "idle_step M M1" "length M1 = length M"
      using marks_are_set[OF Cons.prems(2), of "(False, 0, u)" i] idle_update[OF i(1) True] Cons.prems(2)
      by (simp_all add: M1_def sh1_def mark_ok_def)
    have "M1 ! x = M ! x" if "x \<in> set is" for x
    proof -
      have "i \<noteq> x" using that i(2) by blast
      then show ?thesis by (simp add: M1_def)
    qed
    then have "fold (lower_to M1) is mx = fold (lower_to M) is mx"
      by (intro fold_cong) (auto simp: lower_to_def fun_eq_iff)
    then have run1: "fold (lower_to M1) is mx = fold (lower_to M) (i # is) mx" using True by (simp add: lower_to_def)
    have "\<forall>j\<in>set is. j < length M1" "distinct is" using Cons.prems M1(4) by auto
    from Cons.IH[OF Cons.prems(1) M1(1) this] obtain M' sh' where
      "safe_frame_loop is mx sh1 = Inr (fold (lower_to M1) is mx, sh')" "same_but_marks sh1 sh'" "marks_are M' sh'" "idle_step M1 M'"
      by blast
    then show ?thesis
      using run run1 same_but_marks_trans[OF M1(2)] idle_trans[OF M1(3)] by (intro exI[of _ M'] exI[of _ sh']) simp
  qed
qed auto

lemma lower_fold_le: "fold (lower_to M) is mx \<le> mx"
proof (induction "is" arbitrary: mx)
  case (Cons i "is")
  show ?case using le_trans[OF Cons lower_to_le] by simp
qed simp

lemma lower_fold_mark: "i \<in> set is \<Longrightarrow> \<not> free (M ! i) \<Longrightarrow> fold (lower_to M) is mx \<le> unat (snd (snd (M ! i)))"
proof (induction "is" arbitrary: mx)
  case (Cons j "is")
  show ?case
  proof (cases "i = j")
    case True
    then have "lower_to M j mx \<le> unat (snd (snd (M ! i)))" using Cons.prems by (simp add: lower_to_def)
    then show ?thesis using lower_fold_le[of M "is" "lower_to M j mx"] by simp
  qed (use Cons in simp)
qed simp

definition release_marks :: "nat set \<Rightarrow> mark list \<Rightarrow> mark list" where
  "release_marks S M = map (\<lambda>j. if j \<in> S then (False, 0, snd (snd (M ! j))) else M ! j) [0..<length M]"

definition take_marks :: "nat set \<Rightarrow> mark list \<Rightarrow> mark list" where
  "take_marks S M = map (\<lambda>j. if j \<in> S then (True, 0, READMARK_NOT_USED) else M ! j) [0..<length M]"

lemma length_marks [simp]: "length (release_marks S M) = length M" "length (take_marks S M) = length M"
  by (simp_all add: release_marks_def take_marks_def)

lemma nth_marks [simp]:
  "j < length M \<Longrightarrow> release_marks S M ! j = (if j \<in> S then (False, 0, snd (snd (M ! j))) else M ! j)"
  "j < length M \<Longrightarrow> take_marks S M ! j = (if j \<in> S then (True, 0, READMARK_NOT_USED) else M ! j)"
  by (simp_all add: release_marks_def take_marks_def)

lemma unlock_read_marks_spec:
  "marks_are M sh \<Longrightarrow> \<forall>i\<in>set is. i < length M \<and> fst (M ! i) \<Longrightarrow> distinct is \<Longrightarrow>
     \<exists>sh'. unlock_read_marks is sh = Inr sh' \<and> same_but_marks sh sh' \<and> marks_are (release_marks (set is) M) sh'"
proof (induction "is" arbitrary: M sh)
  case Nil
  then show ?case by (auto simp: release_marks_def map_nth)
next
  case (Cons i "is")
  let ?m = "(False, 0, snd (snd (M ! i)))"
  have i: "i < length M" "fst (M ! i)" "i \<notin> set is" using Cons.prems by auto
  have n: "fst (snd (M ! i)) = 0" "\<not> free (M ! i)"
    using marks_nth[OF Cons.prems(1) i(1)] i(2) by (auto simp: mark_ok_def free_def)
  have run: "unlock_read_mark i sh = Inr (set_mark i ?m sh)" using mark_ops(5)[OF Cons.prems(1) i(1) n(2)] n(1) by simp
  have m: "marks_are (M[i := ?m]) (set_mark i ?m sh)" by (rule marks_are_set[OF Cons.prems(1)]) (simp add: mark_ok_def)
  have "\<forall>j\<in>set is. j < length (M[i := ?m]) \<and> fst (M[i := ?m] ! j)" "distinct is" using Cons.prems i(3) by (auto simp: nth_list_update)
  from Cons.IH[OF m this] obtain sh' where sh': "unlock_read_marks is (set_mark i ?m sh) = Inr sh'"
    "same_but_marks (set_mark i ?m sh) sh'" "marks_are (release_marks (set is) (M[i := ?m])) sh'" by blast
  have "release_marks (set is) (M[i := ?m]) = release_marks (set (i # is)) M"
    using i by (intro nth_equalityI) (auto simp: nth_list_update)
  then show ?case using run sh' same_but_marks_trans[OF same_but_marks_set] by auto
qed

lemma lock_read_marks_spec:
  assumes "marks_are (take_marks (set held) M) sh" "\<forall>i\<in>set is \<union> set held. i < length M" "distinct (held @ is)" "\<forall>i\<in>set held. free (M ! i)"
  shows "\<exists>ok M' sh'. lock_read_marks held is sh = Inr (ok, sh') \<and> same_but_marks sh sh' \<and> marks_are M' sh' \<and>
     (if ok then (\<forall>i\<in>set is. free (M ! i)) \<and> M' = take_marks (set held \<union> set is) M else idle_step M M')"
  using assms
proof (induction "is" arbitrary: held sh)
  case Nil
  then show ?case by (intro exI[of _ True]) auto
next
  case (Cons i "is")
  have i: "i < length M" "i \<notin> set held" "i < length (take_marks (set held) M)" using Cons.prems by auto
  note ops = mark_ops[OF Cons.prems(1) i(3)]
  show ?case
  proof (cases "free (M ! i)")
    case False
    have "\<forall>j\<in>set held. j < length (take_marks (set held) M) \<and> fst (take_marks (set held) M ! j)" "distinct held" using Cons.prems by auto
    from unlock_read_marks_spec[OF Cons.prems(1) this] obtain sh' where sh': "unlock_read_marks held sh = Inr sh'"
      "same_but_marks sh sh'" "marks_are (release_marks (set held) (take_marks (set held) M)) sh'" by blast
    moreover have "idle_step M (release_marks (set held) (take_marks (set held) M))"
      using Cons.prems(4) by (auto simp: idle_step_def free_def)
    moreover have "lock_read_marks held (i # is) sh = Inr (False, sh')" using ops(1) False i sh'(1) by simp
    ultimately show ?thesis by auto
  next
    case True
    let ?sh = "set_mark i (True, 0, READMARK_NOT_USED) sh"
    have lk: "marks_are ((take_marks (set held) M)[i := (True, 0, w)]) (set_mark i (True, 0, w) sh)" for w
      by (rule marks_are_set[OF Cons.prems(1)]) (simp add: mark_ok_def)
    have tm: "(take_marks (set held) M)[i := (True, 0, READMARK_NOT_USED)] = take_marks (set (held @ [i])) M"
      using i by (intro nth_equalityI) (auto simp: nth_list_update)
    have run: "lock_read_marks held (i # is) sh = lock_read_marks (held @ [i]) is ?sh"
      using ops(1) True i mark_ops(6)[OF lk, of i _ READMARK_NOT_USED] by simp
    have "\<forall>j\<in>set is \<union> set (held @ [i]). j < length M" "distinct ((held @ [i]) @ is)" "\<forall>j\<in>set (held @ [i]). free (M ! j)"
      using Cons.prems True by auto
    from Cons.IH[OF lk[of READMARK_NOT_USED, unfolded tm] this] obtain ok M' sh' where res:
      "lock_read_marks (held @ [i]) is ?sh = Inr (ok, sh')" "same_but_marks ?sh sh'" "marks_are M' sh'"
      "if ok then (\<forall>i\<in>set is. free (M ! i)) \<and> M' = take_marks (set (held @ [i]) \<union> set is) M else idle_step M M'" by blast
    have "same_but_marks sh sh'" by (rule same_but_marks_trans[OF same_but_marks_set res(2)])
    then show ?thesis using run True res(1,3,4)
      by (intro exI[of _ ok] exI[of _ M'] exI[of _ sh']) (simp del: lock_read_marks.simps split: if_splits)
  qed
qed

lemma set_marks_spec:
  "marks_are M sh \<Longrightarrow> list_all (\<lambda>(i, v). i < length M \<and> fst (M ! i)) ms \<Longrightarrow>
     \<exists>sh'. set_marks ms sh = Inr sh' \<and> same_but_marks sh sh' \<and>
       marks_are (fold (\<lambda>(i, v) M. M[i := (True, 0, v)]) ms M) sh'"
proof (induction ms arbitrary: M sh)
  case (Cons a ms)
  obtain i v where a: "a = (i, v)" by (cases a)
  let ?m = "(True, 0, v)"
  have run: "set_read_mark_value_exclusive i v sh = Inr (set_mark i ?m sh)"
    using Cons.prems a by (intro mark_ops(6)[OF Cons.prems(1)]) auto
  have m: "marks_are (M[i := ?m]) (set_mark i ?m sh)" by (rule marks_are_set[OF Cons.prems(1)]) (simp add: mark_ok_def)
  have "list_all (\<lambda>(j, v). j < length (M[i := ?m]) \<and> fst (M[i := ?m] ! j)) ms"
    using Cons.prems(2) a by (auto simp: list_all_iff nth_list_update)
  from Cons.IH[OF m this] obtain sh' where sh': "set_marks ms (set_mark i ?m sh) = Inr sh'" "same_but_marks (set_mark i ?m sh) sh'"
    "marks_are (fold (\<lambda>(i, v) M. M[i := (True, 0, v)]) ms (M[i := ?m])) sh'" by blast
  have "same_but_marks sh sh'" by (rule same_but_marks_trans[OF same_but_marks_set sh'(2)])
  then show ?case using run sh' a by simp
qed simp

text \<open>The state that a restart leaves, except for the read marks.\<close>

definition restarted :: "u32 \<Rightarrow> wal_file_shared \<Rightarrow> wal_file_shared" where
  "restarted random sh =
     (let h = shared_header sh;
          h = h\<lparr>checkpoint_seq := checkpoint_seq h + 1, salt_1 := salt_1 h + 1, salt_2 := random\<rparr>
      in sh\<lparr>shared_header := h, max_frame := 0, nbackfills := 0,
            last_checksum := (checksum_1 h, checksum_2 h), initialized := False,
            frame_cache := [], frame_cache_high_water := 0\<rparr>)"

definition restart_marks :: "mark list" where
  "restart_marks = [(True, 0, 0), (True, 0, 0), (True, 0, READMARK_NOT_USED), (True, 0, READMARK_NOT_USED), (True, 0, READMARK_NOT_USED)]"

lemma restarted_marks [simp]: "marks_are M (restarted random sh) = marks_are M sh"
  by (simp add: marks_are_def restarted_def Let_def)

lemma list5: "length xs = 5 \<Longrightarrow> xs = [xs ! 0, xs ! 1, xs ! 2, xs ! 3, xs ! 4]"
  by (auto simp: numeral_eq_Suc length_Suc_conv)

lemma begin_restart_cases:
  assumes "marks_are M sh" "length M = 5" "fst (M ! 0)"
  obtains M' sh' where "begin_restart random sh = Inr (None, sh')" "same_but_marks sh sh'" "marks_are M' sh'" "idle_step M M'"
  | sh' where "\<forall>i\<in>{1..<5}. free (M ! i)" "begin_restart random sh = Inr (Some (snapshot_of sh'), sh')"
      "same_but_marks (restarted random sh) sh'" "marks_are restart_marks sh'"
proof -
  have t0: "take_marks (set []) M = M" by (rule nth_equalityI) auto
  have "\<exists>ok M' sh'. lock_read_marks [] [1..<5] sh = Inr (ok, sh') \<and> same_but_marks sh sh' \<and> marks_are M' sh' \<and>
     (if ok then (\<forall>i\<in>set [1..<5]. free (M ! i)) \<and> M' = take_marks (set [] \<union> set [1..<5]) M else idle_step M M')"
    by (rule lock_read_marks_spec) (use assms t0 in auto)
  then obtain ok M1 sh1 where l: "lock_read_marks [] [1..<5] sh = Inr (ok, sh1)" "same_but_marks sh sh1" "marks_are M1 sh1"
    "if ok then (\<forall>i\<in>set [1..<5]. free (M ! i)) \<and> M1 = take_marks (set [] \<union> set [1..<5]) M else idle_step M M1" by blast
  have run: "begin_restart random sh =
      (if ok then and_then (restart_wal_header random sh1) (\<lambda>sh. Inr (Some (snapshot_of sh), sh)) else Inr (None, sh1))"
    unfolding begin_restart_def l(1) by simp
  show ?thesis
  proof (cases ok)
    case False
    show ?thesis by (rule that(1)[OF _ l(2,3)]) (use False run l(4) in auto)
  next
    case True
    let ?ms = "[(0, 0), (1, 0)] @ map (\<lambda>i. (i, READMARK_NOT_USED)) [2..<5]"
    have M1: "M1 = take_marks {1..<5} M" "\<forall>i\<in>{1..<5}. free (M ! i)" using l(4) True by auto
    have w: "fst (M1 ! i)" if "i < 5" for i using that M1(1) assms(2,3) by (cases i) auto
    have m: "marks_are M1 (restarted random sh1)" using l(3) by simp
    have "list_all (\<lambda>(i, v). i < length M1 \<and> fst (M1 ! i)) ?ms" using M1(1) assms(2) w by (auto simp: list_all_iff simp del: nth_marks)
    from set_marks_spec[OF m this] obtain sh' where sh': "set_marks ?ms (restarted random sh1) = Inr sh'"
      "same_but_marks (restarted random sh1) sh'" "marks_are (fold (\<lambda>(i, v) M. M[i := (True, 0, v)]) ?ms M1) sh'" by blast
    have "fold (\<lambda>(i, v) M. M[i := (True, 0, v)]) ?ms M1 = restart_marks"
      using list5[of M1] M1(1) assms(2) by (simp add: upt_conv_Cons restart_marks_def)
    moreover have "restart_wal_header random sh1 = Inr sh'" using sh'(1) by (simp add: restart_wal_header_def restarted_def Let_def)
    moreover have "same_but_marks (restarted random sh) sh'"
      using l(2) sh'(2) by (auto simp: same_but_marks_def restarted_def Let_def)
    ultimately show ?thesis by (intro that(2)[OF M1(2)]) (use run True sh'(3) in simp_all)
  qed
qed

end
