(* ===== verification/WalFile.thy ===== *)
theory WalFile
  imports WalCoord "HOL-Library.Product_Lexorder"
begin

text \<open>
  One connection's view of the log (\<open>WalFile\<close> in \<^verbatim>\<open>core/storage/wal.rs\<close>): read and
  write transactions, appending, committing and rolling back frames, and the phases of a
  checkpoint. The shared state is passed along. Reads and writes of the log file and of the database file
  are functions from frame and page numbers to contents; a phase that copies pages runs one page at
  a time. The VACUUM entry points are left out.
\<close>

section \<open>State\<close>

record checkpoint_result =
  wal_max_frame :: nat
  wal_total_backfilled :: nat
  wal_checkpoint_backfilled :: nat
  maybe_guard :: "checkpoint_guard option"

datatype checkpoint_state = CkStart | CkSyncWal | CkProcessing | CkDetermineResult | CkFinalize checkpoint_result

record ongoing_checkpoint =
  oc_min_frame :: nat
  oc_max_frame :: nat
  oc_current_page :: nat
  oc_state :: checkpoint_state
  oc_pages :: "(nat \<times> nat) list"

record wal_file =
  write_lock_held :: bool
  max_frame_read_lock_index :: nat
  f_max_frame :: nat
  f_min_frame :: nat
  f_last_checksum :: "u32 \<times> u32"
  f_checkpoint_seq :: u32
  f_transaction_count :: nat
  f_guard :: "checkpoint_guard option"
  vacuum_read_guard :: bool
  ongoing :: ongoing_checkpoint
  dirty :: bool

definition checkpoint_result_new :: "nat \<Rightarrow> nat \<Rightarrow> nat \<Rightarrow> checkpoint_result" where
  "checkpoint_result_new mx tot n =
     \<lparr>wal_max_frame = mx, wal_total_backfilled = tot, wal_checkpoint_backfilled = n, maybe_guard = None\<rparr>"

definition everything_backfilled :: "checkpoint_result \<Rightarrow> bool" where
  "everything_backfilled r \<longleftrightarrow> wal_max_frame r = wal_total_backfilled r"

definition wal_file_new :: "(u32 \<times> u32) \<Rightarrow> nat \<Rightarrow> wal_file" where
  "wal_file_new ck mx =
     \<lparr>write_lock_held = False, max_frame_read_lock_index = NO_LOCK_HELD, f_max_frame = mx, f_min_frame = 0,
      f_last_checksum = ck, f_checkpoint_seq = 0, f_transaction_count = 0, f_guard = None,
      vacuum_read_guard = False,
      ongoing = \<lparr>oc_min_frame = 0, oc_max_frame = 0, oc_current_page = 0, oc_state = CkStart, oc_pages = []\<rparr>,
      dirty = False\<rparr>"

definition connection_snapshot :: "wal_file \<Rightarrow> wal_snapshot" where
  "connection_snapshot conn =
     \<lparr>sn_max_frame = f_max_frame conn, sn_nbackfills = f_min_frame conn - 1, sn_last_checksum = f_last_checksum conn,
      sn_checkpoint_seq = f_checkpoint_seq conn, sn_transaction_count = f_transaction_count conn\<rparr>"

definition install_connection_state :: "wal_snapshot \<Rightarrow> read_guard \<Rightarrow> wal_file \<Rightarrow> wal_file" where
  "install_connection_state sn g conn =
     conn\<lparr>f_max_frame := sn_max_frame sn, f_min_frame := sn_min_frame sn, f_last_checksum := sn_last_checksum sn,
        f_checkpoint_seq := sn_checkpoint_seq sn, f_transaction_count := sn_transaction_count sn,
        max_frame_read_lock_index := lock_index g\<rparr>"

section \<open>Read transactions\<close>

datatype try_begin_result = BeginOk bool | BeginRetry | BeginBusy

text \<open>The snapshot was loaded before; another connection may have changed the shared state since.\<close>

definition wal_try_begin_read_tx ::
    "wal_snapshot \<Rightarrow> wal_file \<times> wal_file_shared \<Rightarrow> (try_begin_result \<times> wal_file \<times> wal_file_shared) result" where
  "wal_try_begin_read_tx sn = (\<lambda>(conn, sh).
     and_then (ensure (max_frame_read_lock_index conn = NO_LOCK_HELD) Panic) (\<lambda>_.
     and_then (ensure (\<not> vacuum_read_guard conn) Panic) (\<lambda>_.
     let (got, w) = lock_read [] (vacuum_lock sh)
     in if \<not> got then Inr (BeginBusy, conn, sh)
        else
          and_then (ensure (sn_nbackfills sn \<le> sn_max_frame sn) Panic) (\<lambda>_.
          let db_changed = (sn \<noteq> connection_snapshot conn)
          in and_then (coord_try_begin_read_tx sn (sh\<lparr>vacuum_lock := w\<rparr>)) (\<lambda>(guard, sh).
             case guard of
               None \<Rightarrow> and_then (lock_unlock (vacuum_lock sh)) (\<lambda>w. Inr (BeginRetry, conn, sh\<lparr>vacuum_lock := w\<rparr>))
             | Some g \<Rightarrow> Inr (BeginOk db_changed, install_connection_state sn g (conn\<lparr>vacuum_read_guard := True\<rparr>), sh))))))"

definition wal_end_read_tx :: "wal_file \<times> wal_file_shared \<Rightarrow> (wal_file \<times> wal_file_shared) result" where
  "wal_end_read_tx = (\<lambda>(conn, sh).
     if max_frame_read_lock_index conn \<noteq> NO_LOCK_HELD then
       and_then (coord_end_read_tx (from_lock_index (max_frame_read_lock_index conn)) sh) (\<lambda>sh.
       and_then (ensure (vacuum_read_guard conn) Panic) (\<lambda>_.
       and_then (lock_unlock (vacuum_lock sh)) (\<lambda>w.
       Inr (conn\<lparr>max_frame_read_lock_index := NO_LOCK_HELD, vacuum_read_guard := False\<rparr>, sh\<lparr>vacuum_lock := w\<rparr>))))
     else and_then (ensure (\<not> vacuum_read_guard conn) Panic) (\<lambda>_. Inr (conn, sh)))"

text \<open>
  The build with the feature \<open>conn_raw_api\<close>: without it a watermark fails an assertion, with it the
  watermark is checked against the log.
\<close>

definition wal_find_frame :: "nat \<Rightarrow> nat option \<Rightarrow> wal_file \<times> wal_file_shared \<Rightarrow> nat option result" where
  "wal_find_frame pg watermark = (\<lambda>(conn, sh).
     if (case watermark of Some w \<Rightarrow> w > f_max_frame conn | None \<Rightarrow> False) then Inl InvalidArgument
     else if (case watermark of Some w \<Rightarrow> w < nbackfills sh | None \<Rightarrow> False) then Inl InvalidArgument
     else if f_max_frame conn < f_min_frame conn then Inr None
     else Inr (coord_find_frame pg (f_min_frame conn) (f_max_frame conn) watermark sh))"

section \<open>Write transactions\<close>

definition apply_restart_snapshot :: "wal_snapshot \<Rightarrow> wal_file \<Rightarrow> wal_file" where
  "apply_restart_snapshot sn conn =
     conn\<lparr>f_last_checksum := sn_last_checksum sn, f_max_frame := sn_max_frame sn, f_min_frame := 0,
        f_checkpoint_seq := sn_checkpoint_seq sn\<rparr>"

text \<open>A restart that finds the log busy counts as done for the caller.\<close>

definition try_restart_log_before_write ::
    "u32 \<Rightarrow> wal_file \<times> wal_file_shared \<Rightarrow> (wal_file \<times> wal_file_shared) result" where
  "try_restart_log_before_write random = (\<lambda>(conn, sh).
     if max_frame_read_lock_index conn \<noteq> 0 then Inr (conn, sh)
     else if nbackfills sh = 0 then Inr (conn, sh)
     else
       and_then (ensure (max_frame sh \<ge> nbackfills sh) Panic) (\<lambda>_.
       if max_frame sh \<noteq> nbackfills sh then Inr (conn, sh)
       else
         and_then (try_restart_log_for_write random sh) (\<lambda>(res, sh).
         case res of
           Restarted sn \<Rightarrow> Inr (apply_restart_snapshot sn conn, bump_checkpoint_epoch sh)
         | _ \<Rightarrow> Inr (conn, sh))))"

datatype begin_write_result = WriteOk | WriteBusy | WriteBusySnapshot

definition wal_begin_write_tx ::
    "bool \<Rightarrow> u32 \<Rightarrow> wal_file \<times> wal_file_shared \<Rightarrow> (begin_write_result \<times> wal_file \<times> wal_file_shared) result" where
  "wal_begin_write_tx may_restart random = (\<lambda>(conn, sh).
     and_then (ensure (max_frame_read_lock_index conn \<noteq> NO_LOCK_HELD) Panic) (\<lambda>_.
     and_then (ensure (\<not> write_lock_held conn) Panic) (\<lambda>_.
     let (got, sh) = try_write_lock sh
     in if \<not> got then Inr (WriteBusy, conn, sh)
        else if snapshot_of sh \<noteq> connection_snapshot conn then
          and_then (unlock_write_lock sh) (\<lambda>sh. Inr (WriteBusySnapshot, conn, sh))
        else
          let conn = conn\<lparr>write_lock_held := True\<rparr>
          in if \<not> may_restart then Inr (WriteOk, conn, sh)
             else and_then (try_restart_log_before_write random (conn, sh)) (\<lambda>(conn, sh). Inr (WriteOk, conn, sh)))))"

definition wal_end_write_tx :: "wal_file \<times> wal_file_shared \<Rightarrow> (wal_file \<times> wal_file_shared) result" where
  "wal_end_write_tx = (\<lambda>(conn, sh).
     and_then (ensure (write_lock_held conn) Panic) (\<lambda>_.
     and_then (unlock_write_lock sh) (\<lambda>sh. Inr (conn\<lparr>write_lock_held := False\<rparr>, sh))))"

text \<open>The header of a new generation: \<open>prepare_wal_start\<close>, then \<open>prepare_wal_finish\<close> once it is synced.\<close>

definition prepare_wal_start ::
    "bool \<Rightarrow> u32 \<times> u32 \<Rightarrow> nat \<Rightarrow> wal_file \<times> wal_file_shared \<Rightarrow> (wal_header option \<times> wal_file \<times> wal_file_shared) result" where
  "prepare_wal_start big random page_size = (\<lambda>(conn, sh).
     if initialized sh then Inr (None, conn, sh)
     else
       and_then (prepare_wal_header big random page_size sh) (\<lambda>(res, sh).
       case res of
         None \<Rightarrow> Inr (None, conn, sh)
       | Some h \<Rightarrow>
           Inr (Some h, conn\<lparr>f_last_checksum := (checksum_1 h, checksum_2 h), f_max_frame := 0\<rparr>, sh)))"

definition prepare_wal_finish :: "bool \<Rightarrow> wal_file_shared \<Rightarrow> wal_file_shared" where
  "prepare_wal_finish synced sh = (if synced then mark_initialized sh else sh)"

text \<open>
  Where \<open>prepare_frames\<close> continues: the checksum, the next frame, and the refreshed connection. This is
  the first batch of frames after a write has ended; a batch prepared before that continues the last one.
\<close>

definition append_position :: "wal_file \<times> wal_file_shared \<Rightarrow> ((u32 \<times> u32) \<times> nat \<times> wal_file) result" where
  "append_position = (\<lambda>(conn, sh).
     and_then (ensure (initialized sh) Panic) (\<lambda>_.
     let h = shared_header sh;
         sn = snapshot_of sh
     in and_then
          (if f_max_frame conn > max_frame sh then Inr (f_last_checksum conn, f_max_frame conn + 1, conn)
           else
             and_then (ensure (f_max_frame conn = max_frame sh) Panic) (\<lambda>_.
             let conn =
               (if sn \<noteq> connection_snapshot conn
                then install_connection_state sn (from_lock_index (max_frame_read_lock_index conn)) conn else conn)
             in Inr (last_checksum sh, max_frame sh + 1, conn)))
          (\<lambda>(ck, next, conn). Inr (if next = 1 then (checksum_1 h, checksum_2 h) else ck, next, conn))))"

definition complete_append_frame ::
    "nat \<Rightarrow> nat \<Rightarrow> u32 \<times> u32 \<Rightarrow> wal_file \<times> wal_file_shared \<Rightarrow> wal_file \<times> wal_file_shared" where
  "complete_append_frame pg f ck = (\<lambda>(conn, sh).
     (conn\<lparr>dirty := True, f_last_checksum := ck, f_max_frame := f\<rparr>, cache_frame pg f sh))"

definition finish_append_frames_commit :: "wal_file \<times> wal_file_shared \<Rightarrow> wal_file \<times> wal_file_shared" where
  "finish_append_frames_commit = (\<lambda>(conn, sh).
     let tc = f_transaction_count conn + 1
     in (conn\<lparr>f_transaction_count := tc\<rparr>, publish_commit (f_max_frame conn) (f_last_checksum conn) tc sh))"

text \<open>\<open>None\<close> rolls back the transaction, \<open>Some\<close> to the position of a savepoint.\<close>

definition wal_rollback ::
    "(nat \<times> (u32 \<times> u32) \<times> u32) option \<Rightarrow> wal_file \<times> wal_file_shared \<Rightarrow> (wal_file \<times> wal_file_shared) result" where
  "wal_rollback rollback_to = (\<lambda>(conn, sh).
     and_then
       (case rollback_to of
          None \<Rightarrow> Inr ()
        | Some (frame, ck, seq) \<Rightarrow>
            and_then (ensure (seq = checkpoint_seq (shared_header sh)) Panic) (\<lambda>_.
            ensure (frame \<ge> max_frame sh) Panic))
       (\<lambda>_.
        let (mx, ck) = (case rollback_to of None \<Rightarrow> (max_frame sh, last_checksum sh) | Some (frame, ck, _) \<Rightarrow> (frame, ck));
            sh = rollback_cache mx sh;
            conn = conn\<lparr>f_last_checksum := ck, f_max_frame := mx\<rparr>;
            conn = (if rollback_to = None
                  then conn\<lparr>ongoing := \<lparr>oc_min_frame = 0, oc_max_frame = 0, oc_current_page = 0, oc_state = CkStart, oc_pages = []\<rparr>\<rparr>
                  else conn)
        in Inr (conn, sh)))"

section \<open>Checkpoints\<close>

definition drop_guard :: "wal_file \<times> wal_file_shared \<Rightarrow> (wal_file \<times> wal_file_shared) result" where
  "drop_guard = (\<lambda>(conn, sh).
     case f_guard conn of
       None \<Rightarrow> Inr (conn, sh)
     | Some g \<Rightarrow> and_then (release_checkpoint_guard g sh) (\<lambda>sh. Inr (conn\<lparr>f_guard := None\<rparr>, sh)))"

definition needs_new_guard :: "checkpoint_guard option \<Rightarrow> checkpoint_mode \<Rightarrow> bool" where
  "needs_new_guard g mode =
     (case (g, mode) of
        (Some GuardRead0, Passive _) \<Rightarrow> False
      | (Some GuardWriter, Restart) \<Rightarrow> False
      | (Some GuardWriter, Truncate _) \<Rightarrow> False
      | _ \<Rightarrow> True)"

text \<open>Whether the guard is held afterwards; if not, the caller reports \<open>Busy\<close>.\<close>

definition acquire_proper_checkpoint_guard ::
    "checkpoint_mode \<Rightarrow> wal_file \<times> wal_file_shared \<Rightarrow> (bool \<times> wal_file \<times> wal_file_shared) result" where
  "acquire_proper_checkpoint_guard mode = (\<lambda>(conn, sh).
     if needs_new_guard (f_guard conn) mode then
       and_then (drop_guard (conn, sh)) (\<lambda>(conn, sh).
       and_then (acquire_checkpoint_guard mode sh) (\<lambda>(g, sh).
       case g of
         None \<Rightarrow> Inr (False, conn, sh)
       | Some _ \<Rightarrow> Inr (True, conn\<lparr>f_guard := g\<rparr>, sh)))
     else Inr (True, conn, sh))"

datatype checkpoint_outcome = CkContinue | CkDone checkpoint_result | CkBusy

text \<open>The frames to copy, in the order in which they are read.\<close>

definition pages_to_checkpoint :: "nat \<Rightarrow> nat \<Rightarrow> wal_file_shared \<Rightarrow> (nat \<times> nat) list" where
  "pages_to_checkpoint mn mx sh =
     (if mx < mn then [] else sort_key (\<lambda>(p, f). (f, p)) (iter_latest_frames mn mx sh))"

definition checkpoint_start ::
    "checkpoint_mode \<Rightarrow> bool \<Rightarrow> wal_file \<times> wal_file_shared \<Rightarrow> (checkpoint_outcome \<times> wal_file \<times> wal_file_shared) result" where
  "checkpoint_start mode sync_off = (\<lambda>(conn, sh).
     if \<not> max_frame sh > nbackfills sh \<and> \<not> should_restart_log mode then
       Inr (CkDone (checkpoint_result_new (max_frame sh) (nbackfills sh) 0), conn, sh)
     else
       and_then (acquire_proper_checkpoint_guard mode (conn, sh)) (\<lambda>(ok, conn, sh).
       if \<not> ok then Inr (CkBusy, conn, sh)
       else
         and_then (coord_max_safe_frame (max_frame sh) sh) (\<lambda>(mx, sh).
         if (case mode of Truncate (Some ub) \<Rightarrow> mx > ub | _ \<Rightarrow> False) then Inr (CkBusy, conn, sh)
         else
           let mx = (case mode of Passive (Some ub) \<Rightarrow> min mx ub | _ \<Rightarrow> mx);
               mn = nbackfills sh + 1;
               pages = pages_to_checkpoint mn mx sh;
               oc = \<lparr>oc_min_frame = mn, oc_max_frame = mx, oc_current_page = 0,
                     oc_state = (if pages \<noteq> [] \<and> \<not> sync_off then CkSyncWal else CkProcessing), oc_pages = pages\<rparr>
           in Inr (CkContinue, conn\<lparr>ongoing := oc\<rparr>, sh))))"

text \<open>Copies one page from the log to the database, or goes on when all are copied.\<close>

definition checkpoint_process :: "(nat \<Rightarrow> 'c) \<Rightarrow> wal_file \<times> (nat \<Rightarrow> 'c) \<Rightarrow> wal_file \<times> (nat \<Rightarrow> 'c)" where
  "checkpoint_process log_at = (\<lambda>(conn, db).
     let oc = ongoing conn
     in if oc_current_page oc < length (oc_pages oc) then
          let (pg, f) = oc_pages oc ! oc_current_page oc
          in (conn\<lparr>ongoing := oc\<lparr>oc_current_page := oc_current_page oc + 1\<rparr>\<rparr>, db(pg := log_at f))
        else (conn\<lparr>ongoing := oc\<lparr>oc_state := CkDetermineResult\<rparr>\<rparr>, db))"

definition checkpoint_determine_result ::
    "checkpoint_mode \<Rightarrow> u32 \<Rightarrow> wal_file \<times> wal_file_shared \<Rightarrow> (checkpoint_outcome \<times> wal_file \<times> wal_file_shared) result" where
  "checkpoint_determine_result mode random = (\<lambda>(conn, sh).
     let oc = ongoing conn;
         res = checkpoint_result_new (max_frame sh) (oc_max_frame oc) (oc_max_frame oc - (oc_min_frame oc - 1))
     in and_then (ensure (oc_current_page oc \<ge> length (oc_pages oc)) Panic) (\<lambda>_.
        if require_all_backfilled mode \<and> \<not> everything_backfilled res then Inr (CkBusy, conn, sh)
        else if should_restart_log mode then
          and_then (ensure (f_guard conn = Some GuardWriter) Panic) (\<lambda>_.
          and_then (begin_restart random sh) (\<lambda>(snap, sh).
          case snap of
            None \<Rightarrow> Inr (CkBusy, conn, sh)
          | Some sn \<Rightarrow> Inr (CkContinue, (apply_restart_snapshot sn conn)\<lparr>ongoing := oc\<lparr>oc_state := CkFinalize res\<rparr>\<rparr>, sh)))
        else Inr (CkContinue, conn\<lparr>ongoing := oc\<lparr>oc_state := CkFinalize res\<rparr>\<rparr>, sh)))"

definition checkpoint_finalize ::
    "checkpoint_mode \<Rightarrow> checkpoint_result \<Rightarrow> wal_file \<times> wal_file_shared \<Rightarrow> (checkpoint_outcome \<times> wal_file \<times> wal_file_shared) result" where
  "checkpoint_finalize mode res = (\<lambda>(conn, sh).
     and_then (if should_restart_log mode then end_restart sh else Inr sh) (\<lambda>sh.
     let sh = bump_checkpoint_epoch sh
     in and_then
          (if everything_backfilled res \<or> wal_checkpoint_backfilled res > 0
           then Inr (res\<lparr>maybe_guard := f_guard conn\<rparr>, conn\<lparr>f_guard := None\<rparr>, sh)
           else and_then (drop_guard (conn, sh)) (\<lambda>(conn, sh). Inr (res, conn, sh)))
          (\<lambda>(res, conn, sh).
           Inr (CkDone res,
                conn\<lparr>ongoing := (ongoing conn)\<lparr>oc_pages := [], oc_current_page := 0, oc_state := CkStart\<rparr>\<rparr>, sh))))"

text \<open>The error path of \<open>checkpoint\<close>: the guard is dropped and the next call starts anew.\<close>

definition checkpoint_failed :: "wal_file \<times> wal_file_shared \<Rightarrow> (wal_file \<times> wal_file_shared) result" where
  "checkpoint_failed s =
     and_then (drop_guard s) (\<lambda>(conn, sh). Inr (conn\<lparr>ongoing := (ongoing conn)\<lparr>oc_state := CkStart\<rparr>\<rparr>, sh))"

text \<open>One iteration of \<open>checkpoint_inner\<close> and the error path around it.\<close>

definition checkpoint_step ::
    "checkpoint_mode \<Rightarrow> bool \<Rightarrow> u32 \<Rightarrow> (nat \<Rightarrow> 'c) \<Rightarrow> wal_file \<times> wal_file_shared \<times> (nat \<Rightarrow> 'c) \<Rightarrow>
     (checkpoint_outcome \<times> wal_file \<times> wal_file_shared \<times> (nat \<Rightarrow> 'c)) result" where
  "checkpoint_step mode sync_off random log_at = (\<lambda>(conn, sh, db).
     and_then
       (case oc_state (ongoing conn) of
          CkStart \<Rightarrow> and_then (checkpoint_start mode sync_off (conn, sh)) (\<lambda>(out, conn, sh). Inr (out, conn, sh, db))
        | CkSyncWal \<Rightarrow> Inr (CkContinue, conn\<lparr>ongoing := (ongoing conn)\<lparr>oc_state := CkProcessing\<rparr>\<rparr>, sh, db)
        | CkProcessing \<Rightarrow> (let (conn, db) = checkpoint_process log_at (conn, db) in Inr (CkContinue, conn, sh, db))
        | CkDetermineResult \<Rightarrow>
            and_then (checkpoint_determine_result mode random (conn, sh)) (\<lambda>(out, conn, sh). Inr (out, conn, sh, db))
        | CkFinalize res \<Rightarrow>
            and_then (checkpoint_finalize mode res (conn, sh)) (\<lambda>(out, conn, sh). Inr (out, conn, sh, db)))
       (\<lambda>(out, conn, sh, db).
        if out = CkBusy then and_then (checkpoint_failed (conn, sh)) (\<lambda>(conn, sh). Inr (out, conn, sh, db))
        else Inr (out, conn, sh, db)))"

definition wal_publish_backfill :: "nat \<Rightarrow> wal_file_shared \<Rightarrow> wal_file_shared result" where
  "wal_publish_backfill mx sh =
     and_then (ensure (nbackfills sh \<le> mx \<and> mx \<le> max_frame sh) Panic) (\<lambda>_. Inr (coord_publish_backfill mx sh))"

definition release_guard :: "checkpoint_result \<times> wal_file_shared \<Rightarrow> (checkpoint_result \<times> wal_file_shared) result" where
  "release_guard = (\<lambda>(res, sh).
     case maybe_guard res of
       None \<Rightarrow> Inr (res, sh)
     | Some g \<Rightarrow> and_then (release_checkpoint_guard g sh) (\<lambda>sh. Inr (res\<lparr>maybe_guard := None\<rparr>, sh)))"

definition should_checkpoint :: "nat \<Rightarrow> wal_file_shared \<Rightarrow> bool" where
  "should_checkpoint threshold sh \<longleftrightarrow> threshold \<noteq> 0 \<and> max_frame sh > threshold + nbackfills sh"

end
