(* ===== verification/WalSystem.thy ===== *)
theory WalSystem
  imports WalFile
begin

text \<open>
  The connections of a process on one log and one database file, as a machine whose steps are the
  operations of \<open>WalFile\<close> and of the pager's checkpoint driver. Contents of pages are values of an
  arbitrary type. Beside the state of the program the machine carries what the program does not: the
  pages in the slots of the log, the last committed database, the database that each read
  transaction started from and the writes of each write transaction.
\<close>

section \<open>State and steps\<close>

record 'c wal_sys =
  shared :: wal_file_shared
  conns :: "nat \<Rightarrow> wal_file"
  results :: "nat \<Rightarrow> (checkpoint_mode \<times> checkpoint_result) option"
  modes :: "nat \<Rightarrow> checkpoint_mode"
  wal_log :: "nat \<Rightarrow> 'c"
  db_file :: "nat \<Rightarrow> 'c"
  slots :: "nat list"
  committed :: "nat \<Rightarrow> 'c"
  base :: "nat \<Rightarrow> nat \<Rightarrow> 'c"
  txn :: "nat \<Rightarrow> (nat \<times> 'c) list"

datatype 'c wal_op =
    WBegin nat wal_snapshot
  | WEnd nat
  | WBeginWrite nat bool u32
  | WInit nat bool "u32 \<times> u32" nat bool
  | WAppend nat nat 'c "u32 \<times> u32"
  | WCommit nat
  | WRollback nat
  | WSavepoint nat nat "u32 \<times> u32"
  | WEndWrite nat
  | WCheckpoint nat checkpoint_mode bool u32
  | WCheckpointStep nat u32
  | WCheckpointFail nat
  | WPublish nat
  | WTruncate nat
  | WRelease nat

fun apply_txn :: "(nat \<times> 'c) list \<Rightarrow> (nat \<Rightarrow> 'c) \<Rightarrow> nat \<Rightarrow> 'c" where
  "apply_txn [] m = m"
| "apply_txn ((p, x) # xs) m = apply_txn xs (m(p := x))"

definition set_conn :: "nat \<Rightarrow> wal_file \<Rightarrow> wal_file_shared \<Rightarrow> 'c wal_sys \<Rightarrow> 'c wal_sys" where
  "set_conn c conn sh s = s\<lparr>conns := (conns s)(c := conn), shared := sh\<rparr>"

definition keep_result :: "nat \<Rightarrow> checkpoint_mode \<Rightarrow> checkpoint_outcome \<Rightarrow> 'c wal_sys \<Rightarrow> 'c wal_sys" where
  "keep_result c mode out s =
     (case out of CkDone res \<Rightarrow> s\<lparr>results := (results s)(c \<mapsto> (mode, res))\<rparr> | _ \<Rightarrow> s)"

definition run_checkpoint :: "nat \<Rightarrow> checkpoint_mode \<Rightarrow> bool \<Rightarrow> u32 \<Rightarrow> 'c wal_sys \<Rightarrow> 'c wal_sys result" where
  "run_checkpoint c mode sync_off random s =
     and_then (checkpoint_step mode sync_off random (wal_log s) (conns s c, shared s, db_file s)) (\<lambda>(out, conn, sh, db).
     Inr (keep_result c mode out ((set_conn c conn sh s)\<lparr>db_file := db, modes := (modes s)(c := mode),
       slots := take (frame_cache_high_water sh) (slots s)\<rparr>)))"

fun wal_exec :: "'c wal_op \<Rightarrow> 'c wal_sys \<Rightarrow> 'c wal_sys result" where
  "wal_exec (WBegin c sn) s =
     and_then (wal_try_begin_read_tx sn (conns s c, shared s)) (\<lambda>(res, conn, sh).
     let s' = set_conn c conn sh s
     in Inr (case res of BeginOk _ \<Rightarrow> s'\<lparr>base := (base s)(c := committed s)\<rparr> | _ \<Rightarrow> s'))"
| "wal_exec (WEnd c) s =
     and_then (wal_end_read_tx (conns s c, shared s)) (\<lambda>(conn, sh). Inr (set_conn c conn sh s))"
| "wal_exec (WBeginWrite c may_restart random) s =
     and_then (wal_begin_write_tx may_restart random (conns s c, shared s)) (\<lambda>(res, conn, sh).
     Inr ((set_conn c conn sh s)\<lparr>slots := take (frame_cache_high_water sh) (slots s)\<rparr>))"
| "wal_exec (WInit c big random page_size synced) s =
     and_then (prepare_wal_start big random page_size (conns s c, shared s)) (\<lambda>(h, conn, sh).
     Inr (set_conn c conn (if h = None then sh else prepare_wal_finish synced sh) s))"
| "wal_exec (WAppend c p x ck) s =
     and_then (append_position (conns s c, shared s)) (\<lambda>(seed, f, conn).
     let (conn, sh) = complete_append_frame p f ck (conn, shared s)
     in Inr ((set_conn c conn sh s)\<lparr>wal_log := (wal_log s)(f := x), slots := take (f - 1) (slots s) @ [p],
               txn := (txn s)(c := txn s c @ [(p, x)])\<rparr>))"
| "wal_exec (WCommit c) s =
     (let (conn, sh) = finish_append_frames_commit (conns s c, shared s);
          now = apply_txn (txn s c) (committed s)
      in Inr ((set_conn c conn sh s)\<lparr>committed := now, base := (base s)(c := now), txn := (txn s)(c := [])\<rparr>))"
| "wal_exec (WRollback c) s =
     and_then (wal_rollback None (conns s c, shared s)) (\<lambda>(conn, sh).
     Inr ((set_conn c conn sh s)\<lparr>slots := take (max_frame (shared s)) (slots s), txn := (txn s)(c := [])\<rparr>))"
| "wal_exec (WSavepoint c f ck) s =
     and_then (wal_rollback (Some (f, ck, checkpoint_seq (shared_header (shared s)))) (conns s c, shared s)) (\<lambda>(conn, sh).
     Inr ((set_conn c conn sh s)\<lparr>slots := take f (slots s),
            txn := (txn s)(c := take (f - max_frame (shared s)) (txn s c))\<rparr>))"
| "wal_exec (WEndWrite c) s =
     and_then (wal_end_write_tx (conns s c, shared s)) (\<lambda>(conn, sh). Inr (set_conn c conn sh s))"
| "wal_exec (WCheckpoint c mode sync_off random) s = run_checkpoint c mode sync_off random s"
| "wal_exec (WCheckpointStep c random) s =
     run_checkpoint c (modes s c) False random s"
| "wal_exec (WCheckpointFail c) s =
     and_then (checkpoint_failed (conns s c, shared s)) (\<lambda>(conn, sh). Inr (set_conn c conn sh s))"
| "wal_exec (WPublish c) s =
     (case results s c of
        None \<Rightarrow> Inr s
      | Some (_, res) \<Rightarrow>
          and_then (wal_publish_backfill (wal_total_backfilled res) (shared s)) (\<lambda>sh. Inr (s\<lparr>shared := sh\<rparr>)))"
| "wal_exec (WTruncate c) s = and_then (prepare_truncate (shared s)) (\<lambda>sh. Inr (s\<lparr>shared := sh\<rparr>))"
| "wal_exec (WRelease c) s =
     (case results s c of
        None \<Rightarrow> Inr s
      | Some (_, res) \<Rightarrow>
          and_then (release_guard (res, shared s)) (\<lambda>(_, sh). Inr (s\<lparr>shared := sh, results := (results s)(c := None)\<rparr>)))"

section \<open>What callers promise\<close>

definition reading :: "'c wal_sys \<Rightarrow> nat \<Rightarrow> bool" where
  "reading s c \<longleftrightarrow> max_frame_read_lock_index (conns s c) \<noteq> NO_LOCK_HELD"

abbreviation writing :: "'c wal_sys \<Rightarrow> nat \<Rightarrow> bool" where
  "writing s c \<equiv> write_lock_held (conns s c)"

abbreviation ck_state :: "'c wal_sys \<Rightarrow> nat \<Rightarrow> checkpoint_state" where
  "ck_state s c \<equiv> oc_state (ongoing (conns s c))"

text \<open>
  A transaction ends after it was committed or rolled back; frames are appended, published and
  rolled back under the write lock; a connection runs one checkpoint at a time, copies for it, and
  publishes what it copied unless the log was restarted.
\<close>

fun wal_op_ok :: "nat \<Rightarrow> 'c wal_op \<Rightarrow> 'c wal_sys \<Rightarrow> bool" where
  "wal_op_ok N (WBegin c sn) s \<longleftrightarrow>
     c < N \<and> \<not> reading s c \<and> sn_nbackfills sn \<le> sn_max_frame sn \<and> sn_max_frame sn < 2 ^ 32"
| "wal_op_ok N (WEnd c) s \<longleftrightarrow> c < N \<and> \<not> writing s c"
| "wal_op_ok N (WBeginWrite c _ _) s \<longleftrightarrow> c < N \<and> reading s c \<and> \<not> writing s c"
| "wal_op_ok N (WInit c big _ page_size _) s \<longleftrightarrow> c < N \<and> writing s c"
| "wal_op_ok N (WAppend c p x ck) s \<longleftrightarrow>
     c < N \<and> writing s c \<and> initialized (shared s) \<and> Suc (f_max_frame (conns s c)) < 2 ^ 32"
| "wal_op_ok N (WCommit c) s \<longleftrightarrow> c < N \<and> writing s c"
| "wal_op_ok N (WRollback c) s \<longleftrightarrow> c < N \<and> writing s c \<and> ck_state s c = CkStart"
| "wal_op_ok N (WSavepoint c f ck) s \<longleftrightarrow>
     c < N \<and> writing s c \<and> max_frame (shared s) \<le> f \<and> f \<le> f_max_frame (conns s c)"
| "wal_op_ok N (WEndWrite c) s \<longleftrightarrow> c < N \<and> writing s c \<and> txn s c = []"
| "wal_op_ok N (WCheckpoint c mode _ _) s \<longleftrightarrow> c < N \<and> ck_state s c = CkStart \<and> results s c = None"
| "wal_op_ok N (WCheckpointStep c _) s \<longleftrightarrow> c < N \<and> ck_state s c \<noteq> CkStart"
| "wal_op_ok N (WCheckpointFail c) s \<longleftrightarrow> c < N \<and> ck_state s c \<in> {CkSyncWal, CkProcessing}"
| "wal_op_ok N (WPublish c) s \<longleftrightarrow>
     c < N \<and> (case results s c of None \<Rightarrow> True | Some (mode, res) \<Rightarrow> \<not> should_restart_log mode \<and> wal_checkpoint_backfilled res > 0)"
| "wal_op_ok N (WTruncate c) s \<longleftrightarrow>
     c < N \<and> (case results s c of Some (Truncate _, res) \<Rightarrow> maybe_guard res \<noteq> None | _ \<Rightarrow> False)"
| "wal_op_ok N (WRelease c) s \<longleftrightarrow> c < N"

fun wal_run :: "'c wal_op list \<Rightarrow> 'c wal_sys \<Rightarrow> 'c wal_sys result" where
  "wal_run [] s = Inr s"
| "wal_run (op # ops) s = and_then (wal_exec op s) (wal_run ops)"

fun wal_run_ok :: "nat \<Rightarrow> 'c wal_op list \<Rightarrow> 'c wal_sys \<Rightarrow> bool" where
  "wal_run_ok N [] s \<longleftrightarrow> True"
| "wal_run_ok N (op # ops) s \<longleftrightarrow>
     wal_op_ok N op s \<and> (case wal_exec op s of Inl _ \<Rightarrow> True | Inr s' \<Rightarrow> wal_run_ok N ops s')"

text \<open>What a connection reads: the frame that the log has for it, or else the database file.\<close>

definition read_page :: "'c wal_sys \<Rightarrow> nat \<Rightarrow> nat \<Rightarrow> 'c option" where
  "read_page s c p =
     (case wal_find_frame p None (conns s c, shared s) of
        Inl _ \<Rightarrow> None
      | Inr None \<Rightarrow> Some (db_file s p)
      | Inr (Some f) \<Rightarrow> Some (wal_log s f))"

section \<open>The invariant\<close>

text \<open>The content that a reader of the frames \<open>lo\<close> to \<open>hi\<close> sees.\<close>

definition overlay :: "'c wal_sys \<Rightarrow> nat \<Rightarrow> nat \<Rightarrow> nat \<Rightarrow> 'c" where
  "overlay s lo hi p = (case newest (slots s) lo hi p of Some f \<Rightarrow> wal_log s f | None \<Rightarrow> db_file s p)"

text \<open>The guard that a connection holds, itself or in the result of its last checkpoint.\<close>

definition ck_guard :: "'c wal_sys \<Rightarrow> nat \<Rightarrow> checkpoint_guard option" where
  "ck_guard s c =
     (case f_guard (conns s c) of
        Some g \<Rightarrow> Some g
      | None \<Rightarrow> (case results s c of Some (_, res) \<Rightarrow> maybe_guard res | None \<Rightarrow> None))"

definition restarting :: "'c wal_sys \<Rightarrow> nat \<Rightarrow> bool" where
  "restarting s c \<longleftrightarrow> (case ck_state s c of CkFinalize _ \<Rightarrow> should_restart_log (modes s c) | _ \<Rightarrow> False)"

definition holders :: "nat \<Rightarrow> 'c wal_sys \<Rightarrow> nat \<Rightarrow> nat set" where
  "holders N s i = {c. c < N \<and> max_frame_read_lock_index (conns s c) = i}"

definition write_held :: "'c wal_sys \<Rightarrow> nat \<Rightarrow> bool" where
  "write_held s c \<longleftrightarrow> writing s c \<or> ck_guard s c = Some GuardWriter"

definition exclusive :: "nat \<Rightarrow> 'c wal_sys \<Rightarrow> nat \<Rightarrow> bool" where
  "exclusive N s i \<longleftrightarrow> (\<exists>c<N. if i = 0 then ck_guard s c \<noteq> None else restarting s c)"

text \<open>The words of the locks agree with what the connections hold.\<close>

definition marks_inv :: "nat \<Rightarrow> 'c wal_sys \<Rightarrow> mark list \<Rightarrow> bool" where
  "marks_inv N s M \<longleftrightarrow>
     marks_are M (shared s) \<and> length M = 5 \<and>
     (\<forall>i<5. fst (M ! i) = exclusive N s i \<and> fst (snd (M ! i)) = card (holders N s i))"

definition locks_inv :: "nat \<Rightarrow> 'c wal_sys \<Rightarrow> bool" where
  "locks_inv N s \<longleftrightarrow>
     (\<exists>M. marks_inv N s M) \<and>
     (\<exists>v. write_lock (shared s) = lock_of (\<exists>c<N. write_held s c, 0, v)) \<and>
     (\<exists>v. checkpoint_lock (shared s) = lock_of (\<exists>c<N. ck_guard s c \<noteq> None, 0, v)) \<and>
     (\<exists>v. vacuum_lock (shared s) = lock_of (False, card {c. c < N \<and> reading s c}, v)) \<and>
     (\<forall>c<N. \<forall>d<N. ck_guard s c \<noteq> None \<longrightarrow> ck_guard s d \<noteq> None \<longrightarrow> c = d) \<and>
     (\<forall>c<N. \<forall>d<N. write_held s c \<longrightarrow> write_held s d \<longrightarrow> c = d) \<and>
     (\<forall>c<N. (max_frame_read_lock_index (conns s c) < 5 \<or> \<not> reading s c) \<and>
        vacuum_read_guard (conns s c) = reading s c \<and>
        (f_guard (conns s c) = None \<longleftrightarrow> ck_state s c = CkStart) \<and>
        (ck_state s c \<noteq> CkStart \<longrightarrow> results s c = None) \<and>
        (writing s c \<longrightarrow> ck_guard s c \<noteq> Some GuardWriter))"

text \<open>The committed database is the database file under the frames not yet copied into it.\<close>

definition log_inv :: "'c wal_sys \<Rightarrow> bool" where
  "log_inv s \<longleftrightarrow>
     index_ok (slots s) (shared s) \<and> max_frame (shared s) \<le> length (slots s) \<and>
     nbackfills (shared s) \<le> max_frame (shared s) \<and> max_frame (shared s) < 2 ^ 32 \<and>
     (\<forall>p. overlay s (nbackfills (shared s) + 1) (max_frame (shared s)) p = committed s p) \<and>
     (initialized (shared s) \<or> max_frame (shared s) = 0) \<and> enabled (shared s)"

text \<open>The last frame of a connection's snapshot: a writer's own frames do not count.\<close>

definition bound :: "'c wal_sys \<Rightarrow> nat \<Rightarrow> nat" where
  "bound s c = (if writing s c then max_frame (shared s) else f_max_frame (conns s c))"

definition reader_inv :: "'c wal_sys \<Rightarrow> nat \<Rightarrow> bool" where
  "reader_inv s c \<longleftrightarrow>
     f_min_frame (conns s c) \<le> nbackfills (shared s) + 1 \<and> bound s c \<le> max_frame (shared s) \<and>
     (\<forall>p. overlay s (f_min_frame (conns s c)) (bound s c) p = base s c p) \<and>
     (0 < max_frame_read_lock_index (conns s c) \<longrightarrow>
        unat (read_mark_value (max_frame_read_lock_index (conns s c)) (shared s)) \<le> bound s c) \<and>
     f_transaction_count (conns s c) \<le> transaction_count (shared s) \<and>
     (f_transaction_count (conns s c) = transaction_count (shared s) \<longrightarrow> base s c = committed s)"

definition writer_inv :: "'c wal_sys \<Rightarrow> nat \<Rightarrow> bool" where
  "writer_inv s c \<longleftrightarrow>
     reading s c \<and> f_transaction_count (conns s c) = transaction_count (shared s) \<and>
     f_max_frame (conns s c) = max_frame (shared s) + length (txn s c) \<and>
     f_max_frame (conns s c) \<le> length (slots s) \<and> f_max_frame (conns s c) < 2 ^ 32 \<and>
     (txn s c \<noteq> [] \<longrightarrow> initialized (shared s)) \<and>
     (\<forall>i<length (txn s c). slots s ! (max_frame (shared s) + i) = fst (txn s c ! i) \<and>
        wal_log s (Suc (max_frame (shared s) + i)) = snd (txn s c ! i))"

definition conns_inv :: "nat \<Rightarrow> 'c wal_sys \<Rightarrow> bool" where
  "conns_inv N s \<longleftrightarrow>
     (\<forall>c<N. (reading s c \<longrightarrow> reader_inv s c) \<and> (writing s c \<longrightarrow> writer_inv s c) \<and> (\<not> writing s c \<longrightarrow> txn s c = []))"

text \<open>All newest frames up to \<open>mx\<close> are in the database file.\<close>

definition copied :: "'c wal_sys \<Rightarrow> nat \<Rightarrow> bool" where
  "copied s mx \<longleftrightarrow>
     mx \<le> max_frame (shared s) \<and>
     (\<forall>p f. newest (slots s) (nbackfills (shared s) + 1) mx p = Some f \<longrightarrow> db_file s p = wal_log s f)"

definition copying_inv :: "nat \<Rightarrow> 'c wal_sys \<Rightarrow> nat \<Rightarrow> bool" where
  "copying_inv N s c \<longleftrightarrow>
     (let oc = ongoing (conns s c)
      in oc_min_frame oc = nbackfills (shared s) + 1 \<and> oc_max_frame oc \<le> max_frame (shared s) \<and>
         (\<forall>p f. (p, f) \<in> set (oc_pages oc) \<longleftrightarrow> newest (slots s) (nbackfills (shared s) + 1) (oc_max_frame oc) p = Some f) \<and>
         distinct (map fst (oc_pages oc)) \<and> oc_current_page oc \<le> length (oc_pages oc) \<and>
         (\<forall>j<oc_current_page oc. db_file s (fst (oc_pages oc ! j)) = wal_log s (snd (oc_pages oc ! j))) \<and>
         (\<forall>d<N. reading s d \<longrightarrow> oc_max_frame oc \<le> bound s d) \<and>
         (oc_state oc = CkDetermineResult \<longrightarrow> oc_current_page oc = length (oc_pages oc)) \<and>
         (should_restart_log (modes s c) \<longrightarrow> f_guard (conns s c) = Some GuardWriter))"

definition result_ok :: "'c wal_sys \<Rightarrow> checkpoint_mode \<Rightarrow> checkpoint_guard option \<Rightarrow> checkpoint_result \<Rightarrow> bool" where
  "result_ok s mode g res \<longleftrightarrow>
     (if should_restart_log mode then g = Some GuardWriter \<and> max_frame (shared s) = 0
      else copied s (wal_total_backfilled res) \<and>
        (wal_checkpoint_backfilled res > 0 \<longrightarrow> nbackfills (shared s) \<le> wal_total_backfilled res))"

definition checkpoints_inv :: "nat \<Rightarrow> 'c wal_sys \<Rightarrow> bool" where
  "checkpoints_inv N s \<longleftrightarrow>
     (\<forall>c<N.
        (ck_state s c \<in> {CkSyncWal, CkProcessing, CkDetermineResult} \<longrightarrow> copying_inv N s c) \<and>
        (\<forall>res. ck_state s c = CkFinalize res \<longrightarrow> result_ok s (modes s c) (f_guard (conns s c)) res \<and> maybe_guard res = None) \<and>
        (\<forall>mode res. results s c = Some (mode, res) \<longrightarrow>
           (if maybe_guard res = None then wal_checkpoint_backfilled res = 0 else result_ok s mode (maybe_guard res) res)))"

definition wal_inv :: "nat \<Rightarrow> 'c wal_sys \<Rightarrow> bool" where
  "wal_inv N s \<longleftrightarrow> N < 2 ^ 31 - 1 \<and> locks_inv N s \<and> log_inv s \<and> conns_inv N s \<and> checkpoints_inv N s"

end
