(* ===== verification/WalViews.thy ===== *)
theory WalViews
  imports WalSystem
begin

text \<open>
  What connections see: views of the log over the database file, and when a step of another connection
  leaves them, and what is known of locks and checkpoints, alone.
\<close>


section \<open>Newest frames\<close>

definition in_slot :: "nat list \<Rightarrow> nat \<Rightarrow> nat \<Rightarrow> nat \<Rightarrow> nat \<Rightarrow> bool" where
  "in_slot L lo hi p f \<longleftrightarrow> lo \<le> f \<and> f \<le> hi \<and> 0 < f \<and> f \<le> length L \<and> L ! (f - 1) = p"

lemma newest_Some_iff: "newest L lo hi p = Some f \<longleftrightarrow> in_slot L lo hi p f \<and> (\<forall>g. in_slot L lo hi p g \<longrightarrow> g \<le> f)"
proof -
  let ?fs = "filter (\<lambda>f. lo \<le> f \<and> f \<le> hi) (slots_of L p)"
  have set: "f \<in> set ?fs \<longleftrightarrow> in_slot L lo hi p f" for f by (auto simp: slots_of_def in_slot_def)
  have srt: "sorted_wrt (<) ?fs" by (simp add: sorted_wrt_filter slots_of_sorted)
  show ?thesis
  proof (cases ?fs rule: rev_cases)
    case Nil
    then show ?thesis using set by (auto simp: newest_def)
  next
    case (snoc ys y)
    have "\<forall>x\<in>set ys. x < y" using srt snoc by (simp add: sorted_wrt_append)
    moreover have "in_slot L lo hi p g \<longleftrightarrow> g \<in> set ys \<or> g = y" for g using set[of g] snoc by auto
    moreover have "newest L lo hi p = Some y" using snoc by (simp add: newest_def)
    ultimately show ?thesis by (metis leD less_imp_le option.inject order_refl)
  qed
qed

lemma newest_None_iff: "newest L lo hi p = None \<longleftrightarrow> (\<forall>f. \<not> in_slot L lo hi p f)"
proof -
  have "f \<in> set (filter (\<lambda>f. lo \<le> f \<and> f \<le> hi) (slots_of L p)) \<longleftrightarrow> in_slot L lo hi p f" for f
    by (auto simp: slots_of_def in_slot_def)
  then show ?thesis by (auto simp: newest_def filter_empty_conv)
qed

lemma newest_range: "newest L lo hi p = Some f \<Longrightarrow> lo \<le> f \<and> f \<le> hi \<and> 0 < f \<and> f \<le> length L \<and> L ! (f - 1) = p"
  by (simp add: newest_Some_iff in_slot_def)

lemma newest_empty: "hi < lo \<Longrightarrow> newest L lo hi p = None"
  by (auto simp: newest_None_iff in_slot_def)

lemma newest_Nil [simp]: "newest [] lo hi p = None"
  by (auto simp: newest_None_iff in_slot_def)

lemma newest_cong:
  assumes "\<And>f. in_slot L lo hi p f \<longleftrightarrow> in_slot L' lo' hi' p f"
  shows "newest L lo hi p = newest L' lo' hi' p"
proof (cases "newest L' lo' hi' p")
  case None
  then have "newest L lo hi p = None" unfolding newest_None_iff using assms by simp
  then show ?thesis using None by simp
next
  case (Some f)
  then have "newest L lo hi p = Some f" unfolding newest_Some_iff using assms by simp
  then show ?thesis using Some by simp
qed

lemma newest_split:
  assumes "lo \<le> mid + 1" "mid \<le> hi"
  shows "newest L lo hi p = (case newest L (mid + 1) hi p of Some f \<Rightarrow> Some f | None \<Rightarrow> newest L lo mid p)"
proof -
  have split: "in_slot L lo hi p f \<longleftrightarrow> in_slot L (mid + 1) hi p f \<or> in_slot L lo mid p f" for f
    using assms by (auto simp: in_slot_def)
  show ?thesis
  proof (cases "newest L (mid + 1) hi p")
    case None
    then have "newest L lo hi p = newest L lo mid p"
      unfolding newest_None_iff using split by (intro newest_cong) simp
    then show ?thesis using None by simp
  next
    case (Some f)
    have "g \<le> f" if "in_slot L lo mid p g" for g
      using that newest_range[OF Some] by (simp add: in_slot_def)
    then have "newest L lo hi p = Some f" using Some split unfolding newest_Some_iff by blast
    then show ?thesis using Some by simp
  qed
qed

lemma newest_not_None: "newest L lo hi p = Some f \<Longrightarrow> lo' \<le> lo \<Longrightarrow> hi \<le> hi' \<Longrightarrow> newest L lo' hi' p \<noteq> None"
  by (auto simp: newest_Some_iff in_slot_def newest_None_iff simp del: not_None_eq)

section \<open>Views\<close>

lemma overlay_agree:
  assumes "take hi (slots s') = take hi (slots s)" "\<And>f. f \<le> hi \<Longrightarrow> wal_log s' f = wal_log s f" "db_file s' = db_file s"
  shows "overlay s' lo hi p = overlay s lo hi p"
proof -
  have "newest (slots s') lo hi p = newest (slots s) lo hi p" by (rule newest_agree[OF assms(1) order_refl])
  then show ?thesis using assms(2,3) newest_range[of "slots s" lo hi p]
    by (auto simp: overlay_def split: option.split)
qed

lemma overlay_db:
  assumes "newest (slots s) lo hi p \<noteq> None" "slots s' = slots s" "wal_log s' = wal_log s" "db_file s' = (db_file s)(p := x)"
  shows "overlay s' lo hi q = overlay s lo hi q"
  using assms by (auto simp: overlay_def split: option.split)

lemma overlay_split:
  assumes "lo \<le> mid + 1" "mid \<le> hi"
  shows "overlay s lo hi p = (case newest (slots s) (mid + 1) hi p of Some f \<Rightarrow> wal_log s f | None \<Rightarrow> overlay s lo mid p)"
  by (simp add: overlay_def newest_split[OF assms] split: option.split)

lemma apply_txn_snoc: "apply_txn (xs @ [(p, x)]) m = (apply_txn xs m)(p := x)"
proof (induction xs arbitrary: m)
  case (Cons a xs)
  then show ?case by (cases a) simp
qed simp

lemma txn_view:
  assumes "\<forall>i<length xs. L ! (n + i) = fst (xs ! i) \<and> lg (Suc (n + i)) = snd (xs ! i)" "n + length xs \<le> length L"
  shows "(case newest L (n + 1) (n + length xs) p of Some f \<Rightarrow> lg f | None \<Rightarrow> m p) = apply_txn xs m p"
  using assms
proof (induction xs rule: rev_induct)
  case Nil
  then show ?case by (simp add: newest_empty)
next
  case (snoc a xs)
  obtain q x where a: "a = (q, x)" by (cases a)
  have pre: "\<forall>i<length xs. L ! (n + i) = fst (xs ! i) \<and> lg (Suc (n + i)) = snd (xs ! i)" "n + length xs \<le> length L"
    using snoc.prems by (auto simp: nth_append split: if_splits)
  have top: "L ! (n + length xs) = q" "lg (Suc (n + length xs)) = x" using snoc.prems(1)[rule_format, of "length xs"] a by simp_all
  have "newest L (n + length xs + 1) (n + length xs + 1) p = (if p = q then Some (Suc (n + length xs)) else None)"
    using top(1) snoc.prems(2) by (cases "p = q") (auto simp: newest_Some_iff newest_None_iff in_slot_def le_Suc_eq)
  then show ?case
    using snoc.IH[OF pre] newest_split[of "n + 1" "n + length xs" "n + length xs + 1" L p] top(2) a
    by (simp add: apply_txn_snoc)
qed

text \<open>What a writer reads: its own writes on top of its snapshot.\<close>

lemma read_page_writer:
  assumes "log_inv s" "reader_inv s c" "writing s c \<longrightarrow> writer_inv s c" "\<not> writing s c \<longrightarrow> txn s c = []"
  shows "read_page s c p = Some (apply_txn (txn s c) (base s c) p)"
proof -
  let ?a = "f_min_frame (conns s c)" and ?b = "f_max_frame (conns s c)"
  have idx: "index_ok (slots s) (shared s)" using assms(1) by (simp add: log_inv_def)
  have "read_page s c p = Some (overlay s ?a ?b p)"
    using index_find(1)[OF idx] by (auto simp: read_page_def wal_find_frame_def overlay_def newest_empty split: option.split)
  moreover have "overlay s ?a ?b p = apply_txn (txn s c) (base s c) p"
  proof (cases "writing s c")
    case False
    then show ?thesis using assms(2,4) by (simp add: reader_inv_def bound_def)
  next
    case True
    let ?m = "max_frame (shared s)"
    have w: "writer_inv s c" "bound s c = ?m" using assms(3) True by (simp_all add: bound_def)
    then have b: "?b = ?m + length (txn s c)" "?m + length (txn s c) \<le> length (slots s)" by (simp_all add: writer_inv_def)
    have a: "?a \<le> ?m + 1" using assms(1,2) by (simp add: reader_inv_def log_inv_def)
    have "overlay s ?a ?b p = (case newest (slots s) (?m + 1) ?b p of Some f \<Rightarrow> wal_log s f | None \<Rightarrow> base s c p)"
      using overlay_split[OF a, of ?b s p] b(1) assms(2) w(2) by (simp add: reader_inv_def cong: option.case_cong)
    also have "\<dots> = apply_txn (txn s c) (base s c) p"
      using txn_view[where xs = "txn s c" and L = "slots s" and n = ?m and lg = "wal_log s" and p = p and m = "base s c"] w(1) b
      by (simp add: writer_inv_def)
    finally show ?thesis .
  qed
  ultimately show ?thesis by simp
qed

section \<open>Frames\<close>

text \<open>What a connection holds of the locks.\<close>

definition held_of :: "'c wal_sys \<Rightarrow> nat \<Rightarrow> nat \<times> bool \<times> bool \<times> checkpoint_guard option \<times> bool \<times> bool \<times> (checkpoint_mode \<times> checkpoint_result) option" where
  "held_of s c =
     (max_frame_read_lock_index (conns s c), writing s c, vacuum_read_guard (conns s c), f_guard (conns s c),
      restarting s c, ck_state s c = CkStart, results s c)"

definition same_locks :: "wal_file_shared \<Rightarrow> wal_file_shared \<Rightarrow> bool" where
  "same_locks sh sh' \<longleftrightarrow>
     read_locks sh' = read_locks sh \<and> write_lock sh' = write_lock sh \<and>
     checkpoint_lock sh' = checkpoint_lock sh \<and> vacuum_lock sh' = vacuum_lock sh"

lemma held_of_fields:
  assumes "held_of s' c = held_of s c"
  shows "reading s' c = reading s c" "writing s' c = writing s c" "ck_guard s' c = ck_guard s c" "write_held s' c = write_held s c"
    "max_frame_read_lock_index (conns s' c) = max_frame_read_lock_index (conns s c)" "restarting s' c = restarting s c"
    "vacuum_read_guard (conns s' c) = vacuum_read_guard (conns s c)" "f_guard (conns s' c) = f_guard (conns s c)"
    "(ck_state s' c = CkStart) = (ck_state s c = CkStart)" "results s' c = results s c"
  using assms by (simp_all add: held_of_def reading_def ck_guard_def write_held_def cong: option.case_cong)

lemma locks_inv_cong:
  assumes "\<forall>c<N. held_of s' c = held_of s c" "same_locks (shared s) (shared s')" "locks_inv N s"
  shows "locks_inv N s'"
proof -
  note f = assms(1)[rule_format, THEN held_of_fields(1)] assms(1)[rule_format, THEN held_of_fields(2)]
    assms(1)[rule_format, THEN held_of_fields(3)] assms(1)[rule_format, THEN held_of_fields(4)]
    assms(1)[rule_format, THEN held_of_fields(5)] assms(1)[rule_format, THEN held_of_fields(6)]
    assms(1)[rule_format, THEN held_of_fields(7)] assms(1)[rule_format, THEN held_of_fields(8)]
    assms(1)[rule_format, THEN held_of_fields(9)] assms(1)[rule_format, THEN held_of_fields(10)]
  have h: "holders N s' i = holders N s i" "exclusive N s' i = exclusive N s i" for i
    using f by (auto simp: holders_def exclusive_def)
  have r: "{c. c < N \<and> reading s' c} = {c. c < N \<and> reading s c}" "(\<exists>c<N. write_held s' c) = (\<exists>c<N. write_held s c)"
    "(\<exists>c<N. ck_guard s' c \<noteq> None) = (\<exists>c<N. ck_guard s c \<noteq> None)" using f by auto
  have m: "marks_inv N s' M = marks_inv N s M" for M
    using assms(2) by (simp add: marks_inv_def marks_are_def h same_locks_def)
  show ?thesis using assms(2,3) f unfolding locks_inv_def r m same_locks_def by simp
qed

lemma only_writer:
  assumes "locks_inv N s" "c < N" "d < N" "writing s c"
  shows "d \<noteq> c \<Longrightarrow> \<not> writing s d" "ck_guard s d \<noteq> Some GuardWriter"
  using assms unfolding locks_inv_def write_held_def by (metis, metis)

lemma only_guard:
  assumes "locks_inv N s" "c < N" "d < N" "ck_guard s c \<noteq> None" "ck_guard s d \<noteq> None"
  shows "d = c"
  using assms unfolding locks_inv_def by metis

lemma locks_local:
  assumes "locks_inv N s" "c < N"
  shows "max_frame_read_lock_index (conns s c) < 5 \<or> \<not> reading s c" "vacuum_read_guard (conns s c) = reading s c"
    "f_guard (conns s c) = None \<longleftrightarrow> ck_state s c = CkStart" "ck_state s c \<noteq> CkStart \<Longrightarrow> results s c = None"
  using assms unfolding locks_inv_def by auto

lemma guard_state:
  assumes "locks_inv N s" "c < N"
  shows "ck_state s c \<noteq> CkStart \<Longrightarrow> ck_guard s c = f_guard (conns s c) \<and> ck_guard s c \<noteq> None \<and> results s c = None"
    "results s c = Some (mode, res) \<Longrightarrow> ck_guard s c = maybe_guard res \<and> ck_state s c = CkStart"
  using locks_local(3,4)[OF assms] by (auto simp: ck_guard_def)

lemma read_mark_same: "same_locks sh sh' \<Longrightarrow> read_mark_value i sh' = read_mark_value i sh"
  by (simp add: same_locks_def read_mark_value_def)

lemma reader_frame:
  assumes "reader_inv s d" "conns s' d = conns s d" "base s' d = base s d"
    "nbackfills (shared s) \<le> nbackfills (shared s')" "max_frame (shared s) \<le> max_frame (shared s')"
    "writing s d \<Longrightarrow> max_frame (shared s') = max_frame (shared s)"
    "\<And>p. overlay s' (f_min_frame (conns s d)) (bound s d) p = overlay s (f_min_frame (conns s d)) (bound s d) p"
    "0 < max_frame_read_lock_index (conns s d) \<Longrightarrow>
       read_mark_value (max_frame_read_lock_index (conns s d)) (shared s') = read_mark_value (max_frame_read_lock_index (conns s d)) (shared s)"
    "transaction_count (shared s) < transaction_count (shared s') \<or>
       transaction_count (shared s') = transaction_count (shared s) \<and> committed s' = committed s"
  shows "reader_inv s' d"
proof -
  have "bound s' d = bound s d" using assms(2,6) by (simp add: bound_def)
  then show ?thesis using assms unfolding reader_inv_def by auto
qed

lemma copied_frame:
  assumes "copied s mx" "nbackfills (shared s') = nbackfills (shared s)" "max_frame (shared s) \<le> max_frame (shared s')"
    "take (max_frame (shared s)) (slots s') = take (max_frame (shared s)) (slots s)"
    "\<And>f. f \<le> max_frame (shared s) \<Longrightarrow> wal_log s' f = wal_log s f" "db_file s' = db_file s"
  shows "copied s' mx"
proof -
  have mx: "mx \<le> max_frame (shared s)" using assms(1) by (simp add: copied_def)
  then have "newest (slots s') lo mx p = newest (slots s) lo mx p" for lo p by (rule newest_agree[OF assms(4)])
  then show ?thesis using assms mx newest_range[of "slots s" _ mx] by (fastforce simp: copied_def)
qed

lemma copying_frame:
  assumes "copying_inv N s c" "ongoing (conns s' c) = ongoing (conns s c)" "f_guard (conns s' c) = f_guard (conns s c)" "modes s' c = modes s c"
    "nbackfills (shared s') = nbackfills (shared s)" "max_frame (shared s) \<le> max_frame (shared s')"
    "take (max_frame (shared s)) (slots s') = take (max_frame (shared s)) (slots s)"
    "\<And>f. f \<le> max_frame (shared s) \<Longrightarrow> wal_log s' f = wal_log s f" "db_file s' = db_file s"
    "\<And>d. d < N \<Longrightarrow> reading s' d \<Longrightarrow> reading s d \<and> bound s d \<le> bound s' d \<or> max_frame (shared s) \<le> bound s' d"
  shows "copying_inv N s' c"
proof -
  let ?oc = "ongoing (conns s c)"
  note inv = assms(1)[unfolded copying_inv_def Let_def]
  have mx: "oc_max_frame ?oc \<le> max_frame (shared s)" using inv by simp
  then have nw: "newest (slots s') lo (oc_max_frame ?oc) p = newest (slots s) lo (oc_max_frame ?oc) p" for lo p
    by (rule newest_agree[OF assms(7)])
  have "wal_log s' (snd (oc_pages ?oc ! j)) = wal_log s (snd (oc_pages ?oc ! j))" if "j < oc_current_page ?oc" for j
  proof -
    have "oc_pages ?oc ! j \<in> set (oc_pages ?oc)" using inv that by simp
    then have "newest (slots s) (nbackfills (shared s) + 1) (oc_max_frame ?oc) (fst (oc_pages ?oc ! j)) = Some (snd (oc_pages ?oc ! j))"
      using inv by (metis prod.collapse)
    then show ?thesis using newest_range mx assms(8) le_trans by blast
  qed
  moreover have "oc_max_frame ?oc \<le> bound s' d" if "d < N" "reading s' d" for d
    using assms(10)[OF that] inv that(1) mx by fastforce
  ultimately show ?thesis using inv nw assms(2-6,9) mx by (simp add: copying_inv_def Let_def)
qed

end
