(* ===== verification/WalSteps.thy ===== *)
theory WalSteps
  imports WalViews
begin

text \<open>
  The steps of a writer keep the invariant of the machine: appending, committing and rolling back
  frames and writing the header of the log.
\<close>

section \<open>Steps of the writer\<close>

lemma result_frame:
  assumes "result_ok s mode g res" "g \<noteq> Some GuardWriter" "nbackfills (shared s') = nbackfills (shared s)"
    "max_frame (shared s) \<le> max_frame (shared s')"
    "take (max_frame (shared s)) (slots s') = take (max_frame (shared s)) (slots s)"
    "\<And>f. f \<le> max_frame (shared s) \<Longrightarrow> wal_log s' f = wal_log s f" "db_file s' = db_file s"
  shows "result_ok s' mode g res"
  using assms copied_frame[of s _ s'] by (auto simp: result_ok_def split: if_splits)

text \<open>What a step of the writer \<open>c\<close> may change.\<close>

definition writer_step :: "nat \<Rightarrow> 'c wal_sys \<Rightarrow> 'c wal_sys \<Rightarrow> bool" where
  "writer_step c s s' \<longleftrightarrow>
     (\<forall>d. d \<noteq> c \<longrightarrow> conns s' d = conns s d \<and> base s' d = base s d \<and> txn s' d = txn s d) \<and>
     results s' = results s \<and> modes s' = modes s \<and> held_of s' c = held_of s c \<and>
     (ck_state s c = CkStart \<or> ongoing (conns s' c) = ongoing (conns s c)) \<and>
     same_locks (shared s) (shared s') \<and> nbackfills (shared s') = nbackfills (shared s) \<and>
     max_frame (shared s) \<le> max_frame (shared s') \<and> db_file s' = db_file s \<and>
     take (max_frame (shared s)) (slots s') = take (max_frame (shared s)) (slots s) \<and>
     (\<forall>f\<le>max_frame (shared s). wal_log s' f = wal_log s f) \<and>
     (transaction_count (shared s) < transaction_count (shared s') \<or>
        transaction_count (shared s') = transaction_count (shared s) \<and> committed s' = committed s)"

lemma writer_stepD:
  assumes "writer_step c s s'"
  shows "d \<noteq> c \<Longrightarrow> conns s' d = conns s d" "d \<noteq> c \<Longrightarrow> base s' d = base s d" "d \<noteq> c \<Longrightarrow> txn s' d = txn s d"
    "results s' = results s" "modes s' = modes s" "same_locks (shared s) (shared s')"
    "nbackfills (shared s') = nbackfills (shared s)" "max_frame (shared s) \<le> max_frame (shared s')" "db_file s' = db_file s"
    "take (max_frame (shared s)) (slots s') = take (max_frame (shared s)) (slots s)"
    "f \<le> max_frame (shared s) \<Longrightarrow> wal_log s' f = wal_log s f"
    "transaction_count (shared s) < transaction_count (shared s') \<or>
        transaction_count (shared s') = transaction_count (shared s) \<and> committed s' = committed s"
  using assms unfolding writer_step_def by blast+

lemma writer_step_ongoing: "writer_step c s s' \<Longrightarrow> ck_state s d = CkStart \<or> ongoing (conns s' d) = ongoing (conns s d)"
  by (cases "d = c") (auto simp: writer_step_def)

lemma writer_step_held:
  assumes "writer_step c s s'"
  shows "held_of s' d = held_of s d"
proof (cases "d = c")
  case True
  then show ?thesis using assms unfolding writer_step_def by blast
next
  case False
  then show ?thesis using writer_stepD(1,4,5)[OF assms] by (simp add: held_of_def restarting_def cong: checkpoint_state.case_cong)
qed

lemma writer_step_conns:
  assumes "wal_inv N s" "c < N" "writing s c" "writer_step c s s'" "reader_inv s' c" "writer_inv s' c"
  shows "conns_inv N s'"
  unfolding conns_inv_def
proof (intro allI impI)
  fix d assume d: "d < N"
  note h = held_of_fields[OF writer_step_held[OF assms(4), of d]]
  note st = writer_stepD[OF assms(4)]
  have lk: "locks_inv N s" "conns_inv N s" using assms(1) by (simp_all add: wal_inv_def)
  show "(reading s' d \<longrightarrow> reader_inv s' d) \<and> (writing s' d \<longrightarrow> writer_inv s' d) \<and> (\<not> writing s' d \<longrightarrow> txn s' d = [])"
  proof (cases "d = c")
    case True
    then show ?thesis using assms(3,5,6) h(2) by simp
  next
    case False
    then have nw: "\<not> writing s d" using only_writer(1)[OF lk(1) assms(2) d assms(3)] by simp
    have "reader_inv s' d" if "reading s d"
    proof -
      have r: "reader_inv s d" using lk(2) d that by (simp add: conns_inv_def)
      then have b: "bound s d \<le> max_frame (shared s)" by (simp add: reader_inv_def)
      have "take (bound s d) (slots s') = take (bound s d) (slots s)" using b st(10) by (metis min_def take_take)
      then have "overlay s' lo (bound s d) p = overlay s lo (bound s d) p" for lo p
        by (rule overlay_agree[OF _ _ st(9)]) (use b st(11) in auto)
      then show ?thesis
        using st(1,2)[OF False] st(7,8,12) nw read_mark_same[OF st(6)] by (intro reader_frame[OF r]) auto
    qed
    then show ?thesis using h(1,2) nw st(3)[OF False] lk(2) d by (simp add: conns_inv_def)
  qed
qed

text \<open>What the invariant says of the checkpoint of one connection.\<close>

definition ck_inv :: "nat \<Rightarrow> 'c wal_sys \<Rightarrow> nat \<Rightarrow> bool" where
  "ck_inv N s d \<longleftrightarrow>
     (ck_state s d \<in> {CkSyncWal, CkProcessing, CkDetermineResult} \<longrightarrow> copying_inv N s d) \<and>
     (\<forall>res. ck_state s d = CkFinalize res \<longrightarrow> result_ok s (modes s d) (f_guard (conns s d)) res \<and> maybe_guard res = None) \<and>
     (\<forall>mode res. results s d = Some (mode, res) \<longrightarrow>
        (if maybe_guard res = None then wal_checkpoint_backfilled res = 0 else result_ok s mode (maybe_guard res) res))"

lemma checkpoints_inv_eq: "checkpoints_inv N s \<longleftrightarrow> (\<forall>d<N. ck_inv N s d)"
  by (simp add: checkpoints_inv_def ck_inv_def)

lemma ck_inv_frame:
  assumes "ck_inv N s d" "ck_guard s d \<noteq> Some GuardWriter" "locks_inv N s" "d < N" "held_of s' d = held_of s d" "modes s' d = modes s d"
    "ck_state s d = CkStart \<or> ongoing (conns s' d) = ongoing (conns s d)"
    "nbackfills (shared s') = nbackfills (shared s)" "max_frame (shared s) \<le> max_frame (shared s')"
    "take (max_frame (shared s)) (slots s') = take (max_frame (shared s)) (slots s)"
    "\<And>f. f \<le> max_frame (shared s) \<Longrightarrow> wal_log s' f = wal_log s f" "db_file s' = db_file s"
    "\<And>e. e < N \<Longrightarrow> reading s' e \<Longrightarrow> reading s e \<and> bound s e \<le> bound s' e \<or> max_frame (shared s) \<le> bound s' e"
  shows "ck_inv N s' d"
proof -
  note h = held_of_fields[OF assms(5)]
  have ck: "ck_state s' d = ck_state s d" using assms(7) h(9) by auto
  have rf: "result_ok s mode g res \<Longrightarrow> g \<noteq> Some GuardWriter \<Longrightarrow> result_ok s' mode g res" for mode g res
    by (rule result_frame) (use assms(8-12) in auto)
  have "copying_inv N s' d" if "ck_state s d \<in> {CkSyncWal, CkProcessing, CkDetermineResult}"
  proof (rule copying_frame[OF _ _ h(8) assms(6,8-13)])
    show "copying_inv N s d" using assms(1) that unfolding ck_inv_def by (rule conjunct1[THEN mp])
    show "ongoing (conns s' d) = ongoing (conns s d)" using assms(7) that by auto
  qed
  moreover have "result_ok s' (modes s' d) (f_guard (conns s' d)) res \<and> maybe_guard res = None" if "ck_state s d = CkFinalize res" for res
  proof -
    have "f_guard (conns s d) \<noteq> Some GuardWriter" using guard_state(1)[OF assms(3,4)] assms(2) that by simp
    then show ?thesis using assms(1) that rf h(8) assms(6) by (simp add: ck_inv_def)
  qed
  moreover have "if maybe_guard res = None then wal_checkpoint_backfilled res = 0 else result_ok s' mode (maybe_guard res) res"
    if "results s d = Some (mode, res)" for mode res
  proof -
    have "maybe_guard res \<noteq> Some GuardWriter" using guard_state(2)[OF assms(3,4) that] assms(2) by simp
    then show ?thesis using assms(1) that rf by (simp add: ck_inv_def)
  qed
  ultimately show ?thesis unfolding ck_inv_def ck h(10) by blast
qed

lemma writer_step_checkpoints:
  assumes "wal_inv N s" "c < N" "writing s c" "writer_step c s s'"
  shows "checkpoints_inv N s'"
  unfolding checkpoints_inv_eq
proof (intro allI impI)
  fix d assume d: "d < N"
  note st = writer_stepD[OF assms(4)]
  have lk: "locks_inv N s" "ck_inv N s d" using assms(1) d by (simp_all add: wal_inv_def checkpoints_inv_eq)
  have bnd: "reading s e \<and> bound s e \<le> bound s' e" if "e < N" "reading s' e" for e
  proof (cases "e = c")
    case True
    note h = held_of_fields(1,2)[OF writer_step_held[OF assms(4), of e]]
    have "writing s e" using True assms(3) by simp
    then show ?thesis using that(2) h st(8) by (simp add: bound_def)
  next
    case False
    have "conns s' e = conns s e" using st(1)[OF False] .
    then show ?thesis
      using that(2) only_writer(1)[OF lk(1) assms(2) that(1) assms(3) False] by (simp add: bound_def reading_def)
  qed
  show "ck_inv N s' d"
  proof (rule ck_inv_frame[OF lk(2) only_writer(2)[OF lk(1) assms(2) d assms(3)] lk(1) d writer_step_held[OF assms(4)]])
    show "modes s' d = modes s d" by (simp add: st(5))
  qed (rule writer_step_ongoing[OF assms(4)] st(7-11) disjI1[OF bnd]; assumption)+
qed

lemma writer_step_inv:
  assumes "wal_inv N s" "c < N" "writing s c" "writer_step c s s'" "log_inv s'" "reader_inv s' c" "writer_inv s' c"
  shows "wal_inv N s'"
proof -
  have "locks_inv N s'"
    using locks_inv_cong[of N s' s] writer_step_held[OF assms(4)] assms(1,4) by (simp add: wal_inv_def writer_step_def)
  then show ?thesis
    using assms(1,5) writer_step_conns[OF assms(1-4,6,7)] writer_step_checkpoints[OF assms(1-4)] by (simp add: wal_inv_def)
qed

lemma wal_invD:
  assumes "wal_inv N s" "c < N"
  shows "log_inv s" "locks_inv N s" "reading s c \<Longrightarrow> reader_inv s c" "writing s c \<Longrightarrow> writer_inv s c"
    "\<not> writing s c \<Longrightarrow> txn s c = []" "ck_inv N s c"
  using assms by (simp_all add: wal_inv_def conns_inv_def checkpoints_inv_eq)

lemma writer_views:
  assumes "wal_inv N s" "c < N" "writing s c"
  shows "log_inv s" "reader_inv s c" "writer_inv s c" "base s c = committed s"
  using wal_invD[OF assms(1,2)] assms(3) by (simp_all add: writer_inv_def reader_inv_def)

lemma writer_txn:
  assumes "writer_inv s c"
  shows "f_max_frame (conns s c) = max_frame (shared s) + length (txn s c)" "f_max_frame (conns s c) \<le> length (slots s)" "reading s c"
    "\<And>i. i < length (txn s c) \<Longrightarrow> slots s ! (max_frame (shared s) + i) = fst (txn s c ! i) \<and>
       wal_log s (Suc (max_frame (shared s) + i)) = snd (txn s c ! i)"
    "f_transaction_count (conns s c) = transaction_count (shared s)" "f_max_frame (conns s c) < 2 ^ 32"
    "txn s c \<noteq> [] \<Longrightarrow> initialized (shared s)"
  using assms by (simp_all add: writer_inv_def)

lemma lock_index_from [simp]: "lock_index (from_lock_index i) = i"
  by (simp add: from_lock_index_def)

lemma append_position_ok:
  assumes "writer_inv s c" "initialized (shared s)"
  obtains seed conn where "append_position (conns s c, shared s) = Inr (seed, Suc (f_max_frame (conns s c)), conn)"
    "f_max_frame conn = f_max_frame (conns s c)" "f_transaction_count conn = f_transaction_count (conns s c)"
    "max_frame_read_lock_index conn = max_frame_read_lock_index (conns s c)" "write_lock_held conn = writing s c"
    "vacuum_read_guard conn = vacuum_read_guard (conns s c)" "f_guard conn = f_guard (conns s c)" "ongoing conn = ongoing (conns s c)"
    "f_min_frame conn = f_min_frame (conns s c) \<or> f_min_frame conn = Suc (nbackfills (shared s))"
proof -
  let ?sh = "shared s" and ?conn = "conns s c"
  let ?new = "if txn s c = [] \<and> snapshot_of ?sh \<noteq> connection_snapshot ?conn
    then install_connection_state (snapshot_of ?sh) (from_lock_index (max_frame_read_lock_index ?conn)) ?conn else ?conn"
  have w: "f_max_frame ?conn = max_frame ?sh + length (txn s c)" "f_transaction_count ?conn = transaction_count ?sh"
    using assms(1) by (simp_all add: writer_inv_def)
  have "\<exists>seed. append_position (?conn, ?sh) = Inr (seed, Suc (f_max_frame ?conn), ?new)"
    using assms(2) w(1) by (cases "txn s c") (simp_all add: append_position_def Let_def)
  then show ?thesis
    using w by (elim exE) (rule that, assumption, auto simp: install_connection_state_def snapshot_of_def sn_min_frame_def)
qed

lemma set_conn_fields [simp]:
  "shared (set_conn c conn sh s) = sh" "conns (set_conn c conn sh s) = (conns s)(c := conn)"
  "results (set_conn c conn sh s) = results s" "modes (set_conn c conn sh s) = modes s"
  "wal_log (set_conn c conn sh s) = wal_log s" "db_file (set_conn c conn sh s) = db_file s" "slots (set_conn c conn sh s) = slots s"
  "committed (set_conn c conn sh s) = committed s" "base (set_conn c conn sh s) = base s" "txn (set_conn c conn sh s) = txn s"
  by (simp_all add: set_conn_def)

lemma cache_frame_fields [simp]:
  "max_frame (cache_frame p f sh) = max_frame sh" "nbackfills (cache_frame p f sh) = nbackfills sh"
  "transaction_count (cache_frame p f sh) = transaction_count sh" "initialized (cache_frame p f sh) = initialized sh"
  "enabled (cache_frame p f sh) = enabled sh" "same_locks sh (cache_frame p f sh)"
  by (simp_all add: cache_frame_def same_locks_def Let_def)

lemma held_of_same:
  assumes "max_frame_read_lock_index (conns s' c) = max_frame_read_lock_index (conns s c)" "writing s' c = writing s c"
    "vacuum_read_guard (conns s' c) = vacuum_read_guard (conns s c)" "f_guard (conns s' c) = f_guard (conns s c)"
    "ongoing (conns s' c) = ongoing (conns s c)" "modes s' c = modes s c" "results s' c = results s c"
  shows "held_of s' c = held_of s c"
  using assms by (simp add: held_of_def restarting_def cong: checkpoint_state.case_cong)

lemma append_keeps:
  assumes "wal_inv N s" "wal_op_ok N (WAppend c p x ck) s"
  shows "\<exists>s'. wal_exec (WAppend c p x ck) s = Inr s' \<and> wal_inv N s'"
proof -
  let ?m = "max_frame (shared s)" and ?n = "f_max_frame (conns s c)" and ?t = "txn s c"
  have ok: "c < N" "writing s c" "initialized (shared s)" "Suc ?n < 2 ^ 32" using assms(2) by simp_all
  note v = writer_views[OF assms(1) ok(1,2)] and w = writer_txn[OF writer_views(3)[OF assms(1) ok(1,2)]]
  obtain seed conn where pos: "append_position (conns s c, shared s) = Inr (seed, Suc ?n, conn)"
    and conn: "f_max_frame conn = ?n" "f_transaction_count conn = f_transaction_count (conns s c)"
      "max_frame_read_lock_index conn = max_frame_read_lock_index (conns s c)" "write_lock_held conn = writing s c"
      "vacuum_read_guard conn = vacuum_read_guard (conns s c)" "f_guard conn = f_guard (conns s c)" "ongoing conn = ongoing (conns s c)"
      "f_min_frame conn = f_min_frame (conns s c) \<or> f_min_frame conn = Suc (nbackfills (shared s))"
    by (rule append_position_ok[OF v(3) ok(3)])
  define s' where "s' = (set_conn c (conn\<lparr>dirty := True, f_last_checksum := ck, f_max_frame := Suc ?n\<rparr>) (cache_frame p (Suc ?n) (shared s)) s)
    \<lparr>wal_log := (wal_log s)(Suc ?n := x), slots := take ?n (slots s) @ [p], txn := (txn s)(c := ?t @ [(p, x)])\<rparr>"
  have ex: "wal_exec (WAppend c p x ck) s = Inr s'" using pos by (simp add: complete_append_frame_def s'_def Let_def)
  have tk: "take ?m (slots s') = take ?m (slots s)" using w(1,2) by (simp add: s'_def)
  have lg: "wal_log s' f = wal_log s f" if "f \<le> ?m" for f using that w(1) by (simp add: s'_def)
  have ov: "overlay s' lo ?m q = overlay s lo ?m q" for lo q by (rule overlay_agree[OF tk lg]) (simp_all add: s'_def)
  have st: "writer_step c s s'"
    unfolding writer_step_def using tk lg conn(3-7) by (auto simp: s'_def intro!: held_of_same)
  have l: "log_inv s'"
    using v(1) index_cache_frame[of "slots s" "shared s" "Suc ?n" p] w(1,2) ov by (simp add: log_inv_def s'_def)
  have b: "bound s' c = ?m" "bound s c = ?m" using ok(2) conn(4) by (simp_all add: bound_def s'_def)
  have "overlay s' (f_min_frame conn) ?m q = base s c q" for q
    using conn(8) v(1,2,4) ov[of _ q] b(2) by (auto simp: reader_inv_def log_inv_def)
  then have r: "reader_inv s' c"
    using v(2) b conn(2,3) conn(8) w(5) read_mark_same[of "shared s" "cache_frame p (Suc ?n) (shared s)"]
    by (auto simp: reader_inv_def s'_def)
  have "writer_inv s' c"
    using w ok(3,4) conn(2,3) by (simp add: writer_inv_def s'_def nth_append less_Suc_eq reading_def)
  then show ?thesis using ex writer_step_inv[OF assms(1) ok(1,2) st l r] by blast
qed

lemma commit_keeps:
  assumes "wal_inv N s" "wal_op_ok N (WCommit c) s"
  shows "\<exists>s'. wal_exec (WCommit c) s = Inr s' \<and> wal_inv N s'"
proof -
  let ?m = "max_frame (shared s)" and ?n = "f_max_frame (conns s c)" and ?t = "txn s c" and ?nb = "nbackfills (shared s)"
  let ?now = "apply_txn ?t (committed s)" and ?tc = "Suc (f_transaction_count (conns s c))"
  have ok: "c < N" "writing s c" using assms(2) by simp_all
  note v = writer_views[OF assms(1) ok(1,2)] and w = writer_txn[OF writer_views(3)[OF assms(1) ok(1,2)]]
  define s' where "s' = (set_conn c ((conns s c)\<lparr>f_transaction_count := ?tc\<rparr>) (publish_commit ?n (f_last_checksum (conns s c)) ?tc (shared s)) s)
    \<lparr>committed := ?now, base := (base s)(c := ?now), txn := (txn s)(c := [])\<rparr>"
  have ex: "wal_exec (WCommit c) s = Inr s'" by (simp add: finish_append_frames_commit_def Let_def s'_def)
  have st: "writer_step c s s'"
    unfolding writer_step_def using w(1,5) by (auto simp: s'_def publish_commit_def same_locks_def intro!: held_of_same)
  have ov: "overlay s' lo ?n q = ?now q" if "lo \<le> Suc ?m" "\<And>q. overlay s lo ?m q = committed s q" for lo q
  proof -
    have "overlay s' lo ?n q = overlay s lo ?n q" by (rule overlay_agree) (simp_all add: s'_def)
    also have "\<dots> = (case newest (slots s) (?m + 1) ?n q of Some f \<Rightarrow> wal_log s f | None \<Rightarrow> committed s q)"
      using overlay_split[of lo ?m ?n s q] that w(1) by (simp cong: option.case_cong)
    also have "\<dots> = ?now q"
      using txn_view[where xs = ?t and L = "slots s" and n = ?m and lg = "wal_log s" and p = q and m = "committed s"] w(1,2,4) by simp
    finally show ?thesis .
  qed
  have l: "log_inv s'"
    using v(1) w ov[of "?nb + 1"] by (auto simp: log_inv_def s'_def publish_commit_def index_ok_def)
  have b: "bound s' c = ?n" "bound s c = ?m" using ok(2) by (simp_all add: bound_def s'_def publish_commit_def)
  have mn: "f_min_frame (conns s c) \<le> Suc ?m" using v(1,2) by (simp add: log_inv_def reader_inv_def)
  have r: "reader_inv s' c"
    using v(2,4) b w(1) ov[OF mn] by (auto simp: reader_inv_def s'_def publish_commit_def read_mark_value_def)
  have "writer_inv s' c" using w ok(2) by (auto simp: writer_inv_def s'_def publish_commit_def reading_def)
  then show ?thesis using ex writer_step_inv[OF assms(1) ok(1,2) st l r] by blast
qed

lemma rollback_cache_fields [simp]:
  "max_frame (rollback_cache n sh) = max_frame sh" "nbackfills (rollback_cache n sh) = nbackfills sh"
  "transaction_count (rollback_cache n sh) = transaction_count sh" "initialized (rollback_cache n sh) = initialized sh"
  "enabled (rollback_cache n sh) = enabled sh" "same_locks sh (rollback_cache n sh)"
  by (simp_all add: rollback_cache_def same_locks_def Let_def)

text \<open>Cutting the log at \<open>n\<close>, at or after the last commit.\<close>

lemma cut_keeps:
  assumes "wal_inv N s" "c < N" "writing s c" "max_frame (shared s) \<le> n" "n \<le> f_max_frame (conns s c)"
    "ongoing conn = ongoing (conns s c) \<or> ck_state s c = CkStart \<and> oc_state (ongoing conn) = CkStart"
    "f_max_frame conn = n" "f_transaction_count conn = f_transaction_count (conns s c)" "f_min_frame conn = f_min_frame (conns s c)"
    "max_frame_read_lock_index conn = max_frame_read_lock_index (conns s c)" "write_lock_held conn = writing s c"
    "vacuum_read_guard conn = vacuum_read_guard (conns s c)" "f_guard conn = f_guard (conns s c)"
    "s' = (set_conn c conn (rollback_cache n (shared s)) s)\<lparr>slots := take n (slots s), txn := (txn s)(c := take (n - max_frame (shared s)) (txn s c))\<rparr>"
  shows "wal_inv N s'"
proof -
  let ?m = "max_frame (shared s)" and ?t = "txn s c"
  note v = writer_views[OF assms(1-3)] and w = writer_txn[OF writer_views(3)[OF assms(1-3)]]
  note conn = assms(7-13)
  have tk: "take ?m (slots s') = take ?m (slots s)" using assms(4) by (simp add: assms(14) min_def)
  have ov: "overlay s' lo ?m q = overlay s lo ?m q" for lo q by (rule overlay_agree[OF tk]) (simp_all add: assms(14))
  have hd: "held_of s' c = held_of s c" 
    using assms(6) conn by (auto simp: held_of_def restarting_def assms(14) cong: checkpoint_state.case_cong)
  have st: "writer_step c s s'"
    unfolding writer_step_def using tk hd assms(6) by (auto simp: assms(14))
  have l: "log_inv s'"
    using v(1) index_rollback[of "slots s" "shared s" n] assms(4,5) w(2) ov by (simp add: log_inv_def assms(14))
  have b: "bound s' c = ?m" "bound s c = ?m" using assms(3) conn by (simp_all add: bound_def assms(14))
  have r: "reader_inv s' c"
    using v(2) b conn ov read_mark_same[of "shared s" "rollback_cache n (shared s)"] by (auto simp: reader_inv_def assms(14))
  have "writer_inv s' c"
    using w assms(4,5) conn v(3) by (auto simp: writer_inv_def assms(14) reading_def)
  then show ?thesis by (rule writer_step_inv[OF assms(1-3) st l r])
qed

lemma rollback_keeps:
  assumes "wal_inv N s" "wal_op_ok N (WRollback c) s"
  shows "\<exists>s'. wal_exec (WRollback c) s = Inr s' \<and> wal_inv N s'"
proof -
  have ok: "c < N" "writing s c" "ck_state s c = CkStart" using assms(2) by simp_all
  note w = writer_txn[OF writer_views(3)[OF assms(1) ok(1,2)]]
  let ?oc = "\<lparr>oc_min_frame = 0, oc_max_frame = 0, oc_current_page = 0, oc_state = CkStart, oc_pages = []\<rparr>"
  let ?conn = "(conns s c)\<lparr>f_last_checksum := last_checksum (shared s), f_max_frame := max_frame (shared s), ongoing := ?oc\<rparr>"
  show ?thesis
    using cut_keeps[OF assms(1) ok(1,2), of "max_frame (shared s)" ?conn] by (simp add: wal_rollback_def Let_def ok(3) w(1))
qed

lemma savepoint_keeps:
  assumes "wal_inv N s" "wal_op_ok N (WSavepoint c f ck) s"
  shows "\<exists>s'. wal_exec (WSavepoint c f ck) s = Inr s' \<and> wal_inv N s'"
proof -
  have ok: "c < N" "writing s c" "max_frame (shared s) \<le> f" "f \<le> f_max_frame (conns s c)" using assms(2) by simp_all
  show ?thesis
    using ok(3,4) cut_keeps[OF assms(1) ok(1,2), of f "(conns s c)\<lparr>f_last_checksum := ck, f_max_frame := f\<rparr>"]
    by (simp add: wal_rollback_def Let_def)
qed

lemma init_keeps:
  assumes "wal_inv N s" "wal_op_ok N (WInit c big random page_size synced) s"
  shows "\<exists>s'. wal_exec (WInit c big random page_size synced) s = Inr s' \<and> wal_inv N s'"
proof (cases "initialized (shared s)")
  case True
  then show ?thesis using assms(1) by (simp add: prepare_wal_start_def set_conn_def)
next
  case False
  have ok: "c < N" "writing s c" using assms(2) by simp_all
  note v = writer_views[OF assms(1) ok(1,2)] and w = writer_txn[OF writer_views(3)[OF assms(1) ok(1,2)]]
  have t: "txn s c = []" "max_frame (shared s) = 0" "f_max_frame (conns s c) = 0"
    using False v(1) w(1,7) by (auto simp: log_inv_def)
  let ?h = "fill_wal_header big random page_size (shared_header (shared s))"
  have "length (take (WAL_HEADER_SIZE - 8) (wal_header_as_bytes big ?h)) mod 8 = 0"
    by (simp add: wal_header_as_bytes_def WAL_HEADER_SIZE_def)
  moreover obtain a b where ab: "checksum_words (word_reader ((magic ?h AND 1 \<noteq> 0) = big)) (take (WAL_HEADER_SIZE - 8) (wal_header_as_bytes big ?h)) (0, 0) = (a, b)"
    by (metis surj_pair)
  ultimately obtain h where h: "prepare_wal_header big random page_size (shared s) = Inr (Some h, (shared s)\<lparr>shared_header := h, last_checksum := (checksum_1 h, checksum_2 h)\<rparr>)"
    using False by (intro that[of "?h\<lparr>checksum_1 := a, checksum_2 := b\<rparr>"]) (simp add: prepare_wal_header_def Let_def checksum_wal_eq ab)
  define sh where "sh = prepare_wal_finish synced ((shared s)\<lparr>shared_header := h, last_checksum := (checksum_1 h, checksum_2 h)\<rparr>)"
  define s' where "s' = set_conn c ((conns s c)\<lparr>f_last_checksum := (checksum_1 h, checksum_2 h), f_max_frame := 0\<rparr>) sh s"
  have ex: "wal_exec (WInit c big random page_size synced) s = Inr s'"
    using False h by (simp add: prepare_wal_start_def s'_def sh_def)
  have sh: "max_frame sh = 0" "nbackfills sh = nbackfills (shared s)" "transaction_count sh = transaction_count (shared s)"
    "enabled sh = enabled (shared s)" "same_locks (shared s) sh" "index_ok (slots s) sh = index_ok (slots s) (shared s)"
    using t(2) by (simp_all add: sh_def prepare_wal_finish_def mark_initialized_def same_locks_def index_ok_def)
  have ov: "overlay s' lo 0 q = overlay s lo 0 q" for lo q by (rule overlay_agree) (simp_all add: s'_def)
  have st: "writer_step c s s'" unfolding writer_step_def using sh t(2) by (auto simp: s'_def intro!: held_of_same)
  have l: "log_inv s'" using v(1) sh t(2) ov by (auto simp: log_inv_def s'_def)
  have r: "reader_inv s' c"
    using v(2) sh t(2) ov ok(2) read_mark_same[OF sh(5)] by (auto simp: reader_inv_def s'_def bound_def)
  have "writer_inv s' c" using w t sh by (auto simp: writer_inv_def s'_def reading_def)
  then show ?thesis using ex writer_step_inv[OF assms(1) ok(1,2) st l r] by blast
qed

end
