(* ===== verification/WalReads.thy ===== *)
theory WalReads
  imports WalSteps
begin

text \<open>
  The steps that begin and end read and write transactions keep the invariant of the machine, except
  for a restart of the log, which \<open>WalRestart\<close> has.
\<close>

section \<open>Steps that only change what a connection holds\<close>

definition same_content :: "'c wal_sys \<Rightarrow> 'c wal_sys \<Rightarrow> bool" where
  "same_content s s' \<longleftrightarrow>
     slots s' = slots s \<and> wal_log s' = wal_log s \<and> db_file s' = db_file s \<and> committed s' = committed s \<and>
     frame_cache (shared s') = frame_cache (shared s) \<and> frame_cache_high_water (shared s') = frame_cache_high_water (shared s) \<and>
     max_frame (shared s') = max_frame (shared s) \<and> nbackfills (shared s') = nbackfills (shared s) \<and>
     transaction_count (shared s') = transaction_count (shared s) \<and> initialized (shared s') = initialized (shared s) \<and>
     enabled (shared s') = enabled (shared s)"

definition others_same :: "nat \<Rightarrow> 'c wal_sys \<Rightarrow> 'c wal_sys \<Rightarrow> bool" where
  "others_same c s s' \<longleftrightarrow>
     (\<forall>d. d \<noteq> c \<longrightarrow> conns s' d = conns s d \<and> base s' d = base s d \<and> txn s' d = txn s d \<and>
        results s' d = results s d \<and> modes s' d = modes s d)"

lemma othersD:
  assumes "others_same c s s'" "d \<noteq> c"
  shows "conns s' d = conns s d" "base s' d = base s d" "txn s' d = txn s d" "results s' d = results s d" "modes s' d = modes s d"
    "reading s' d = reading s d" "ck_guard s' d = ck_guard s d" "write_held s' d = write_held s d" "restarting s' d = restarting s d"
  using assms by (simp_all add: others_same_def reading_def ck_guard_def write_held_def restarting_def cong: option.case_cong checkpoint_state.case_cong)

lemma content_overlay: "same_content s s' \<Longrightarrow> overlay s' lo hi p = overlay s lo hi p"
  by (rule overlay_agree) (simp_all add: same_content_def)

lemma content_log: "same_content s s' \<Longrightarrow> log_inv s' = log_inv s"
  using content_overlay[of s s'] by (simp add: log_inv_def same_content_def index_ok_def)

lemma content_result: "same_content s s' \<Longrightarrow> result_ok s' mode g res = result_ok s mode g res"
  by (simp add: result_ok_def copied_def same_content_def)

lemma content_writer: "same_content s s' \<Longrightarrow> conns s' d = conns s d \<Longrightarrow> txn s' d = txn s d \<Longrightarrow> writer_inv s' d = writer_inv s d"
  by (simp add: writer_inv_def same_content_def reading_def)

lemma content_bound: "same_content s s' \<Longrightarrow> conns s' d = conns s d \<Longrightarrow> bound s' d = bound s d"
  by (simp add: bound_def same_content_def)

lemma content_reader:
  assumes "same_content s s'" "conns s' d = conns s d" "base s' d = base s d" "reader_inv s d"
    "0 < max_frame_read_lock_index (conns s d) \<Longrightarrow>
       read_mark_value (max_frame_read_lock_index (conns s d)) (shared s') = read_mark_value (max_frame_read_lock_index (conns s d)) (shared s)"
  shows "reader_inv s' d"
  using assms(4,5) content_overlay[OF assms(1)] content_bound[OF assms(1,2)] assms(1-3) by (auto simp: reader_inv_def same_content_def)

lemma content_checkpoint:
  assumes "same_content s s'" "others_same c s s'" "ck_inv N s d"
    "ongoing (conns s' d) = ongoing (conns s d)" "f_guard (conns s' d) = f_guard (conns s d)" "modes s' d = modes s d" "results s' d = results s d"
    "reading s' c \<Longrightarrow> reading s c \<and> bound s c \<le> bound s' c \<or> max_frame (shared s) \<le> bound s' c"
  shows "ck_inv N s' d"
proof -
  note o = othersD[OF assms(2)] and r = content_result[OF assms(1)]
  have "copying_inv N s' d" if cp: "copying_inv N s d"
  proof (rule copying_frame[OF cp assms(4-6)])
    fix e assume "e < N" "reading s' e"
    then show "reading s e \<and> bound s e \<le> bound s' e \<or> max_frame (shared s) \<le> bound s' e"
      using assms(8) o(1,6)[of e] content_bound[OF assms(1), of e] by (cases "e = c") auto
  qed (use assms(1) in \<open>auto simp: same_content_def\<close>)
  then show ?thesis using assms(3-7) r by (simp add: ck_inv_def)
qed

lemma hold_step_inv:
  assumes "wal_inv N s" "c < N" "same_content s s'" "others_same c s s'" "locks_inv N s'"
    "\<And>d. d < N \<Longrightarrow> d \<noteq> c \<Longrightarrow> reading s d \<Longrightarrow> 0 < max_frame_read_lock_index (conns s d) \<Longrightarrow>
       read_mark_value (max_frame_read_lock_index (conns s d)) (shared s') = read_mark_value (max_frame_read_lock_index (conns s d)) (shared s)"
    "reading s' c \<Longrightarrow> reading s c \<and> bound s c \<le> bound s' c \<or> max_frame (shared s) \<le> bound s' c"
    "reading s' c \<Longrightarrow> reader_inv s' c" "writing s' c \<Longrightarrow> writer_inv s' c" "\<not> writing s' c \<Longrightarrow> txn s' c = []" "ck_inv N s' c"
  shows "wal_inv N s'"
proof -
  note o = othersD[OF assms(4)]
  have "(reading s' d \<longrightarrow> reader_inv s' d) \<and> (writing s' d \<longrightarrow> writer_inv s' d) \<and> (\<not> writing s' d \<longrightarrow> txn s' d = [])" if d: "d < N" for d
  proof (cases "d = c")
    case True
    then show ?thesis using assms(8-10) by blast
  next
    case False
    note i = wal_invD[OF assms(1) d]
    have "reading s d \<Longrightarrow> reader_inv s' d"
      using content_reader[OF assms(3) o(1,2)[OF False] i(3)] assms(6)[OF d False] by simp
    then show ?thesis using i(4,5) o[OF False] content_writer[OF assms(3) o(1,3)[OF False]] by simp
  qed
  moreover have "ck_inv N s' d" if d: "d < N" for d
  proof (cases "d = c")
    case False
    show ?thesis by (rule content_checkpoint[OF assms(3,4) wal_invD(6)[OF assms(1) d] _ _ _ _ assms(7)]) (use o[OF False] in simp_all)
  qed (use assms(11) in simp)
  ultimately show ?thesis
    using assms(1,5) content_log[OF assms(3)] by (simp add: wal_inv_def conns_inv_def checkpoints_inv_eq)
qed

section \<open>The locks\<close>

lemma set_split:
  assumes "c < (N :: nat)" "\<And>d. d \<noteq> c \<Longrightarrow> P' d = P d"
  shows "{d. d < N \<and> P' d} = (if P' c then insert c {d. d < N \<and> P d} else {d. d < N \<and> P d} - {c})"
proof (rule set_eqI)
  fix d
  show "d \<in> {d. d < N \<and> P' d} \<longleftrightarrow> d \<in> (if P' c then insert c {d. d < N \<and> P d} else {d. d < N \<and> P d} - {c})"
    using assms(1) assms(2)[of d] by (cases "d = c") auto
qed

lemma holders_split:
  assumes "c < N" "others_same c s s'"
  shows "holders N s' i = (if max_frame_read_lock_index (conns s' c) = i then insert c (holders N s i) else holders N s i - {c})"
  unfolding holders_def by (rule set_split[OF assms(1)]) (simp add: othersD(1)[OF assms(2)])

lemma readers_split:
  assumes "c < N" "others_same c s s'"
  shows "{d. d < N \<and> reading s' d} = (if reading s' c then insert c {d. d < N \<and> reading s d} else {d. d < N \<and> reading s d} - {c})"
  by (rule set_split[OF assms(1)]) (simp add: othersD(6)[OF assms(2)])

lemma finite_holders [simp]: "finite (holders N s i)"
  by (simp add: holders_def)

lemma exclusive_same:
  assumes "c < N" "others_same c s s'" "ck_guard s' c = ck_guard s c" "restarting s' c = restarting s c"
  shows "exclusive N s' i = exclusive N s i"
proof -
  have "ck_guard s' d = ck_guard s d" "restarting s' d = restarting s d" for d
    using assms(3,4) othersD(7,9)[OF assms(2)] by (cases "d = c", simp_all)+
  then show ?thesis by (simp add: exclusive_def)
qed

definition local_ok :: "'c wal_sys \<Rightarrow> nat \<Rightarrow> bool" where
  "local_ok s c \<longleftrightarrow>
     (max_frame_read_lock_index (conns s c) < 5 \<or> \<not> reading s c) \<and> vacuum_read_guard (conns s c) = reading s c \<and>
     (f_guard (conns s c) = None \<longleftrightarrow> ck_state s c = CkStart) \<and> (ck_state s c \<noteq> CkStart \<longrightarrow> results s c = None) \<and>
     (writing s c \<longrightarrow> ck_guard s c \<noteq> Some GuardWriter)"

lemma locks_inv_local: "locks_inv N s \<Longrightarrow> c < N \<Longrightarrow> local_ok s c"
  by (simp add: locks_inv_def local_ok_def)

lemma local_ok_same: "others_same c s s' \<Longrightarrow> d \<noteq> c \<Longrightarrow> local_ok s d \<Longrightarrow> local_ok s' d"
  using othersD[of c s s' d] by (simp add: local_ok_def)

text \<open>A step of \<open>c\<close>: the words of the locks after it, and exclusion for what \<open>c\<close> holds then.\<close>

lemma locks_step:
  assumes "locks_inv N s" "c < N" "others_same c s s'" "marks_inv N s' M"
    "write_lock (shared s') = lock_of (\<exists>d<N. write_held s' d, 0, v)"
    "checkpoint_lock (shared s') = lock_of (\<exists>d<N. ck_guard s' d \<noteq> None, 0, u)"
    "vacuum_lock (shared s') = lock_of (False, card {d. d < N \<and> reading s' d}, x)"
    "\<And>d. d < N \<Longrightarrow> d \<noteq> c \<Longrightarrow> ck_guard s' c \<noteq> None \<Longrightarrow> ck_guard s d = None"
    "\<And>d. d < N \<Longrightarrow> d \<noteq> c \<Longrightarrow> write_held s' c \<Longrightarrow> \<not> write_held s d"
    "local_ok s' c"
  shows "locks_inv N s'"
proof -
  note o = othersD[OF assms(3)]
  have ex: "\<And>d e. d < N \<Longrightarrow> e < N \<Longrightarrow> ck_guard s d \<noteq> None \<Longrightarrow> ck_guard s e \<noteq> None \<Longrightarrow> d = e"
    "\<And>d e. d < N \<Longrightarrow> e < N \<Longrightarrow> write_held s d \<Longrightarrow> write_held s e \<Longrightarrow> d = e" using assms(1) by (auto simp: locks_inv_def)
  have g: "ck_guard s' d \<noteq> None \<Longrightarrow> ck_guard s' e \<noteq> None \<Longrightarrow> d = e" if "d < N" "e < N" for d e
    using ex(1)[OF that] assms(8)[OF that(1)] assms(8)[OF that(2)] o(7)[of d] o(7)[of e] by (cases "d = c"; cases "e = c") auto
  have w: "write_held s' d \<Longrightarrow> write_held s' e \<Longrightarrow> d = e" if "d < N" "e < N" for d e
    using ex(2)[OF that] assms(9)[OF that(1)] assms(9)[OF that(2)] o(8)[of d] o(8)[of e] by (cases "d = c"; cases "e = c") auto
  have l: "local_ok s' d" if "d < N" for d
    using local_ok_same[OF assms(3) _ locks_inv_local[OF assms(1) that]] assms(10) by (cases "d = c") auto
  show ?thesis
    unfolding locks_inv_def using assms(4-7) g w l by (intro conjI allI impI exI; (simp add: local_ok_def)?)
qed

lemma held_not_free: "marks_inv N s M \<Longrightarrow> d < N \<Longrightarrow> max_frame_read_lock_index (conns s d) = i \<Longrightarrow> i < 5 \<Longrightarrow> \<not> free (M ! i)"
proof
  assume a: "marks_inv N s M" "d < N" "max_frame_read_lock_index (conns s d) = i" "i < 5" "free (M ! i)"
  then have "card (holders N s i) = 0" by (auto simp: marks_inv_def free_def)
  then show False using a(2,3) by (auto simp: holders_def)
qed

lemma idle_value:
  assumes "marks_are M sh" "marks_are M' sh'" "idle_step M M'" "i < length M" "\<not> free (M ! i)"
  shows "read_mark_value i sh' = read_mark_value i sh"
  using assms mark_ops(7)[OF assms(1,4)] mark_ops(7)[OF assms(2), of i] by (auto simp: idle_step_def)

lemma idle_flags:
  assumes "idle_step M M'" "i < length M"
  shows "fst (M' ! i) = fst (M ! i)" "fst (snd (M' ! i)) = fst (snd (M ! i))"
  using assms by (auto simp: idle_step_def free_def)

lemma card_readers: "card {d. d < N \<and> P d} \<le> (N :: nat)"
proof -
  have "card {d. d < N \<and> P d} \<le> card {..<N}" by (rule card_mono) auto
  then show ?thesis by simp
qed

lemma card_holders: "card (holders N s i) \<le> N"
  unfolding holders_def by (rule card_readers)

lemma locks_inv_words:
  assumes "locks_inv N s"
  obtains M v u x where "marks_inv N s M" "write_lock (shared s) = lock_of (\<exists>c<N. write_held s c, 0, v)"
    "checkpoint_lock (shared s) = lock_of (\<exists>c<N. ck_guard s c \<noteq> None, 0, u)"
    "vacuum_lock (shared s) = lock_of (False, card {c. c < N \<and> reading s c}, x)"
  using assms unfolding locks_inv_def by blast

lemma marks_invD:
  assumes "marks_inv N s M"
  shows "marks_are M (shared s)" "length M = 5" "i < 5 \<Longrightarrow> fst (M ! i) = exclusive N s i"
    "i < 5 \<Longrightarrow> fst (snd (M ! i)) = card (holders N s i)"
  using assms by (simp_all add: marks_inv_def)

section \<open>Read transactions\<close>

lemma vacuum_back:
  assumes "vacuum_lock sh = w" "same_but_marks (sh\<lparr>vacuum_lock := w'\<rparr>) sh'"
  shows "same_but_marks sh (sh'\<lparr>vacuum_lock := w\<rparr>)"
proof -
  obtain ls where "sh' = sh\<lparr>vacuum_lock := w', read_locks := ls\<rparr>" using assms(2) by (auto simp: same_but_marks_def)
  then have "sh'\<lparr>vacuum_lock := w\<rparr> = sh\<lparr>read_locks := ls\<rparr>" using assms(1) by (cases sh) simp
  then show ?thesis by (auto simp: same_but_marks_def)
qed

lemma marks_are_vacuum [simp]: "marks_are M (sh\<lparr>vacuum_lock := w\<rparr>) = marks_are M sh"
  by (simp add: marks_are_def)

lemma snapshot_of_vacuum [simp]: "snapshot_of (sh\<lparr>vacuum_lock := w\<rparr>) = snapshot_of sh"
  by (simp add: snapshot_of_def)

lemma try_begin_cases:
  assumes "marks_are M sh" "length M = 5" "\<forall>i<5. Suc (fst (snd (M ! i))) < 2 ^ 31" "vacuum_lock sh = lock_of (False, n, x)" "Suc n < 2 ^ 31"
    "max_frame_read_lock_index conn = NO_LOCK_HELD" "\<not> vacuum_read_guard conn" "sn_nbackfills sn \<le> sn_max_frame sn" "sn_max_frame sn < 2 ^ 32"
  obtains M' sh' where "wal_try_begin_read_tx sn (conn, sh) = Inr (BeginRetry, conn, sh')" "same_but_marks sh sh'" "marks_are M' sh'" "idle_step M M'"
  | b g M1 sh1 i k v where
      "wal_try_begin_read_tx sn (conn, sh) =
         Inr (BeginOk b, install_connection_state sn g (conn\<lparr>vacuum_read_guard := True\<rparr>), set_mark i (False, Suc k, v) sh1)"
      "same_but_marks (sh\<lparr>vacuum_lock := lock_of (False, Suc n, x)\<rparr>) sh1" "marks_are M1 sh1" "idle_step M M1" "lock_index g = i" "i < 5"
      "M1 ! i = (False, k, v)" "0 < i \<longrightarrow> unat v \<le> sn_max_frame sn" "snapshot_of sh = sn"
proof -
  let ?w = "lock_of (False, Suc n, x)"
  let ?sh = "sh\<lparr>vacuum_lock := ?w\<rparr>"
  have lk: "lock_read [] (vacuum_lock sh) = (True, ?w)" using assms(4,5) lock_read_of[of "(False, n, x)"] by (simp add: mark_ok_def)
  have bg: "wal_try_begin_read_tx sn (conn, sh) = and_then (coord_try_begin_read_tx sn ?sh) (\<lambda>(guard, sh).
      case guard of
        None \<Rightarrow> and_then (lock_unlock (vacuum_lock sh)) (\<lambda>w. Inr (BeginRetry, conn, sh\<lparr>vacuum_lock := w\<rparr>))
      | Some g \<Rightarrow> Inr (BeginOk (sn \<noteq> connection_snapshot conn), install_connection_state sn g (conn\<lparr>vacuum_read_guard := True\<rparr>), sh))"
    using assms(6-8) lk by (simp add: wal_try_begin_read_tx_def)
  have m: "marks_are M ?sh" using assms(1) by simp
  show ?thesis
  proof (rule begin_read_spec[OF m assms(2,3,9)])
    fix M' sh' assume a: "coord_try_begin_read_tx sn ?sh = Inr (None, sh')" "same_but_marks ?sh sh'" "marks_are M' sh'" "idle_step M M'"
    have "vacuum_lock sh' = ?w" using same_but_marks_fields(8)[OF a(2)] by simp
    moreover have "lock_unlock ?w = Inr (lock_of (False, n, x))" using assms(5) lock_unlock_of[of "(False, Suc n, x)"] by (simp add: mark_ok_def free_def)
    ultimately show ?thesis
      using bg a vacuum_back[OF assms(4) a(2)] by (intro that(1)[of "sh'\<lparr>vacuum_lock := lock_of (False, n, x)\<rparr>" M']) simp_all
  next
    fix k v assume a: "coord_try_begin_read_tx sn ?sh = Inr (Some DbFile, set_mark 0 (False, Suc k, v) ?sh)" "M ! 0 = (False, k, v)"
      "snapshot_of ?sh = sn" "sn_max_frame sn = sn_nbackfills sn"
    show ?thesis using bg a m by (intro that(2)[of "sn \<noteq> connection_snapshot conn" DbFile 0 k v ?sh M]) simp_all
  next
    fix M1 sh1 i k v assume a: "coord_try_begin_read_tx sn ?sh = Inr (Some (ReadMark i), set_mark i (False, Suc k, v) sh1)"
      "same_but_marks ?sh sh1" "marks_are M1 sh1" "idle_step M M1" "0 < i" "i < 5" "M1 ! i = (False, k, v)"
      "unat v \<le> sn_max_frame sn" "snapshot_of ?sh = sn"
    show ?thesis using bg a by (intro that(2)[of "sn \<noteq> connection_snapshot conn" "ReadMark i" i k v sh1 M1]) simp_all
  qed
qed

lemma locks_excl:
  assumes "locks_inv N s" "c < N" "d < N" "d \<noteq> c"
  shows "ck_guard s c \<noteq> None \<Longrightarrow> ck_guard s d = None" "write_held s c \<Longrightarrow> \<not> write_held s d"
  using assms unfolding locks_inv_def by blast+

lemma idle_marks_step:
  assumes "wal_inv N s" "c < N" "same_but_marks (shared s) sh'" "marks_inv N s M" "marks_are M' sh'" "idle_step M M'"
  shows "wal_inv N (s\<lparr>shared := sh'\<rparr>)"
proof -
  let ?s = "s\<lparr>shared := sh'\<rparr>"
  note i = wal_invD[OF assms(1,2)]
  have content: "same_content s ?s" using assms(3) by (auto simp: same_content_def same_but_marks_def)
  have o: "others_same c s ?s" by (simp add: others_same_def)
  have same: "held_of ?s d = held_of s d" for d by (rule held_of_same) simp_all
  note h = held_of_fields[OF same]
  have mk: "marks_inv N ?s M'"
    using marks_invD[OF assms(4)] assms(5,6) idle_flags[OF assms(6)] h(3,6) by (simp add: marks_inv_def holders_def exclusive_def idle_step_def)
  obtain v u x where words: "write_lock (shared s) = lock_of (\<exists>c<N. write_held s c, 0, v)"
    "checkpoint_lock (shared s) = lock_of (\<exists>c<N. ck_guard s c \<noteq> None, 0, u)"
    "vacuum_lock (shared s) = lock_of (False, card {c. c < N \<and> reading s c}, x)"
    using i(2) by (rule locks_inv_words)
  have val: "read_mark_value (max_frame_read_lock_index (conns s d)) sh' = read_mark_value (max_frame_read_lock_index (conns s d)) (shared s)"
    if "d < N" "reading s d" for d
    using idle_value[OF marks_invD(1)[OF assms(4)] assms(5,6)] held_not_free[OF assms(4) that(1) refl] marks_invD(2)[OF assms(4)]
      locks_local(1)[OF i(2) that(1)] that(2) by simp
  have lk: "locks_inv N ?s"
    by (rule locks_step[OF i(2) assms(2) o mk, of v u x])
      (simp_all add: h words same_but_marks_fields[OF assms(3)] locks_excl[OF i(2) assms(2)] locks_inv_local[OF i(2) assms(2), unfolded local_ok_def] local_ok_def)
  have ck: "ck_inv N ?s c" by (rule content_checkpoint[OF content o i(6)]) (simp_all add: h content_bound[OF content])
  have rd: "reader_inv ?s c" if "reading s c" by (rule content_reader[OF content _ _ i(3)[OF that]]) (simp_all add: val[OF assms(2) that])
  show ?thesis
    by (rule hold_step_inv[OF assms(1,2) content o lk _ _ _ _ _ ck])
      (simp_all add: val h rd i(4,5) content_writer[OF content] content_bound[OF content])
qed

lemma NO_LOCK_HELD_ge: "\<not> NO_LOCK_HELD < 5" "i < 5 \<Longrightarrow> i \<noteq> NO_LOCK_HELD" "NO_LOCK_HELD \<noteq> 0"
  by (auto simp: NO_LOCK_HELD_def)

lemma begin_locks:
  assumes "locks_inv N s" "c < N" "\<not> reading s c" "others_same c s s'" "marks_inv N s M"
    "idle_step M M1" "marks_are M1 sh1" "i < 5" "M1 ! i = (False, k, v)" "Suc k < 2 ^ 31"
    "same_but_marks ((shared s)\<lparr>vacuum_lock := lock_of (False, Suc (card {d. d < N \<and> reading s d}), x)\<rparr>) sh1"
    "shared s' = set_mark i (False, Suc k, v) sh1"
    "max_frame_read_lock_index (conns s' c) = i" "vacuum_read_guard (conns s' c)" "writing s' c = writing s c" "f_guard (conns s' c) = f_guard (conns s c)"
    "ongoing (conns s' c) = ongoing (conns s c)" "modes s' c = modes s c" "results s' c = results s c"
  shows "locks_inv N s'" "marks_are (M1[i := (False, Suc k, v)]) (shared s')" "reading s' c"
proof -
  have g: "ck_guard s' c = ck_guard s c" "restarting s' c = restarting s c"
    using assms(16-19) by (simp_all add: ck_guard_def restarting_def cong: option.case_cong checkpoint_state.case_cong)
  have g': "ck_guard s' d = ck_guard s d" "write_held s' d = write_held s d" for d
    using g(1) assms(15) othersD(7,8)[OF assms(4)] by (cases "d = c"; simp add: write_held_def)+
  show rd: "reading s' c" using assms(8,13) NO_LOCK_HELD_ge by (simp add: reading_def)
  note md = marks_invD[OF assms(5)]
  show mk: "marks_are (M1[i := (False, Suc k, v)]) (shared s')"
    unfolding assms(12) by (rule marks_are_set[OF assms(7)]) (use assms(10) in \<open>simp add: mark_ok_def\<close>)
  have nc: "c \<notin> holders N s j" if "j < 5" for j using assms(3) that NO_LOCK_HELD_ge by (auto simp: holders_def reading_def)
  have len: "length M1 = 5" using assms(6) md(2) by (simp add: idle_step_def)
  have mi: "marks_inv N s' (M1[i := (False, Suc k, v)])"
    unfolding marks_inv_def
  proof (intro conjI allI impI)
    fix j :: nat assume j: "j < 5"
    have fl: "fst (M1 ! j) = exclusive N s j" "fst (snd (M1 ! j)) = card (holders N s j)" using idle_flags[OF assms(6), of j] md j by simp_all
    show "fst (M1[i := (False, Suc k, v)] ! j) = exclusive N s' j"
      using fl(1) assms(8,9) len j exclusive_same[OF assms(2,4) g] by (cases "j = i") auto
    show "fst (snd (M1[i := (False, Suc k, v)] ! j)) = card (holders N s' j)"
      using fl(2) assms(8,9,13) len j nc[OF j] holders_split[OF assms(2,4), of j] by (cases "j = i") auto
  qed (use mk len in simp_all)
  have "c \<notin> {d. d < N \<and> reading s d}" using assms(3) by simp
  then have cd: "card {d. d < N \<and> reading s' d} = Suc (card {d. d < N \<and> reading s d})"
    unfolding readers_split[OF assms(2,4)] using rd by simp
  obtain v' u where words: "write_lock (shared s) = lock_of (\<exists>c<N. write_held s c, 0, v')"
    "checkpoint_lock (shared s) = lock_of (\<exists>c<N. ck_guard s c \<noteq> None, 0, u)"
    using assms(1) by (rule locks_inv_words)
  have sh: "write_lock (shared s') = write_lock (shared s)" "checkpoint_lock (shared s') = checkpoint_lock (shared s)"
    "vacuum_lock (shared s') = lock_of (False, Suc (card {d. d < N \<and> reading s d}), x)"
    using same_but_marks_fields(6-8)[OF assms(11)] by (simp_all add: assms(12) set_mark_def)
  show "locks_inv N s'"
    by (rule locks_step[OF assms(1,2,4) mi, of v' u x])
      (use locks_inv_local[OF assms(1,2)] in
        \<open>simp_all add: g' sh words cd locks_excl[OF assms(1,2)] local_ok_def rd assms(8,13-17,19)\<close>)
qed

lemma marks_room:
  assumes "wal_inv N s" "marks_inv N s M"
  shows "\<forall>i<5. Suc (fst (snd (M ! i))) < 2 ^ 31" "Suc (card {d. d < N \<and> P d}) < 2 ^ 31"
  using assms(1) card_holders[of N s] card_readers[of N P] marks_invD(4)[OF assms(2)] by (auto simp: wal_inv_def intro: le_less_trans)

lemma set_conn_id: "set_conn c (conns s c) sh s = s\<lparr>shared := sh\<rparr>"
  by (simp add: set_conn_def)

lemma begin_keeps:
  assumes "wal_inv N s" "wal_op_ok N (WBegin c sn) s"
  shows "\<exists>s'. wal_exec (WBegin c sn) s = Inr s' \<and> wal_inv N s'"
proof -
  have ok: "c < N" "\<not> reading s c" "sn_nbackfills sn \<le> sn_max_frame sn" "sn_max_frame sn < 2 ^ 32" using assms(2) by simp_all
  note i = wal_invD[OF assms(1) ok(1)]
  obtain M v u x where words: "marks_inv N s M" "vacuum_lock (shared s) = lock_of (False, card {d. d < N \<and> reading s d}, x)"
    using i(2) by (rule locks_inv_words)
  note md = marks_invD[OF words(1)] and room = marks_room[OF assms(1) words(1)]
  have nh: "max_frame_read_lock_index (conns s c) = NO_LOCK_HELD" "\<not> vacuum_read_guard (conns s c)"
    using ok(2) locks_local(2)[OF i(2) ok(1)] by (simp_all add: reading_def)
  have nw: "\<not> writing s c" using i(4) ok(2) by (auto simp: writer_inv_def)
  show ?thesis
  proof (rule try_begin_cases[OF md(1,2) room(1) words(2) room(2) nh ok(3,4)])
    fix M' sh' assume a: "wal_try_begin_read_tx sn (conns s c, shared s) = Inr (BeginRetry, conns s c, sh')"
      "same_but_marks (shared s) sh'" "marks_are M' sh'" "idle_step M M'"
    then show ?thesis using idle_marks_step[OF assms(1) ok(1) a(2) words(1) a(3,4)] by (simp add: set_conn_id)
  next
    fix b g M1 sh1 j k v
    assume a: "wal_try_begin_read_tx sn (conns s c, shared s) =
         Inr (BeginOk b, install_connection_state sn g ((conns s c)\<lparr>vacuum_read_guard := True\<rparr>), set_mark j (False, Suc k, v) sh1)"
      "same_but_marks ((shared s)\<lparr>vacuum_lock := lock_of (False, Suc (card {d. d < N \<and> reading s d}), x)\<rparr>) sh1"
      "marks_are M1 sh1" "idle_step M M1" "lock_index g = j" "j < 5" "M1 ! j = (False, k, v)" "0 < j \<longrightarrow> unat v \<le> sn_max_frame sn" "snapshot_of (shared s) = sn"
    define s' where "s' = (set_conn c (install_connection_state sn g ((conns s c)\<lparr>vacuum_read_guard := True\<rparr>)) (set_mark j (False, Suc k, v) sh1) s)
      \<lparr>base := (base s)(c := committed s)\<rparr>"
    have ex: "wal_exec (WBegin c sn) s = Inr s'" using a(1) by (simp add: s'_def Let_def)
    have o: "others_same c s s'" by (simp add: s'_def others_same_def)
    have content: "same_content s s'" using a(2) by (auto simp: same_content_def same_but_marks_def s'_def set_mark_def)
    have k: "Suc k < 2 ^ 31" using idle_flags(2)[OF a(4), of j] room(1) a(6,7) md(2) by auto
    note bl = begin_locks[OF i(2) ok(1,2) o words(1) a(4,3,6,7) k a(2)]
    have sh: "shared s' = set_mark j (False, Suc k, v) sh1" by (simp add: s'_def)
    have cn: "conns s' c = install_connection_state sn g ((conns s c)\<lparr>vacuum_read_guard := True\<rparr>)" by (simp add: s'_def)
    have res: "modes s' c = modes s c" "results s' c = results s c" "base s' c = committed s" "txn s' c = txn s c" by (simp_all add: s'_def)
    have lk: "locks_inv N s'" "marks_are (M1[j := (False, Suc k, v)]) (shared s')"
      by (rule bl; simp add: sh cn res a(5) install_connection_state_def)+
    have snap: "sn_max_frame sn = max_frame (shared s)" "sn_nbackfills sn = nbackfills (shared s)" "sn_transaction_count sn = transaction_count (shared s)"
      using a(9) by (auto simp: snapshot_of_def)
    have len: "length M1 = 5" using a(4) md(2) by (simp add: idle_step_def)
    have bd: "bound s' c = max_frame (shared s)" using nw by (simp add: bound_def cn install_connection_state_def snap)
    have val: "read_mark_value j (shared s') = v" using mark_ops(7)[OF lk(2), of j] a(6) len by simp
    have rd: "reader_inv s' c"
      using i(1) content content_overlay[OF content] bd val a(8) snap res(3)
      by (simp add: reader_inv_def log_inv_def same_content_def cn install_connection_state_def sn_min_frame_def a(5))
    have vals: "read_mark_value (max_frame_read_lock_index (conns s d)) (shared s') = read_mark_value (max_frame_read_lock_index (conns s d)) (shared s)"
      if "d < N" "reading s d" for d
    proof -
      let ?j = "max_frame_read_lock_index (conns s d)"
      have j: "?j < 5" using locks_local(1)[OF i(2) that(1)] that(2) by simp
      have "M ! ?j = M1 ! ?j" using a(4) j md(2) held_not_free[OF words(1) that(1) refl j] by (auto simp: idle_step_def)
      then show ?thesis
        using mark_ops(7)[OF lk(2), of ?j] mark_ops(7)[OF md(1), of ?j] j len md(2) a(7) by (cases "?j = j") simp_all
    qed
    have ck: "ck_inv N s' c"
      by (rule content_checkpoint[OF content o i(6)]) (simp_all add: res cn install_connection_state_def bd)
    have "wal_inv N s'"
      by (rule hold_step_inv[OF assms(1) ok(1) content o lk(1) _ _ _ _ _ ck])
        (use nw i(5) in \<open>simp_all add: vals bd rd res cn install_connection_state_def\<close>)
    then show ?thesis using ex by blast
  qed
qed

lemma guards_same:
  assumes "others_same c s s'" "f_guard (conns s' c) = f_guard (conns s c)" "ongoing (conns s' c) = ongoing (conns s c)"
    "modes s' c = modes s c" "results s' c = results s c"
  shows "ck_guard s' d = ck_guard s d" "restarting s' d = restarting s d" "writing s' c = writing s c \<Longrightarrow> write_held s' d = write_held s d"
  using assms(2-5) othersD(7-9)[OF assms(1)]
  by (cases "d = c"; simp add: ck_guard_def restarting_def write_held_def cong: option.case_cong checkpoint_state.case_cong)+

lemma held_mark:
  assumes "marks_inv N s M" "c < N" "max_frame_read_lock_index (conns s c) = i" "i < 5"
  obtains n v where "M ! i = (False, Suc n, v)" "Suc n = card (holders N s i)"
proof -
  note md = marks_invD[OF assms(1)]
  obtain w n v where m: "M ! i = (w, n, v)" by (cases "M ! i")
  have "n = card (holders N s i)" using md(4)[OF assms(4)] m by simp
  moreover have "c \<in> holders N s i" using assms(2,3) by (simp add: holders_def)
  then have "0 < card (holders N s i)" by (auto simp: card_gt_0_iff)
  moreover have "mark_ok (M ! i)" using marks_nth[OF md(1), of i] assms(4) md(2) by simp
  ultimately show ?thesis using that[of "n - 1" v] m by (auto simp: mark_ok_def)
qed

lemma coord_end_read: "i < 5 \<Longrightarrow> coord_end_read_tx (from_lock_index i) sh = unlock_read_mark i sh"
  using NO_LOCK_HELD_ge by (simp add: from_lock_index_def)

lemma end_keeps:
  assumes "wal_inv N s" "wal_op_ok N (WEnd c) s"
  shows "\<exists>s'. wal_exec (WEnd c) s = Inr s' \<and> wal_inv N s'"
proof -
  have ok: "c < N" "\<not> writing s c" using assms(2) by simp_all
  note i = wal_invD[OF assms(1) ok(1)] and lc = locks_local[OF wal_invD(2)[OF assms(1) ok(1)] ok(1)]
  let ?j = "max_frame_read_lock_index (conns s c)" and ?R = "{d. d < N \<and> reading s d}"
  show ?thesis
  proof (cases "reading s c")
    case False
    then show ?thesis using assms(1) lc(2) by (simp add: wal_end_read_tx_def reading_def set_conn_def)
  next
    case True
    then have j: "?j < 5" "?j \<noteq> NO_LOCK_HELD" using lc(1) by (simp_all add: reading_def)
    obtain M v' u x where words: "marks_inv N s M" "write_lock (shared s) = lock_of (\<exists>c<N. write_held s c, 0, v')"
      "checkpoint_lock (shared s) = lock_of (\<exists>c<N. ck_guard s c \<noteq> None, 0, u)" "vacuum_lock (shared s) = lock_of (False, card ?R, x)"
      using i(2) by (rule locks_inv_words)
    note md = marks_invD[OF words(1)]
    obtain n v where m: "M ! ?j = (False, Suc n, v)" "Suc n = card (holders N s ?j)" by (rule held_mark[OF words(1) ok(1) refl j(1)])
    have cR: "card ?R = Suc (card (?R - {c}))" using True ok(1) card.remove[of ?R c] by simp
    have "lock_unlock (vacuum_lock (shared s)) = Inr (lock_of (False, card (?R - {c}), x))"
      using words(4) cR marks_room(2)[OF assms(1) words(1), of "\<lambda>d. reading s d"] lock_unlock_of[of "(False, card ?R, x)"]
      by (simp add: mark_ok_def free_def)
    moreover have "unlock_read_mark ?j (shared s) = Inr (set_mark ?j (False, n, v) (shared s))"
      using mark_ops(5)[OF md(1), of ?j] md(2) j(1) m(1) by (simp add: free_def)
    moreover define s' where "s' = set_conn c ((conns s c)\<lparr>max_frame_read_lock_index := NO_LOCK_HELD, vacuum_read_guard := False\<rparr>)
        ((set_mark ?j (False, n, v) (shared s))\<lparr>vacuum_lock := lock_of (False, card (?R - {c}), x)\<rparr>) s"
    ultimately have ex: "wal_exec (WEnd c) s = Inr s'"
      using j coord_end_read[OF j(1)] lc(2) True by (simp add: wal_end_read_tx_def set_mark_def)
    have o: "others_same c s s'" by (simp add: s'_def others_same_def)
    have content: "same_content s s'" by (simp add: same_content_def s'_def set_mark_def)
    have sh: "write_lock (shared s') = write_lock (shared s)" "checkpoint_lock (shared s') = checkpoint_lock (shared s)"
      "vacuum_lock (shared s') = lock_of (False, card (?R - {c}), x)" by (simp_all add: s'_def set_mark_def)
    have cn: "conns s' c = (conns s c)\<lparr>max_frame_read_lock_index := NO_LOCK_HELD, vacuum_read_guard := False\<rparr>"
      "results s' c = results s c" "modes s' c = modes s c" "txn s' c = txn s c" by (simp_all add: s'_def)
    have nr: "\<not> reading s' c" by (simp add: reading_def cn)
    have g: "ck_guard s' d = ck_guard s d" "restarting s' d = restarting s d" "write_held s' d = write_held s d" for d
      by (rule guards_same[OF o]; simp add: cn)+
    have "Suc n < 2 ^ 31" using marks_room(1)[OF assms(1) words(1)] j(1) m(1) by fastforce
    then have mk: "marks_are (M[?j := (False, n, v)]) (shared s')"
      using marks_are_set[OF md(1), of "(False, n, v)" ?j] by (simp add: s'_def mark_ok_def)
    have mi: "marks_inv N s' (M[?j := (False, n, v)])"
      unfolding marks_inv_def
    proof (intro conjI allI impI)
      fix k :: nat assume k: "k < 5"
      show "fst (M[?j := (False, n, v)] ! k) = exclusive N s' k"
        using exclusive_same[OF ok(1) o g(1,2)] md(2) md(3)[OF k] m(1) k by (cases "k = ?j") auto
      have "c \<in> holders N s ?j" using ok(1) by (simp add: holders_def)
      then have "card (holders N s k - {c}) = (if k = ?j then n else card (holders N s k))"
        using m(2) by (auto simp: holders_def)
      then show "fst (snd (M[?j := (False, n, v)] ! k)) = card (holders N s' k)"
        using holders_split[OF ok(1) o, of k] md k cn(1) NO_LOCK_HELD_ge by (cases "k = ?j") auto
    qed (use mk md(2) in simp_all)
    have lk: "locks_inv N s'"
      by (rule locks_step[OF i(2) ok(1) o mi, of v' u x])
        (use readers_split[OF ok(1) o] nr locks_inv_local[OF i(2) ok(1)] in
          \<open>simp_all add: g sh words(2,3) locks_excl[OF i(2) ok(1)] local_ok_def cn reading_def\<close>)
    have val: "read_mark_value k (shared s') = read_mark_value k (shared s)" if "k < 5" for k
      using mark_ops(7)[OF mk, of k] mark_ops(7)[OF md(1), of k] m(1) md(2) that by (cases "k = ?j") simp_all
    have vals: "read_mark_value (max_frame_read_lock_index (conns s d)) (shared s') = read_mark_value (max_frame_read_lock_index (conns s d)) (shared s)"
      if "d < N" "reading s d" for d using val locks_local(1)[OF i(2) that(1)] that(2) by blast
    have ck: "ck_inv N s' c" by (rule content_checkpoint[OF content o i(6)]) (simp_all add: cn nr)
    have "wal_inv N s'"
      by (rule hold_step_inv[OF assms(1) ok(1) content o lk _ _ _ _ _ ck]) (use ok(2) i(5) nr in \<open>simp_all add: vals cn\<close>)
    then show ?thesis using ex by blast
  qed
qed

section \<open>Write transactions\<close>

lemma write_lock_step:
  assumes "wal_inv N s" "c < N" "reading s c" "\<And>d. d < N \<Longrightarrow> d \<noteq> c \<Longrightarrow> \<not> write_held s d" "ck_guard s c \<noteq> Some GuardWriter"
    "f_max_frame (conns s c) = max_frame (shared s)" "f_transaction_count (conns s c) = transaction_count (shared s)" "txn s c = []"
    "s' = set_conn c ((conns s c)\<lparr>write_lock_held := b\<rparr>) ((shared s)\<lparr>write_lock := lock_of (b, 0, v)\<rparr>) s"
  shows "wal_inv N s'"
proof -
  note i = wal_invD[OF assms(1,2)]
  have o: "others_same c s s'" by (simp add: assms(9) others_same_def)
  have content: "same_content s s'" by (simp add: assms(9) same_content_def)
  have cn: "conns s' c = (conns s c)\<lparr>write_lock_held := b\<rparr>" "results s' c = results s c" "modes s' c = modes s c" "txn s' c = []" "base s' c = base s c"
    using assms(8) by (simp_all add: assms(9))
  have sh: "shared s' = (shared s)\<lparr>write_lock := lock_of (b, 0, v)\<rparr>" by (simp add: assms(9))
  have g: "ck_guard s' d = ck_guard s d" "restarting s' d = restarting s d" for d by (rule guards_same[OF o]; simp add: cn)+
  have h: "max_frame_read_lock_index (conns s' d) = max_frame_read_lock_index (conns s d)" for d
    by (cases "d = c") (simp_all add: cn othersD(1)[OF o])
  have rd: "reading s' d = reading s d" for d by (simp add: reading_def h)
  obtain M w u x where words: "marks_inv N s M" "write_lock (shared s) = lock_of (\<exists>c<N. write_held s c, 0, w)"
    "checkpoint_lock (shared s) = lock_of (\<exists>c<N. ck_guard s c \<noteq> None, 0, u)" "vacuum_lock (shared s) = lock_of (False, card {d. d < N \<and> reading s d}, x)"
    using i(2) by (rule locks_inv_words)
  have mi: "marks_inv N s' M" using words(1) by (simp add: marks_inv_def holders_def exclusive_def h g sh marks_are_def)
  have "write_held s' c = b" using assms(5) by (simp add: write_held_def g cn)
  moreover have "d = c" if "d < N" "write_held s' d" for d using that assms(4) othersD(8)[OF o] by blast
  ultimately have wh: "(\<exists>d<N. write_held s' d) = b" using assms(2) by blast
  have lk: "locks_inv N s'"
    by (rule locks_step[OF i(2) assms(2) o mi, of v u x])
      (use locks_inv_local[OF i(2) assms(2)] assms(4,5) in
        \<open>simp_all add: g rd wh words sh locks_excl[OF i(2) assms(2)] local_ok_def h cn\<close>)
  have bd: "bound s' c = max_frame (shared s)" "bound s c = max_frame (shared s)"
    using assms(6) content by (simp_all add: bound_def cn same_content_def)
  have r: "reader_inv s' c"
    using i(3)[OF assms(3)] bd content content_overlay[OF content] by (simp add: reader_inv_def cn same_content_def sh read_mark_value_def)
  have w: "writer_inv s' c" if b
    using i(1) assms(3,6,7) content rd[of c] by (simp add: writer_inv_def log_inv_def cn same_content_def)
  have ck: "ck_inv N s' c" by (rule content_checkpoint[OF content o i(6)]) (simp_all add: cn bd)
  show ?thesis
    by (rule hold_step_inv[OF assms(1,2) content o lk _ _ _ _ _ ck])
      (use r w assms(3) bd in \<open>simp_all add: cn sh read_mark_value_def\<close>)
qed

lemma end_write_keeps:
  assumes "wal_inv N s" "wal_op_ok N (WEndWrite c) s"
  shows "\<exists>s'. wal_exec (WEndWrite c) s = Inr s' \<and> wal_inv N s'"
proof -
  have ok: "c < N" "writing s c" "txn s c = []" using assms(2) by simp_all
  note i = wal_invD[OF assms(1) ok(1)] and w = writer_txn[OF writer_views(3)[OF assms(1) ok(1,2)]]
  have wh: "write_held s c" using ok(2) by (simp add: write_held_def)
  obtain v where "write_lock (shared s) = lock_of (\<exists>d<N. write_held s d, 0, v)" using i(2) by (rule locks_inv_words)
  moreover have "\<exists>d<N. write_held s d" using wh ok(1) by blast
  ultimately have "lock_unlock (write_lock (shared s)) = Inr (lock_of (False, 0, v))"
    using lock_unlock_of[of "(True, 0, v)"] by (simp add: mark_ok_def free_def)
  then have "wal_exec (WEndWrite c) s = Inr (set_conn c ((conns s c)\<lparr>write_lock_held := False\<rparr>) ((shared s)\<lparr>write_lock := lock_of (False, 0, v)\<rparr>) s)"
    using ok(2) by (simp add: wal_end_write_tx_def unlock_write_lock_def)
  moreover have "ck_guard s c \<noteq> Some GuardWriter" using locks_inv_local[OF i(2) ok(1)] ok(2) by (simp add: local_ok_def)
  then have "wal_inv N (set_conn c ((conns s c)\<lparr>write_lock_held := False\<rparr>) ((shared s)\<lparr>write_lock := lock_of (False, 0, v)\<rparr>) s)"
    using w(1) ok(3) by (intro write_lock_step[OF assms(1) ok(1) w(3) locks_excl(2)[OF i(2) ok(1) _ _ wh] _ _ w(5) ok(3) refl]) simp_all
  ultimately show ?thesis by blast
qed

lemma begin_write_cases:
  assumes "wal_inv N s" "c < N" "reading s c" "\<not> writing s c"
  obtains res where "wal_begin_write_tx may_restart random (conns s c, shared s) = Inr (res, conns s c, shared s)" "res \<noteq> WriteOk"
  | v s1 where "wal_begin_write_tx may_restart random (conns s c, shared s) =
       and_then (if may_restart then try_restart_log_before_write random (conns s1 c, shared s1) else Inr (conns s1 c, shared s1))
         (\<lambda>(conn, sh). Inr (WriteOk, conn, sh))"
      "s1 = set_conn c ((conns s c)\<lparr>write_lock_held := True\<rparr>) ((shared s)\<lparr>write_lock := lock_of (True, 0, v)\<rparr>) s" "wal_inv N s1"
proof -
  note i = wal_invD[OF assms(1,2)]
  obtain v where wl: "write_lock (shared s) = lock_of (\<exists>d<N. write_held s d, 0, v)" using i(2) by (rule locks_inv_words)
  have idx: "max_frame_read_lock_index (conns s c) \<noteq> NO_LOCK_HELD" using assms(3) by (simp add: reading_def)
  show ?thesis
  proof (cases "\<exists>d<N. write_held s d")
    case True
    then have "lock_write (write_lock (shared s)) (write_lock (shared s)) = (False, write_lock (shared s))"
      using wl lock_write_of[of "(True, 0, v)"] by (simp add: mark_ok_def free_def)
    then have "try_write_lock (shared s) = (False, shared s)" by (simp add: try_write_lock_def)
    then show ?thesis using idx assms(4) by (intro that(1)[of WriteBusy]) (simp_all add: wal_begin_write_tx_def)
  next
    case False
    let ?sh = "(shared s)\<lparr>write_lock := lock_of (True, 0, v)\<rparr>"
    have none: "(\<exists>d<N. write_held s d) = False" using False by simp
    have wf: "write_lock (shared s) = lock_of (False, 0, v)" using wl unfolding none .
    have lk: "try_write_lock (shared s) = (True, ?sh)"
      using wf lock_write_of[of "(False, 0, v)"] by (simp add: try_write_lock_def mark_ok_def free_def)
    have sn: "snapshot_of ?sh = snapshot_of (shared s)" by (simp add: snapshot_of_def)
    show ?thesis
    proof (cases "snapshot_of (shared s) = connection_snapshot (conns s c)")
      case ne: False
      have "unlock_write_lock ?sh = Inr (shared s)"
        using lock_unlock_of[of "(True, 0, v)"] by (simp add: unlock_write_lock_def mark_ok_def free_def flip: wf)
      then show ?thesis using idx assms(4) lk sn ne by (intro that(1)[of WriteBusySnapshot]) (simp_all add: wal_begin_write_tx_def)
    next
      case eq: True
      have f: "f_max_frame (conns s c) = max_frame (shared s)" "f_transaction_count (conns s c) = transaction_count (shared s)"
        using eq by (auto simp: snapshot_of_def connection_snapshot_def)
      have ng: "ck_guard s c \<noteq> Some GuardWriter" "\<And>d. d < N \<Longrightarrow> \<not> write_held s d" using False assms(2) by (auto simp: write_held_def)
      define s1 where "s1 = set_conn c ((conns s c)\<lparr>write_lock_held := True\<rparr>) ?sh s"
      have "wal_inv N s1" by (rule write_lock_step[OF assms(1-3) ng(2,1) f i(5)[OF assms(4)] s1_def])
      then show ?thesis using idx assms(4) lk sn eq by (intro that(2)[OF _ s1_def]) (simp_all add: wal_begin_write_tx_def s1_def)
    qed
  qed
qed

end
