(* ===== verification/WalRestart.thy ===== *)
theory WalRestart
  imports WalReads
begin

text \<open>
  A restart of the log keeps the invariant of the machine: it happens when all frames are copied and
  no other connection reads, either before a write or at the end of a checkpoint.
\<close>

section \<open>The restart of a writer\<close>

definition idle_marks :: "mark \<Rightarrow> mark list" where
  "idle_marks m = [m, (False, 0, 0), (False, 0, READMARK_NOT_USED), (False, 0, READMARK_NOT_USED), (False, 0, READMARK_NOT_USED)]"

lemma end_restart_marks:
  assumes "marks_are (restart_marks[0 := m]) sh"
  obtains sh' where "end_restart sh = Inr sh'" "same_but_marks sh sh'" "marks_are (idle_marks m) sh'"
proof -
  have "\<forall>i\<in>set [1..<5]. i < length (restart_marks[0 := m]) \<and> fst (restart_marks[0 := m] ! i)"
    by (auto simp: restart_marks_def upt_rec numeral_nat)
  moreover have "release_marks (set [1..<5]) (restart_marks[0 := m]) = idle_marks m"
    by (rule nth_equalityI) (auto simp: restart_marks_def idle_marks_def less_Suc_eq numeral_nat)
  ultimately show ?thesis using unlock_read_marks_spec[OF assms, of "[1..<5]"] that by (auto simp: end_restart_def)
qed

lemma downgrade_marks:
  assumes "marks_are M sh" "i < length M" "fst (M ! i)" "M ! i = (True, 0, v)"
  shows "marks_are (M[i := (False, 1, v)]) (downgrade_read_mark i sh)" "same_but_marks sh (downgrade_read_mark i sh)"
  using mark_ops(4)[OF assms(1-3)] marks_are_set[OF assms(1), of "(False, 1, v)" i] assms(4) by (simp_all add: mark_ok_def)

lemma try_restart_cases:
  assumes "marks_are M sh" "length M = 5"
  obtains res sh' M' where "try_restart_log_for_write random sh = Inr (res, sh')" "\<And>sn. res \<noteq> Restarted sn"
      "same_but_marks sh sh'" "marks_are M' sh'" "idle_step M M'"
  | v sh' sn where "try_restart_log_for_write random sh = Inr (Restarted sn, sh')" "M ! 0 = (False, 1, v)" "\<forall>i\<in>{1..<5}. free (M ! i)"
      "same_but_marks (restarted random sh) sh'" "marks_are (idle_marks (False, 1, 0)) sh'" "sn = snapshot_of sh'"
proof -
  obtain w n v where m0: "M ! 0 = (w, n, v)" by (cases "M ! 0")
  note op0 = mark_ops[OF assms(1), of 0, unfolded m0 assms(2), simplified]
  show ?thesis
  proof (cases "\<not> w \<and> n = 1")
    case False
    then have "try_restart_log_for_write random sh = Inr (NotUpgraded, sh)" using op0(3) by (auto simp: try_restart_log_for_write_def)
    then show ?thesis using assms by (intro that(1)[of NotUpgraded sh M]) simp_all
  next
    case True
    define sh1 where "sh1 = set_mark 0 (True, 0, v) sh"
    define M1 where "M1 = M[0 := (True, 0, v)]"
    have m1: "marks_are M1 sh1" "length M1 = 5" "M1 ! 0 = (True, 0, v)"
      using marks_are_set[OF assms(1), of "(True, 0, v)" 0] assms(2) by (simp_all add: M1_def sh1_def mark_ok_def)
    have st: "try_restart_log_for_write random sh = and_then (begin_restart random sh1) (\<lambda>(res, sh).
        let sh = downgrade_read_mark 0 sh
        in case res of None \<Rightarrow> Inr (RestartBusy, sh) | Some sn \<Rightarrow> and_then (end_restart sh) (\<lambda>sh. Inr (Restarted sn, sh)))"
      using op0(3) True by (simp add: try_restart_log_for_write_def sh1_def)
    have f1: "fst (M1 ! 0)" by (simp add: m1(3))
    show ?thesis
    proof (rule begin_restart_cases[OF m1(1,2) f1, of random])
      fix M' sh' assume a: "begin_restart random sh1 = Inr (None, sh')" "same_but_marks sh1 sh'" "marks_are M' sh'" "idle_step M1 M'"
      have M': "length M' = 5" "M' ! 0 = (True, 0, v)" using a(4) m1(2,3) by (auto simp: idle_step_def free_def dest: spec[of _ 0])
      note dg = downgrade_marks[OF a(3), of 0 v]
      have "idle_step M (M'[0 := (False, 1, v)])"
        unfolding idle_step_def
      proof (intro conjI allI impI)
        fix i assume "i < length M"
        then show "M'[0 := (False, 1, v)] ! i = M ! i \<or> free (M ! i) \<and> free (M'[0 := (False, 1, v)] ! i)"
          using a(4) M' m0 True assms(2) by (cases "i = 0") (auto simp: idle_step_def M1_def)
      qed (use M' assms(2) in simp)
      moreover have "same_but_marks sh (downgrade_read_mark 0 sh')"
        using dg(2) M' a(2) same_but_marks_trans[OF same_but_marks_trans[OF same_but_marks_set a(2)[unfolded sh1_def]]] by simp
      ultimately show ?thesis using dg M' st a(1) by (intro that(1)[of RestartBusy "downgrade_read_mark 0 sh'"]) simp_all
    next
      fix sh' assume a: "\<forall>i\<in>{1..<5}. free (M1 ! i)" "begin_restart random sh1 = Inr (Some (snapshot_of sh'), sh')"
        "same_but_marks (restarted random sh1) sh'" "marks_are restart_marks sh'"
      note dg = downgrade_marks[OF a(4), of 0 0]
      have r0: "restart_marks ! 0 = (True, 0, 0)" "0 < length restart_marks" by (simp_all add: restart_marks_def)
      then have "marks_are (restart_marks[0 := (False, 1, 0)]) (downgrade_read_mark 0 sh')" using dg(1) by simp
      then obtain sh2 where e: "end_restart (downgrade_read_mark 0 sh') = Inr sh2" "same_but_marks (downgrade_read_mark 0 sh') sh2"
        "marks_are (idle_marks (False, 1, 0)) sh2" by (rule end_restart_marks)
      have b: "same_but_marks sh' sh2" using same_but_marks_trans[OF dg(2) e(2)] r0 by simp
      have "restarted random sh1 = (restarted random sh)\<lparr>read_locks := (read_locks sh)[0 := lock_of (True, 0, v)]\<rparr>"
        by (simp add: restarted_def sh1_def set_mark_def Let_def)
      then have "same_but_marks (restarted random sh) (restarted random sh1)" unfolding same_but_marks_def by blast
      then have "same_but_marks (restarted random sh) sh2" by (blast intro: same_but_marks_trans a(3) b)
      moreover have "\<forall>i\<in>{1..<5}. free (M ! i)" using a(1) by (simp add: M1_def)
      ultimately show ?thesis
        using st a(2) e same_but_marks_fields(1)[OF b] m0 True by (intro that(2)[of "snapshot_of sh'" sh2 v]) simp_all
    qed
  qed
qed

text \<open>All frames are in the database file: it is the committed database, and so is every view of an empty log.\<close>

lemma copied_all:
  assumes "log_inv s" "copied s (max_frame (shared s))"
  shows "db_file s = committed s"
proof
  fix p
  have "overlay s (nbackfills (shared s) + 1) (max_frame (shared s)) p = committed s p" using assms(1) by (simp add: log_inv_def)
  then show "db_file s p = committed s p" using assms(2) by (auto simp: overlay_def copied_def split: option.splits)
qed

lemma copied_backfilled: "log_inv s \<Longrightarrow> nbackfills (shared s) = max_frame (shared s) \<Longrightarrow> copied s (max_frame (shared s))"
  by (simp add: copied_def newest_empty)

text \<open>What a restart by \<open>c\<close> leaves.\<close>

definition restart_step :: "nat \<Rightarrow> u32 \<Rightarrow> 'c wal_sys \<Rightarrow> 'c wal_sys \<Rightarrow> bool" where
  "restart_step c random s s' \<longleftrightarrow>
     slots s' = [] \<and> db_file s' = db_file s \<and> committed s' = committed s \<and> base s' = base s \<and> txn s' = txn s \<and>
     frame_cache (shared s') = [] \<and> frame_cache_high_water (shared s') = 0 \<and> max_frame (shared s') = 0 \<and> nbackfills (shared s') = 0 \<and>
     transaction_count (shared s') = transaction_count (shared s) \<and> enabled (shared s') = enabled (shared s)"

lemma restart_views:
  assumes "log_inv s" "copied s (max_frame (shared s))" "restart_step c random s s'"
  shows "log_inv s'" "overlay s' lo hi p = committed s p"
proof -
  note st = assms(3)[unfolded restart_step_def]
  show o: "overlay s' lo hi p = committed s p" for lo hi p
    using copied_all[OF assms(1,2)] st by (simp add: overlay_def)
  show "log_inv s'" using o assms(1) st by (simp add: log_inv_def index_ok_def slots_of_def frames_of_def)
qed

lemma restarted_fields:
  assumes "same_but_marks (restarted random sh) sh'"
  shows "frame_cache sh' = []" "frame_cache_high_water sh' = 0" "max_frame sh' = 0" "nbackfills sh' = 0"
    "transaction_count sh' = transaction_count sh" "enabled sh' = enabled sh" "write_lock sh' = write_lock sh"
    "checkpoint_lock sh' = checkpoint_lock sh" "vacuum_lock sh' = vacuum_lock sh"
  using assms by (auto simp: same_but_marks_def restarted_def Let_def)

lemma idle_marks_nth:
  "j < 5 \<Longrightarrow> fst (idle_marks m ! j) = (j = 0 \<and> fst m)" "j < 5 \<Longrightarrow> fst (snd (idle_marks m ! j)) = (if j = 0 then fst (snd m) else 0)"
  "length (idle_marks m) = 5"
  by (auto simp: idle_marks_def less_Suc_eq numeral_nat)

text \<open>Read mark 0 has one reader, and no other mark is in use.\<close>

lemma lone_reader:
  assumes "locks_inv N s" "c < N" "max_frame_read_lock_index (conns s c) = 0" "marks_inv N s M" "M ! 0 = (False, 1, v)" "\<forall>i\<in>{1..<5}. free (M ! i)"
  shows "j < 5 \<Longrightarrow> \<not> exclusive N s j \<and> card (holders N s j) = (if j = 0 then 1 else 0)"
    "d < N \<Longrightarrow> reading s d \<Longrightarrow> d = c" "d < N \<Longrightarrow> ck_guard s d = None"
proof -
  note md = marks_invD[OF assms(4)]
  show flags: "\<not> exclusive N s j \<and> card (holders N s j) = (if j = 0 then 1 else 0)" if "j < 5" for j
  proof (cases "j = 0")
    case True
    then show ?thesis using md(3,4)[OF that] assms(5) by simp
  next
    case False
    then have "free (M ! j)" using assms(6) that by simp
    then show ?thesis using md(3,4)[OF that] False by (auto simp: free_def)
  qed
  show "d = c" if "d < N" "reading s d"
  proof -
    let ?j = "max_frame_read_lock_index (conns s d)"
    have j: "?j < 5" using locks_local(1)[OF assms(1) that(1)] that(2) by blast
    have "d \<in> holders N s ?j" using that(1) by (simp add: holders_def)
    then have "card (holders N s ?j) \<noteq> 0" by auto
    then have j0: "?j = 0" using flags[OF j] by (simp split: if_splits)
    have "card (holders N s 0) = 1" using flags[of 0] by simp
    then obtain x where "holders N s 0 = {x}" by (rule card_1_singletonE)
    moreover have "c \<in> holders N s 0" "d \<in> holders N s 0" using assms(2,3) that(1) j0 by (simp_all add: holders_def)
    ultimately show ?thesis by simp
  qed
  show "ck_guard s d = None" if "d < N" using flags[of 0] that by (auto simp: exclusive_def)
qed

lemma restart_writer:
  assumes "wal_inv N s" "c < N" "writing s c" "max_frame_read_lock_index (conns s c) = 0" "txn s c = []"
    "nbackfills (shared s) = max_frame (shared s)" "marks_inv N s M" "M ! 0 = (False, 1, v)" "\<forall>i\<in>{1..<5}. free (M ! i)"
    "same_but_marks (restarted random (shared s)) sh'" "marks_are (idle_marks (False, 1, 0)) sh'"
    "s' = (set_conn c (apply_restart_snapshot (snapshot_of sh') (conns s c)) (bump_checkpoint_epoch sh') s)\<lparr>slots := []\<rparr>"
  shows "wal_inv N s'"
proof -
  note i = wal_invD[OF assms(1,2)] and w = writer_txn[OF writer_views(3)[OF assms(1-3)]] and f = restarted_fields[OF assms(10)]
  note md = marks_invD[OF assms(7)]
  have cn: "conns s' c = apply_restart_snapshot (snapshot_of sh') (conns s c)" "results s' c = results s c" "modes s' c = modes s c" "txn s' c = []"
    "shared s' = bump_checkpoint_epoch sh'" using assms(5) by (simp_all add: assms(12))
  have o: "others_same c s s'" by (simp add: assms(12) others_same_def)
  have rs: "restart_step c random s s'" by (simp add: restart_step_def assms(12) f bump_checkpoint_epoch_def)
  note v = restart_views[OF i(1) copied_backfilled[OF i(1) assms(6)] rs]
  have cf: "max_frame_read_lock_index (conns s' c) = 0" "writing s' c" "f_guard (conns s' c) = f_guard (conns s c)" "ongoing (conns s' c) = ongoing (conns s c)"
    "vacuum_read_guard (conns s' c) = vacuum_read_guard (conns s c)" "f_max_frame (conns s' c) = 0" "f_min_frame (conns s' c) = 0"
    "f_transaction_count (conns s' c) = f_transaction_count (conns s c)"
    using assms(3,4) f by (simp_all add: cn apply_restart_snapshot_def snapshot_of_def)
  note g = guards_same(1,2)[OF o cf(3,4) cn(3,2)]
  have g3: "write_held s' d = write_held s d" for d by (rule guards_same(3)[OF o cf(3,4) cn(3,2)]) (simp add: cf(2) assms(3))
  have h: "max_frame_read_lock_index (conns s' d) = max_frame_read_lock_index (conns s d)" for d
    using cf(1) assms(4) othersD(1)[OF o] by (cases "d = c") simp_all
  have rd: "reading s' d = reading s d" for d by (simp add: reading_def h)
  have ho: "holders N s' j = holders N s j" for j by (simp add: holders_def h)
  note alone = lone_reader[OF i(2) assms(2,4,7-9)]
  have mk: "marks_inv N s' (idle_marks (False, 1, 0))"
    using assms(11) alone(1) exclusive_same[OF assms(2) o g]
    by (simp add: marks_inv_def marks_are_def cn(5) bump_checkpoint_epoch_def ho idle_marks_nth)
  obtain v' u x where words: "write_lock (shared s) = lock_of (\<exists>c<N. write_held s c, 0, v')"
    "checkpoint_lock (shared s) = lock_of (\<exists>c<N. ck_guard s c \<noteq> None, 0, u)" "vacuum_lock (shared s) = lock_of (False, card {d. d < N \<and> reading s d}, x)"
    using i(2) by (rule locks_inv_words)
  have lk: "locks_inv N s'"
    by (rule locks_step[OF i(2) assms(2) o mk, of v' u x])
      (use locks_inv_local[OF i(2) assms(2)] in
        \<open>simp_all add: g g3 rd h words f cn(2,5) bump_checkpoint_epoch_def locks_excl[OF i(2) assms(2)] local_ok_def cf(2-5) assms(3)\<close>)
  have bd: "bound s' c = 0" using cf(2) f by (simp add: bound_def cn(5) bump_checkpoint_epoch_def)
  have r: "reader_inv s' c"
    using v(2) bd cf w(5) writer_views(4)[OF assms(1-3)] rs by (simp add: reader_inv_def restart_step_def)
  have wr: "writer_inv s' c"
    using w(3,5) cf cn(4) rs rd[of c] by (simp add: writer_inv_def restart_step_def)
  have "(reading s' d \<longrightarrow> reader_inv s' d) \<and> (writing s' d \<longrightarrow> writer_inv s' d) \<and> (\<not> writing s' d \<longrightarrow> txn s' d = [])" if d: "d < N" for d
  proof (cases "d = c")
    case False
    then have "\<not> reading s' d" using alone(2)[OF d] rd by blast
    moreover have "\<not> writing s d" using only_writer(1)[OF i(2) assms(2) d assms(3) False] .
    ultimately show ?thesis using wal_invD(5)[OF assms(1) d] othersD[OF o False] by simp
  qed (use r wr cf(2) in simp)
  moreover have "ck_inv N s' d" if d: "d < N" for d
  proof -
    have "f_guard (conns s' d) = None" "\<And>mode res. results s' d = Some (mode, res) \<Longrightarrow> maybe_guard res = None"
      using alone(3)[OF d] g(1)[of d] by (auto simp: ck_guard_def split: option.splits)
    moreover have "ck_state s' d = CkStart" using locks_local(3)[OF lk d] \<open>f_guard (conns s' d) = None\<close> by simp
    moreover have "results s' d = results s d" using cn(2) othersD(4)[OF o] by (cases "d = c") auto
    ultimately show ?thesis using wal_invD(6)[OF assms(1) d] by (auto simp: ck_inv_def)
  qed
  ultimately show ?thesis using assms(1) lk v(1) by (simp add: wal_inv_def conns_inv_def checkpoints_inv_eq)
qed

lemma keep_slots:
  assumes "wal_inv N s" "c < N" "frame_cache_high_water sh = frame_cache_high_water (shared s)"
  shows "(set_conn c conn sh s)\<lparr>slots := take (frame_cache_high_water sh) (slots s)\<rparr> = set_conn c conn sh s"
  using wal_invD(1)[OF assms(1,2)] assms(3) by (simp add: log_inv_def index_ok_def set_conn_def)

lemma restart_before_write:
  assumes "wal_inv N s" "c < N" "writing s c" "txn s c = []"
  shows "\<exists>conn sh. try_restart_log_before_write random (conns s c, shared s) = Inr (conn, sh) \<and>
    wal_inv N ((set_conn c conn sh s)\<lparr>slots := take (frame_cache_high_water sh) (slots s)\<rparr>)"
proof (cases "max_frame_read_lock_index (conns s c) = 0 \<and> nbackfills (shared s) \<noteq> 0 \<and> max_frame (shared s) = nbackfills (shared s)")
  case False
  have "nbackfills (shared s) \<le> max_frame (shared s)" using wal_invD(1)[OF assms(1,2)] by (simp add: log_inv_def)
  then have "try_restart_log_before_write random (conns s c, shared s) = Inr (conns s c, shared s)"
    using False by (auto simp: try_restart_log_before_write_def)
  then show ?thesis using keep_slots[OF assms(1,2) refl, of "conns s c"] assms(1) by (simp add: set_conn_id)
next
  case True
  note i = wal_invD[OF assms(1,2)]
  obtain M where M: "marks_inv N s M" using i(2) by (rule locks_inv_words)
  note md = marks_invD[OF M]
  show ?thesis
  proof (rule try_restart_cases[OF md(1,2), of random])
    fix res sh' M' assume a: "try_restart_log_for_write random (shared s) = Inr (res, sh')" "\<And>sn. res \<noteq> Restarted sn"
      "same_but_marks (shared s) sh'" "marks_are M' sh'" "idle_step M M'"
    then have "try_restart_log_before_write random (conns s c, shared s) = Inr (conns s c, sh')"
      using True by (cases res) (auto simp: try_restart_log_before_write_def)
    then show ?thesis
      using keep_slots[OF assms(1,2) same_but_marks_fields(3)[OF a(3)], of "conns s c"] idle_marks_step[OF assms(1,2) a(3) M a(4,5)]
      by (simp add: set_conn_id)
  next
    fix v sh' sn assume a: "try_restart_log_for_write random (shared s) = Inr (Restarted sn, sh')" "M ! 0 = (False, 1, v)" "\<forall>i\<in>{1..<5}. free (M ! i)"
      "same_but_marks (restarted random (shared s)) sh'" "marks_are (idle_marks (False, 1, 0)) sh'" "sn = snapshot_of sh'"
    have "try_restart_log_before_write random (conns s c, shared s) = Inr (apply_restart_snapshot sn (conns s c), bump_checkpoint_epoch sh')"
      using True a(1) by (simp add: try_restart_log_before_write_def)
    moreover have "frame_cache_high_water (bump_checkpoint_epoch sh') = 0" using restarted_fields[OF a(4)] by (simp add: bump_checkpoint_epoch_def)
    ultimately show ?thesis
      using restart_writer[OF assms(1-3) _ assms(4) _ M a(2-5) refl] True a(6) by simp
  qed
qed

lemma begin_write_keeps:
  assumes "wal_inv N s" "wal_op_ok N (WBeginWrite c may_restart random) s"
  shows "\<exists>s'. wal_exec (WBeginWrite c may_restart random) s = Inr s' \<and> wal_inv N s'"
proof -
  have ok: "c < N" "reading s c" "\<not> writing s c" using assms(2) by simp_all
  show ?thesis
  proof (rule begin_write_cases[OF assms(1) ok, of may_restart random])
    fix res assume "wal_begin_write_tx may_restart random (conns s c, shared s) = Inr (res, conns s c, shared s)"
    then show ?thesis using keep_slots[OF assms(1) ok(1) refl, of "conns s c"] assms(1) by (simp add: set_conn_id)
  next
    fix v s1 assume a: "wal_begin_write_tx may_restart random (conns s c, shared s) =
        and_then (if may_restart then try_restart_log_before_write random (conns s1 c, shared s1) else Inr (conns s1 c, shared s1))
          (\<lambda>(conn, sh). Inr (WriteOk, conn, sh))"
      "s1 = set_conn c ((conns s c)\<lparr>write_lock_held := True\<rparr>) ((shared s)\<lparr>write_lock := lock_of (True, 0, v)\<rparr>) s" "wal_inv N s1"
    have s1: "set_conn c conn sh s1 = set_conn c conn sh s" "writing s1 c" "txn s1 c = []" "slots s1 = slots s" for conn sh
      using wal_invD(5)[OF assms(1) ok(1,3)] by (simp_all add: a(2) set_conn_def)
    show ?thesis
    proof (cases may_restart)
      case True
      then show ?thesis using a(1) restart_before_write[OF a(3) ok(1) s1(2,3), of random] by (auto simp: s1(1,4))
    next
      case False
      have "set_conn c (conns s1 c) (shared s1) s = s1" unfolding s1(1)[symmetric] by (simp add: set_conn_id)
      then show ?thesis using False a(1,3) keep_slots[OF a(3) ok(1) refl, of "conns s1 c"] by (simp add: s1(1,4))
    qed
  qed
qed

end
