(* ===== verification/WalGuards.thy ===== *)
theory WalGuards
  imports WalRestart
begin

text \<open>
  Taking and dropping the guard of a checkpoint keeps the invariant of the machine.
\<close>

section \<open>The locks of a guard\<close>

definition guard_of :: "checkpoint_mode \<Rightarrow> checkpoint_guard" where
  "guard_of mode = (case mode of Passive _ \<Rightarrow> GuardRead0 | _ \<Rightarrow> GuardWriter)"

definition guard_locks :: "checkpoint_guard \<Rightarrow> bool \<Rightarrow> u32 \<Rightarrow> u32 \<Rightarrow> u32 \<Rightarrow> wal_file_shared \<Rightarrow> wal_file_shared" where
  "guard_locks g b v0 v u sh =
     (set_mark 0 (b, 0, v0) sh)\<lparr>checkpoint_lock := lock_of (b, 0, u),
        write_lock := (if g = GuardWriter then lock_of (b, 0, v) else write_lock sh)\<rparr>"

lemma guard_locks_fields [simp]:
  "frame_cache (guard_locks g b v0 v u sh) = frame_cache sh" "frame_cache_high_water (guard_locks g b v0 v u sh) = frame_cache_high_water sh"
  "max_frame (guard_locks g b v0 v u sh) = max_frame sh" "nbackfills (guard_locks g b v0 v u sh) = nbackfills sh"
  "transaction_count (guard_locks g b v0 v u sh) = transaction_count sh" "initialized (guard_locks g b v0 v u sh) = initialized sh"
  "enabled (guard_locks g b v0 v u sh) = enabled sh" "vacuum_lock (guard_locks g b v0 v u sh) = vacuum_lock sh"
  "checkpoint_lock (guard_locks g b v0 v u sh) = lock_of (b, 0, u)"
  "write_lock (guard_locks g b v0 v u sh) = (if g = GuardWriter then lock_of (b, 0, v) else write_lock sh)"
  by (simp_all add: guard_locks_def set_mark_def)

lemma guard_locks_marks: "marks_are M sh \<Longrightarrow> marks_are (M[0 := (b, 0, v0)]) (guard_locks g b v0 v u sh)"
  using marks_are_set[of M sh "(b, 0, v0)" 0] by (simp add: guard_locks_def marks_are_def mark_ok_def)

lemma lock_words:
  "lock_write (lock_of (b, 0, v)) (lock_of (b, 0, v)) = (\<not> b, lock_of (True, 0, v))"
  "lock_unlock (lock_of (True, 0, v)) = Inr (lock_of (False, 0, v))"
  using lock_write_of[of "(b, 0, v)"] lock_unlock_of[of "(True, 0, v)"] by (simp_all add: mark_ok_def free_def)

lemma guard_back:
  assumes "marks_are M sh" "length M = 5" "M ! 0 = (False, 0, v0)" "write_lock sh = lock_of (w, 0, v)" "checkpoint_lock sh = lock_of (False, 0, u)"
  shows "sh\<lparr>checkpoint_lock := lock_of (False, 0, u)\<rparr> = sh"
    "(set_mark 0 (False, 0, v0) sh)\<lparr>checkpoint_lock := lock_of (False, 0, u), write_lock := lock_of (w, 0, v)\<rparr> = sh"
proof -
  have "set_mark 0 (False, 0, v0) sh = sh" using set_mark_id[OF assms(1), of 0] assms(2,3) by simp
  moreover have "sh\<lparr>checkpoint_lock := lock_of (False, 0, u), write_lock := lock_of (w, 0, v)\<rparr> = sh" using assms(4,5) by (cases sh) simp
  ultimately show "sh\<lparr>checkpoint_lock := lock_of (False, 0, u)\<rparr> = sh"
    "(set_mark 0 (False, 0, v0) sh)\<lparr>checkpoint_lock := lock_of (False, 0, u), write_lock := lock_of (w, 0, v)\<rparr> = sh"
    using assms(5) by simp_all
qed

lemma acquire_spec:
  assumes "marks_are M sh" "length M = 5" "write_lock sh = lock_of (w, 0, v)" "checkpoint_lock sh = lock_of (k, 0, u)"
  shows "acquire_checkpoint_guard mode sh =
     (if \<not> k \<and> free (M ! 0) \<and> (guard_of mode = GuardWriter \<longrightarrow> \<not> w)
      then Inr (Some (guard_of mode), guard_locks (guard_of mode) True (snd (snd (M ! 0))) v u sh) else Inr (None, sh))"
proof (cases k)
  case True
  then have "try_checkpoint_lock sh = (False, sh)" using lock_words(1) assms(4) by (cases sh) (simp add: try_checkpoint_lock_def)
  then show ?thesis using True by (simp add: acquire_checkpoint_guard_def)
next
  case False
  let ?sh = "sh\<lparr>checkpoint_lock := lock_of (True, 0, u)\<rparr>"
  have m: "marks_are M ?sh" "0 < length M" using assms(1,2) by (simp_all add: marks_are_def)
  note ops = mark_ops[OF m]
  have k: "try_checkpoint_lock sh = (True, ?sh)" using False lock_words(1)[of False] assms(4) by (simp add: try_checkpoint_lock_def)
  have un: "unlock_checkpoint_lock (X\<lparr>checkpoint_lock := lock_of (True, 0, u)\<rparr>) = Inr (X\<lparr>checkpoint_lock := lock_of (False, 0, u)\<rparr>)" for X
    by (simp add: unlock_checkpoint_lock_def lock_words)
  show ?thesis
  proof (cases "free (M ! 0)")
    case nf: False
    have "sh\<lparr>checkpoint_lock := lock_of (False, 0, u)\<rparr> = sh" using assms(4) False by (cases sh) simp
    then show ?thesis using nf k ops(1) un[of sh] by (cases mode) (simp_all add: acquire_checkpoint_guard_def)
  next
    case True
    then obtain v0 where m0: "M ! 0 = (False, 0, v0)" by (cases "M ! 0") (auto simp: free_def)
    let ?t = "set_mark 0 (True, 0, v0) ?sh"
    define y where "y l c = sh\<lparr>read_locks := (read_locks sh)[0 := l], write_lock := lock_of (True, 0, v), checkpoint_lock := c\<rparr>" for l c
    have t: "try_read_mark_exclusive 0 ?sh = (True, ?t)" using ops(1) True m0 by simp
    have x: "try_write_lock ?t = (\<not> w, y (lock_of (True, 0, v0)) (lock_of (True, 0, u)))"
      using lock_words(1)[of w v] assms(3) by (simp add: try_write_lock_def set_mark_def y_def)
    show ?thesis
    proof (cases "guard_of mode = GuardWriter \<longrightarrow> \<not> w")
      case ok: True
      have "guard_locks GuardWriter True v0 v u sh = y (lock_of (True, 0, v0)) (lock_of (True, 0, u))" "guard_locks GuardRead0 True v0 v u sh = ?t"
        by (simp_all add: guard_locks_def set_mark_def y_def)
      then show ?thesis
        using ok k t x False True m0 by (cases mode) (simp_all add: acquire_checkpoint_guard_def guard_of_def)
    next
      case busy: False
      then have w: "guard_of mode = GuardWriter" "write_lock sh = lock_of (True, 0, v)" w using assms(3) by simp_all
      have cl: "checkpoint_lock sh = lock_of (False, 0, u)" using assms(4) False by simp
      have "marks_are (M[0 := (True, 0, v0)]) (y (lock_of (True, 0, v0)) c)" for c
        using marks_are_set[OF m(1), of "(True, 0, v0)" 0] by (simp add: marks_are_def mark_ok_def y_def set_mark_def)
      then have r: "unlock_read_mark 0 (y (lock_of (True, 0, v0)) c) = Inr (y (lock_of (False, 0, v0)) c)" for c
        using mark_ops(5)[of "M[0 := (True, 0, v0)]" _ 0] assms(2) by (simp add: free_def set_mark_def y_def)
      have un': "unlock_checkpoint_lock (y l (lock_of (True, 0, u))) = Inr (y l (lock_of (False, 0, u)))" for l
        unfolding y_def by (rule un)
      have "y (lock_of (False, 0, v0)) (lock_of (False, 0, u)) = (set_mark 0 (False, 0, v0) sh)\<lparr>checkpoint_lock := lock_of (False, 0, u), write_lock := lock_of (True, 0, v)\<rparr>"
        by (simp add: y_def set_mark_def)
      also have "\<dots> = sh" by (rule guard_back(2)[OF assms(1,2) m0 w(2) cl])
      finally have eq: "y (lock_of (False, 0, v0)) (lock_of (False, 0, u)) = sh" .
      show ?thesis
        using w(1,3) by (cases mode) (simp_all add: k t x r un' eq acquire_checkpoint_guard_def guard_of_def)
    qed
  qed
qed

lemma release_spec:
  assumes "marks_are M sh" "length M = 5" "M ! 0 = (True, 0, v0)" "checkpoint_lock sh = lock_of (True, 0, u)"
    "g = GuardWriter \<longrightarrow> write_lock sh = lock_of (True, 0, v)"
  shows "release_checkpoint_guard g sh = Inr (guard_locks g False v0 v u sh)"
proof -
  have m: "marks_are M (sh\<lparr>write_lock := l\<rparr>)" for l using assms(1) by (simp add: marks_are_def)
  have r: "unlock_read_mark 0 (sh\<lparr>write_lock := l\<rparr>) = Inr (set_mark 0 (False, 0, v0) (sh\<lparr>write_lock := l\<rparr>))"
    "unlock_read_mark 0 sh = Inr (set_mark 0 (False, 0, v0) sh)" for l
    using mark_ops(5)[OF m, of 0] mark_ops(5)[OF assms(1), of 0] assms(2,3) by (simp_all add: free_def)
  show ?thesis
    using assms(4,5) by (cases g) (simp_all add: r unlock_write_lock_def unlock_checkpoint_lock_def lock_words set_mark_def guard_locks_def)
qed

text \<open>A connection takes (\<open>b\<close>) or drops the guard \<open>g\<close>.\<close>

lemma guard_marks:
  assumes "locks_inv N s" "c < N" "others_same c s s'" "marks_inv N s M" "M ! 0 = (\<not> b, 0, v0)"
    "shared s' = guard_locks g b v0 v u (shared s)" "ck_guard s' c = (if b then Some g else None)" "\<not> b \<Longrightarrow> ck_guard s c = Some g"
    "max_frame_read_lock_index (conns s' c) = max_frame_read_lock_index (conns s c)" "restarting s' c = restarting s c"
  shows "marks_inv N s' (M[0 := (b, 0, v0)])"
proof -
  note md = marks_invD[OF assms(4)]
  have h: "max_frame_read_lock_index (conns s' d) = max_frame_read_lock_index (conns s d)" "restarting s' d = restarting s d" for d
    using assms(9,10) othersD(1,9)[OF assms(3)] by (cases "d = c", simp_all)+
  have ex0: "exclusive N s' 0 = b"
  proof (cases b)
    case True
    then show ?thesis using assms(2,7) by (auto simp: exclusive_def)
  next
    case False
    have "ck_guard s' d = None" if "d < N" for d
      using assms(7,8) False othersD(7)[OF assms(3)] locks_excl(1)[OF assms(1,2) that] by (cases "d = c") auto
    then show ?thesis using False by (simp add: exclusive_def)
  qed
  have "fst (M[0 := (b, 0, v0)] ! j) = exclusive N s' j \<and> fst (snd (M[0 := (b, 0, v0)] ! j)) = card (holders N s' j)" if "j < 5" for j
    using md(2) md(3,4)[OF that] that assms(5) ex0 h by (cases "j = 0") (auto simp: exclusive_def holders_def)
  then show ?thesis using guard_locks_marks[OF md(1)] md(2) assms(6) by (simp add: marks_inv_def)
qed

lemma guard_step:
  assumes "wal_inv N s" "c < N" "others_same c s s'" "marks_inv N s M" "M ! 0 = (\<not> b, 0, v0)"
    "write_lock (shared s) = lock_of (\<exists>c<N. write_held s c, 0, v)" "checkpoint_lock (shared s) = lock_of (\<exists>c<N. ck_guard s c \<noteq> None, 0, u)"
    "shared s' = guard_locks g b v0 v u (shared s)" "ck_guard s' c = (if b then Some g else None)" "\<not> b \<Longrightarrow> ck_guard s c = Some g"
    "\<And>d. b \<Longrightarrow> d < N \<Longrightarrow> ck_guard s d = None" "\<And>d. b \<Longrightarrow> g = GuardWriter \<Longrightarrow> d < N \<Longrightarrow> \<not> write_held s d"
    "conns s' c = (conns s c)\<lparr>f_guard := fg, ongoing := oc\<rparr>" "fg = None \<longleftrightarrow> oc_state oc = CkStart" "oc_state oc \<noteq> CkStart \<longrightarrow> results s' c = None"
    "slots s' = slots s" "wal_log s' = wal_log s" "db_file s' = db_file s" "committed s' = committed s" "base s' c = base s c" "txn s' c = txn s c"
    "\<not> restarting s c" "\<not> restarting s' c" "ck_inv N s' c"
  shows "wal_inv N s'"
proof -
  note i = wal_invD[OF assms(1,2)] and o = othersD[OF assms(3)] and md = marks_invD[OF assms(4)]
  have content: "same_content s s'" using assms(8,16-19) by (simp add: same_content_def)
  have cf: "max_frame_read_lock_index (conns s' c) = max_frame_read_lock_index (conns s c)" "writing s' c = writing s c"
    "f_guard (conns s' c) = fg" "ongoing (conns s' c) = oc" "vacuum_read_guard (conns s' c) = vacuum_read_guard (conns s c)" "f_max_frame (conns s' c) = f_max_frame (conns s c)"
    "f_min_frame (conns s' c) = f_min_frame (conns s c)" "f_transaction_count (conns s' c) = f_transaction_count (conns s c)"
    by (simp_all add: assms(13))
  have rd: "reading s' d = reading s d" for d using o(6) cf(1) by (cases "d = c") (simp_all add: reading_def)
  have mk: "marks_inv N s' (M[0 := (b, 0, v0)])"
    by (rule guard_marks[OF i(2) assms(2-5,8,9,10) cf(1)]) (use assms(22,23) in simp_all)
  have gd: "(\<exists>d<N. ck_guard s' d \<noteq> None) = b"
    using marks_invD(3)[OF mk, of 0] md(2) by (simp add: exclusive_def)
  have wr: "writing s c \<Longrightarrow> ck_guard s c \<noteq> Some GuardWriter" using locks_inv_local[OF i(2) assms(2)] by (simp add: local_ok_def)
  have nw: "writing s c \<Longrightarrow> ck_guard s' c \<noteq> Some GuardWriter"
    using assms(9) assms(12)[OF _ _ assms(2)] by (auto simp: write_held_def split: if_splits)
  then have loc: "local_ok s' c"
    using locks_inv_local[OF i(2) assms(2)] assms(14,15) rd[of c] by (simp add: local_ok_def cf)
  have wh: "(\<exists>d<N. write_held s' d) = (if g = GuardWriter then b else (\<exists>d<N. write_held s d)) \<and>
    (\<forall>d<N. d \<noteq> c \<longrightarrow> write_held s' c \<longrightarrow> \<not> write_held s d)"
  proof (cases "g = GuardWriter")
    case True
    have wc: "write_held s' c = b" using True assms(9,10) wr by (auto simp: write_held_def cf)
    have ns: "\<not> write_held s d" if "d < N" "d \<noteq> c" for d
      using True assms(10) assms(12)[OF _ True that(1)] locks_excl(2)[OF i(2) assms(2) that] by (auto simp: write_held_def)
    have "d = c" if "d < N" "write_held s' d" for d using ns[OF that(1)] that(2) o(8)[of d] by auto
    then have "(\<exists>d<N. write_held s' d) = b" using wc assms(2) by blast
    then show ?thesis using True ns by simp
  next
    case False
    have "write_held s' d = write_held s d" for d
      using False assms(9,10) assms(11)[OF _ assms(2)] o(8)[of d] by (cases "d = c") (auto simp: write_held_def cf split: if_splits)
    then show ?thesis using False locks_excl(2)[OF i(2) assms(2)] by auto
  qed
  obtain x where x: "vacuum_lock (shared s) = lock_of (False, card {d. d < N \<and> reading s d}, x)" using i(2) by (rule locks_inv_words)
  have lk: "locks_inv N s'"
    by (rule locks_step[OF i(2) assms(2,3) mk _ _ _ _ _ loc, of v u x])
      (use wh gd assms(9) assms(11) in \<open>auto simp: assms(6,8) x rd split: if_splits\<close>)
  have bd: "bound s' c = bound s c" using content cf by (simp add: bound_def same_content_def)
  have val: "read_mark_value j (shared s') = read_mark_value j (shared s)" if "0 < j" for j
    using that by (simp add: assms(8) guard_locks_def set_mark_def read_mark_value_def)
  have r: "reader_inv s' c" if "reading s c"
    using i(3)[OF that] content content_overlay[OF content] bd cf val assms(20) by (auto simp: reader_inv_def same_content_def)
  have w: "writer_inv s' c" if "writing s c"
    using i(4)[OF that] content cf rd[of c] assms(21) by (simp add: writer_inv_def same_content_def)
  show ?thesis
    by (rule hold_step_inv[OF assms(1-2) content assms(3) lk _ _ _ _ _ assms(24)])
      (use r w bd i(5) assms(21) in \<open>simp_all add: val rd cf\<close>)
qed

text \<open>A step that changes nothing but the progress of the checkpoint of \<open>c\<close>.\<close>

definition same_view :: "wal_file \<Rightarrow> wal_file \<Rightarrow> bool" where
  "same_view conn conn' \<longleftrightarrow>
     max_frame_read_lock_index conn' = max_frame_read_lock_index conn \<and> write_lock_held conn' = write_lock_held conn \<and>
     vacuum_read_guard conn' = vacuum_read_guard conn \<and> f_max_frame conn' = f_max_frame conn \<and> f_min_frame conn' = f_min_frame conn \<and>
     f_transaction_count conn' = f_transaction_count conn"

lemma quiet_step:
  assumes "wal_inv N s" "c < N" "others_same c s s'" "same_content s s'" "same_locks (shared s) (shared s')" "same_view (conns s c) (conns s' c)"
    "base s' c = base s c" "txn s' c = txn s c" "ck_guard s' c = ck_guard s c" "restarting s' c = restarting s c" "local_ok s' c" "ck_inv N s' c"
  shows "wal_inv N s'"
proof -
  note i = wal_invD[OF assms(1,2)] and o = othersD[OF assms(3)] and cf = assms(6)[unfolded same_view_def]
  have "ck_guard s' d = ck_guard s d \<and> restarting s' d = restarting s d \<and> write_held s' d = write_held s d \<and>
    max_frame_read_lock_index (conns s' d) = max_frame_read_lock_index (conns s d) \<and> reading s' d = reading s d" for d
  proof (cases "d = c")
    case True
    then show ?thesis using assms(9,10) cf by (simp add: write_held_def reading_def)
  next
    case False
    then show ?thesis using o[OF False] by simp
  qed
  then have g: "ck_guard s' d = ck_guard s d" "restarting s' d = restarting s d" "write_held s' d = write_held s d"
    "max_frame_read_lock_index (conns s' d) = max_frame_read_lock_index (conns s d)" "reading s' d = reading s d" for d by blast+
  obtain M v u x where w: "marks_inv N s M" "write_lock (shared s) = lock_of (\<exists>c<N. write_held s c, 0, v)"
    "checkpoint_lock (shared s) = lock_of (\<exists>c<N. ck_guard s c \<noteq> None, 0, u)" "vacuum_lock (shared s) = lock_of (False, card {c. c < N \<and> reading s c}, x)"
    using i(2) by (rule locks_inv_words)
  note sl = assms(5)[unfolded same_locks_def]
  have mk: "marks_inv N s' M" using w(1) sl by (simp add: marks_inv_def marks_are_def holders_def exclusive_def g)
  have lk: "locks_inv N s'"
    by (rule locks_step[OF i(2) assms(2,3) mk _ _ _ _ _ assms(11), of v u x]) (simp_all add: g sl w locks_excl[OF i(2) assms(2)])
  have bd: "bound s' c = bound s c" using assms(4) cf by (simp add: bound_def same_content_def)
  have val: "read_mark_value j (shared s') = read_mark_value j (shared s)" for j by (rule read_mark_same[OF assms(5)])
  have r: "reader_inv s' c" if "reading s c"
    using i(3)[OF that] assms(4) content_overlay[OF assms(4)] bd cf val assms(7) by (simp add: reader_inv_def same_content_def)
  have w: "writer_inv s' c" if "writing s c"
    using i(4)[OF that] assms(4,8) cf g(5)[of c] by (simp add: writer_inv_def same_content_def)
  show ?thesis
    by (rule hold_step_inv[OF assms(1,2,4,3) lk _ _ _ _ _ assms(12)]) (use r w bd i(5) assms(8) cf in \<open>simp_all add: val g\<close>)
qed

lemma same_view_refl [simp]: "same_view conn conn" "same_view conn (conn\<lparr>f_guard := g, ongoing := oc\<rparr>)" "same_view conn (conn\<lparr>ongoing := oc\<rparr>)"
  by (simp_all add: same_view_def)

lemma same_locks_refl [simp]: "same_locks sh sh"
  by (simp add: same_locks_def)

section \<open>Dropping a guard\<close>

lemma guard_words:
  assumes "wal_inv N s" "c < N" "ck_guard s c = Some g"
  obtains M v0 v u where "marks_inv N s M" "M ! 0 = (True, 0, v0)"
    "write_lock (shared s) = lock_of (\<exists>c<N. write_held s c, 0, v)" "checkpoint_lock (shared s) = lock_of (\<exists>c<N. ck_guard s c \<noteq> None, 0, u)"
    "release_checkpoint_guard g (shared s) = Inr (guard_locks g False v0 v u (shared s))"
proof -
  note i = wal_invD[OF assms(1,2)]
  obtain M v u where w: "marks_inv N s M" "write_lock (shared s) = lock_of (\<exists>c<N. write_held s c, 0, v)"
    "checkpoint_lock (shared s) = lock_of (\<exists>c<N. ck_guard s c \<noteq> None, 0, u)" using i(2) by (rule locks_inv_words)
  note md = marks_invD[OF w(1)]
  have ex: "\<exists>c<N. ck_guard s c \<noteq> None" using assms(2,3) by blast
  then have "fst (M ! 0)" "mark_ok (M ! 0)" using md(2) md(3)[of 0] marks_nth[OF md(1), of 0] by (simp_all add: exclusive_def)
  then obtain v0 where m0: "M ! 0 = (True, 0, v0)" by (cases "M ! 0") (auto simp: mark_ok_def)
  have "checkpoint_lock (shared s) = lock_of (True, 0, u)" using w(3) ex by simp
  moreover have "g = GuardWriter \<longrightarrow> write_lock (shared s) = lock_of (True, 0, v)"
  proof
    assume "g = GuardWriter"
    then have "\<exists>c<N. write_held s c" using assms(2,3) by (auto simp: write_held_def)
    then show "write_lock (shared s) = lock_of (True, 0, v)" using w(2) by simp
  qed
  ultimately show ?thesis using release_spec[OF md(1,2) m0] by (intro that[OF w(1) m0 w(2,3)]) simp
qed

lemma fail_keeps:
  assumes "wal_inv N s" "c < N" "ck_state s c \<noteq> CkStart" "\<not> restarting s c"
  shows "\<exists>conn sh. checkpoint_failed (conns s c, shared s) = Inr (conn, sh) \<and> wal_inv N (set_conn c conn sh s) \<and>
    frame_cache_high_water sh = frame_cache_high_water (shared s)"
proof -
  note i = wal_invD[OF assms(1,2)] and gs = guard_state(1)[OF wal_invD(2)[OF assms(1,2)] assms(2,3)]
  obtain g where g: "f_guard (conns s c) = Some g" "ck_guard s c = Some g" using gs by (cases "f_guard (conns s c)") auto
  obtain M v0 v u where w: "marks_inv N s M" "M ! 0 = (True, 0, v0)"
    "write_lock (shared s) = lock_of (\<exists>c<N. write_held s c, 0, v)" "checkpoint_lock (shared s) = lock_of (\<exists>c<N. ck_guard s c \<noteq> None, 0, u)"
    "release_checkpoint_guard g (shared s) = Inr (guard_locks g False v0 v u (shared s))"
    by (rule guard_words[OF assms(1,2) g(2)])
  define oc where "oc = (ongoing (conns s c))\<lparr>oc_state := CkStart\<rparr>"
  define s' where "s' = set_conn c ((conns s c)\<lparr>f_guard := None, ongoing := oc\<rparr>) (guard_locks g False v0 v u (shared s)) s"
  have res: "results s' c = None" using gs by (simp add: s'_def)
  have "wal_inv N s'"
  proof (rule guard_step[OF assms(1,2) _ w(1) _ w(3,4), where s' = s' and b = False])
    show "shared s' = guard_locks g False v0 v u (shared s)" by (simp add: s'_def)
    show "conns s' c = (conns s c)\<lparr>f_guard := None, ongoing := oc\<rparr>" by (simp add: s'_def)
  qed (use g(2) w(2) assms(4) res in \<open>auto simp: s'_def oc_def others_same_def ck_guard_def restarting_def ck_inv_def\<close>)
  moreover have "checkpoint_failed (conns s c, shared s) = Inr ((conns s c)\<lparr>f_guard := None, ongoing := oc\<rparr>, guard_locks g False v0 v u (shared s))"
    using g(1) w(5) by (simp add: checkpoint_failed_def drop_guard_def oc_def)
  ultimately show ?thesis by (auto simp: s'_def)
qed

lemma release_keeps:
  assumes "wal_inv N s" "wal_op_ok N (WRelease c) s"
  shows "\<exists>s'. wal_exec (WRelease c) s = Inr s' \<and> wal_inv N s'"
proof -
  have c: "c < N" using assms(2) by simp
  note i = wal_invD[OF assms(1) c]
  show ?thesis
  proof (cases "results s c")
    case None
    then show ?thesis using assms(1) by simp
  next
    case (Some mr)
    obtain mode res where mr: "mr = (mode, res)" by (cases mr)
    have gs: "ck_guard s c = maybe_guard res" "ck_state s c = CkStart" using guard_state(2)[OF i(2) c] Some mr by simp_all
    have fg: "f_guard (conns s c) = None" using locks_local(3)[OF i(2) c] gs(2) by simp
    show ?thesis
    proof (cases "maybe_guard res")
      case none: None
      define s' where "s' = s\<lparr>shared := shared s, results := (results s)(c := None)\<rparr>"
      have o: "others_same c s s'" by (simp add: s'_def others_same_def)
      have content: "same_content s s'" by (simp add: s'_def same_content_def)
      have "wal_inv N s'"
        by (rule quiet_step[OF assms(1) c o content])
          (use locks_inv_local[OF i(2) c] fg gs none Some mr i(6) in \<open>simp_all add: s'_def ck_guard_def restarting_def local_ok_def reading_def ck_inv_def\<close>)
      then show ?thesis using Some mr none by (simp add: release_guard_def s'_def)
    next
      case guard: (Some g)
      obtain M v0 v u where w: "marks_inv N s M" "M ! 0 = (True, 0, v0)"
        "write_lock (shared s) = lock_of (\<exists>c<N. write_held s c, 0, v)" "checkpoint_lock (shared s) = lock_of (\<exists>c<N. ck_guard s c \<noteq> None, 0, u)"
        "release_checkpoint_guard g (shared s) = Inr (guard_locks g False v0 v u (shared s))"
        by (rule guard_words[OF assms(1) c]) (simp add: gs guard)
      define s' where "s' = s\<lparr>shared := guard_locks g False v0 v u (shared s), results := (results s)(c := None)\<rparr>"
      have "wal_inv N s'"
      proof (rule guard_step[OF assms(1) c _ w(1) _ w(3,4), where s' = s' and b = False])
        show "shared s' = guard_locks g False v0 v u (shared s)" by (simp add: s'_def)
        show "conns s' c = (conns s c)\<lparr>f_guard := None, ongoing := ongoing (conns s c)\<rparr>" using fg by (simp add: s'_def)
      qed (use gs guard w(2) fg in \<open>auto simp: s'_def others_same_def ck_guard_def restarting_def ck_inv_def\<close>)
      then show ?thesis using Some mr guard w(5) by (auto simp: release_guard_def s'_def)
    qed
  qed
qed

end
