(* ===== verification/WalCheckpoint.thy ===== *)
theory WalCheckpoint
  imports WalGuards
begin

text \<open>
  The phases of a checkpoint keep the invariant of the machine: taking the guard and fixing the
  frames to copy, copying, restarting the log, handing the guard over, publishing and releasing.
\<close>

section \<open>Starting a checkpoint\<close>

lemma modes_step:
  assumes "wal_inv N s" "c < N" "ck_state s c = CkStart"
  shows "wal_inv N (s\<lparr>modes := (modes s)(c := mode)\<rparr>)"
proof -
  let ?s = "s\<lparr>modes := (modes s)(c := mode)\<rparr>"
  note i = wal_invD[OF assms(1,2)]
  have content: "same_content s ?s" by (simp add: same_content_def)
  have g: "ck_guard ?s c = ck_guard s c" by (simp add: ck_guard_def cong: option.case_cong)
  show ?thesis
    by (rule quiet_step[OF assms(1,2) _ content])
      (use locks_inv_local[OF i(2) assms(2)] i(6) assms(3) g content_result[OF content] in
        \<open>simp_all add: others_same_def restarting_def local_ok_def reading_def ck_inv_def\<close>)
qed

lemma done_step:
  assumes "wal_inv N s" "c < N" "ck_state s c = CkStart" "results s c = None" "maybe_guard res = None" "wal_checkpoint_backfilled res = 0"
  shows "wal_inv N (s\<lparr>results := (results s)(c \<mapsto> (mode, res))\<rparr>)"
proof -
  let ?s = "s\<lparr>results := (results s)(c \<mapsto> (mode, res))\<rparr>"
  note i = wal_invD[OF assms(1,2)]
  have fg: "f_guard (conns s c) = None" using locks_local(3)[OF i(2) assms(2)] assms(3) by simp
  show ?thesis
    by (rule quiet_step[OF assms(1,2), of ?s])
      (use locks_inv_local[OF i(2) assms(2)] assms(3-6) fg in
        \<open>simp_all add: others_same_def same_content_def ck_guard_def restarting_def local_ok_def reading_def ck_inv_def\<close>)
qed

text \<open>The frame up to which a checkpoint may copy is a frame of every reader's snapshot.\<close>

lemma safe_frame:
  assumes "wal_inv N s" "c < N" "marks_inv N s M" "marks_are M1 sh" "length M1 = 5" "\<And>i. 0 < i \<Longrightarrow> i < 5 \<Longrightarrow> M1 ! i = M ! i"
    "free (M ! 0)"
  obtains mx M' sh' where "coord_max_safe_frame (max_frame (shared s)) sh = Inr (mx, sh')" "same_but_marks sh sh'" "marks_are M' sh'" "idle_step M1 M'"
    "mx \<le> max_frame (shared s)" "\<And>d. d < N \<Longrightarrow> reading s d \<Longrightarrow> mx \<le> bound s d"
proof -
  note i = wal_invD[OF assms(1,2)]
  let ?mx = "fold (lower_to M1) [1..<5] (max_frame (shared s))"
  have lim: "max_frame (shared s) < 2 ^ 32" using i(1) by (simp add: log_inv_def)
  have ix: "\<forall>i\<in>set [1..<5]. i < length M1" "distinct [1..<5::nat]" using assms(5) by simp_all
  obtain M' sh' where sf: "safe_frame_loop [1..<5] (max_frame (shared s)) sh = Inr (?mx, sh')" "same_but_marks sh sh'" "marks_are M' sh'" "idle_step M1 M'"
    using safe_frame_loop_spec[OF lim assms(4) ix] by blast
  have "?mx \<le> bound s d" if "d < N" "reading s d" for d
  proof -
    let ?j = "max_frame_read_lock_index (conns s d)"
    have j: "?j < 5" using locks_local(1)[OF i(2) that(1)] that(2) by blast
    have nf: "\<not> free (M ! ?j)" by (rule held_not_free[OF assms(3) that(1) refl j])
    then have j0: "0 < ?j" using assms(7) by (cases "?j = 0") auto
    then have "?mx \<le> unat (snd (snd (M1 ! ?j)))" using nf j assms(6) by (intro lower_fold_mark) auto
    also have "\<dots> = unat (read_mark_value ?j (shared s))"
      using mark_ops(7)[OF marks_invD(1)[OF assms(3)], of ?j] marks_invD(2)[OF assms(3)] j j0 assms(6) by simp
    also have "\<dots> \<le> bound s d" using wal_invD(3)[OF assms(1) that] j0 by (simp add: reader_inv_def)
    finally show ?thesis .
  qed
  then show ?thesis
    using lim sf lower_fold_le by (intro that[of ?mx sh' M']) (simp_all add: coord_max_safe_frame_def)
qed

lemma pages_copying:
  assumes "log_inv s" "frame_cache sh = frame_cache (shared s)" "mx \<le> max_frame (shared s)"
  shows "(p, f) \<in> set (pages_to_checkpoint (nbackfills (shared s) + 1) mx sh) \<longleftrightarrow>
      newest (slots s) (nbackfills (shared s) + 1) mx p = Some f"
    "distinct (map fst (pages_to_checkpoint (nbackfills (shared s) + 1) mx sh))"
proof -
  have "iter_latest_frames lo hi sh = iter_latest_frames lo hi (shared s)" for lo hi using assms(2) by (simp add: iter_latest_frames_def)
  moreover note iter_latest[of "slots s" "shared s"]
  ultimately show "(p, f) \<in> set (pages_to_checkpoint (nbackfills (shared s) + 1) mx sh) \<longleftrightarrow>
      newest (slots s) (nbackfills (shared s) + 1) mx p = Some f"
    "distinct (map fst (pages_to_checkpoint (nbackfills (shared s) + 1) mx sh))"
    using assms(1) by (simp_all add: pages_to_checkpoint_def log_inv_def newest_empty distinct_map)
qed

lemma same_state: "oc_state oc = st \<Longrightarrow> oc\<lparr>oc_state := st\<rparr> = oc"
  by (cases oc) simp

lemma failed_start:
  assumes "f_guard conn = None" "oc_state (ongoing conn) = CkStart"
  shows "checkpoint_failed (conn, sh) = Inr (conn, sh)"
  using assms by (simp add: checkpoint_failed_def drop_guard_def same_state)

text \<open>The limit that the caller asked for.\<close>

definition limit :: "checkpoint_mode \<Rightarrow> nat \<Rightarrow> nat" where
  "limit mode mx = (case mode of Passive (Some ub) \<Rightarrow> min mx ub | _ \<Rightarrow> mx)"

lemma limit_le: "limit mode mx \<le> mx"
  by (auto simp: limit_def split: checkpoint_mode.split option.split)

lemma restart_guard: "should_restart_log mode \<Longrightarrow> guard_of mode = GuardWriter"
  by (cases mode) (simp_all add: guard_of_def)

lemma begin_checkpoint:
  assumes "wal_inv N s" "c < N" "ck_state s c = CkStart" "results s c = None" "marks_inv N s M" "free (M ! 0)"
    "write_lock (shared s) = lock_of (\<exists>c<N. write_held s c, 0, v)" "checkpoint_lock (shared s) = lock_of (\<exists>c<N. ck_guard s c \<noteq> None, 0, u)"
    "\<And>d. d < N \<Longrightarrow> ck_guard s d = None" "\<And>d. guard_of mode = GuardWriter \<Longrightarrow> d < N \<Longrightarrow> \<not> write_held s d"
    "frame_cache sh = frame_cache (shared s)" "mx \<le> max_frame (shared s)" "\<And>d. d < N \<Longrightarrow> reading s d \<Longrightarrow> mx \<le> bound s d"
    "oc = \<lparr>oc_min_frame = nbackfills (shared s) + 1, oc_max_frame = limit mode mx, oc_current_page = 0, oc_state = st,
       oc_pages = pages_to_checkpoint (nbackfills (shared s) + 1) (limit mode mx) sh\<rparr>" "st \<in> {CkSyncWal, CkProcessing}"
    "s' = (set_conn c ((conns s c)\<lparr>f_guard := Some (guard_of mode), ongoing := oc\<rparr>)
      (guard_locks (guard_of mode) True (snd (snd (M ! 0))) v u (shared s)) s)\<lparr>modes := (modes s)(c := mode)\<rparr>"
  shows "wal_inv N s'"
proof -
  note i = wal_invD[OF assms(1,2)]
  have m0: "M ! 0 = (\<not> True, 0, snd (snd (M ! 0)))" using assms(6) by (cases "M ! 0") (simp add: free_def)
  have cn: "conns s' c = (conns s c)\<lparr>f_guard := Some (guard_of mode), ongoing := oc\<rparr>" "modes s' c = mode" "results s' c = None"
    "shared s' = guard_locks (guard_of mode) True (snd (snd (M ! 0))) v u (shared s)" "slots s' = slots s" "wal_log s' = wal_log s" "db_file s' = db_file s"
    "committed s' = committed s" "base s' c = base s c" "txn s' c = txn s c"
    using assms(4) by (simp_all add: assms(16))
  have o: "others_same c s s'" by (simp add: assms(16) others_same_def)
  have lm: "limit mode mx \<le> max_frame (shared s)" using limit_le assms(12) le_trans by blast
  note pg = pages_copying[OF i(1) assms(11) lm]
  have rd: "limit mode mx \<le> bound s' d" if "d < N" "reading s' d" for d
  proof -
    have "reading s d \<and> bound s' d = bound s d"
      using that(2) othersD(1)[OF o, of d] cn(1,4) by (cases "d = c") (simp_all add: reading_def bound_def)
    then show ?thesis using assms(13)[OF that(1)] limit_le[of mode mx] by simp
  qed
  have "copying_inv N s' c"
    unfolding copying_inv_def Let_def cn using lm pg rd restart_guard assms(15) by (auto simp: assms(14))
  then have ck: "ck_inv N s' c" using assms(15) by (auto simp: ck_inv_def cn assms(14))
  show ?thesis
    by (rule guard_step[OF assms(1,2) o assms(5) m0 assms(7,8) cn(4) _ _ assms(9,10) cn(1)])
      (use assms(3,15) ck in \<open>auto simp: cn ck_guard_def restarting_def assms(14)\<close>)
qed

lemma guard_round:
  assumes "checkpoint_lock sh = lock_of (False, 0, u)" "g = GuardWriter \<longrightarrow> write_lock sh = lock_of (False, 0, v)"
    "same_but_marks (guard_locks g True v0 v u sh) sh2"
  shows "same_but_marks sh (guard_locks g False v0 v u sh2)"
proof -
  obtain ls where "sh2 = (guard_locks g True v0 v u sh)\<lparr>read_locks := ls\<rparr>" using assms(3) by (auto simp: same_but_marks_def)
  then have "guard_locks g False v0 v u sh2 = sh\<lparr>read_locks := ls[0 := lock_of (False, 0, v0)]\<rparr>"
    using assms(1,2) by (cases sh; cases g) (simp_all add: guard_locks_def set_mark_def)
  then show ?thesis by (auto simp: same_but_marks_def)
qed

lemma over_limit:
  assumes "marks_are M sh" "length M = 5" "M ! 0 = (False, 0, v0)" "checkpoint_lock sh = lock_of (False, 0, u)"
    "g = GuardWriter \<longrightarrow> write_lock sh = lock_of (False, 0, v)" "same_but_marks (guard_locks g True v0 v u sh) sh2"
    "marks_are M2 sh2" "idle_step (M[0 := (True, 0, v0)]) M2" "f_guard conn = Some g" "oc_state (ongoing conn) = CkStart"
  obtains sh3 M3 where "checkpoint_failed (conn, sh2) = Inr (conn\<lparr>f_guard := None\<rparr>, sh3)"
    "same_but_marks sh sh3" "marks_are M3 sh3" "idle_step M M3"
proof -
  let ?M3 = "M2[0 := (False, 0, v0)]"
  have m2: "length M2 = 5" "M2 ! 0 = (True, 0, v0)"
    using assms(8) assms(2) by (auto simp: idle_step_def free_def dest: spec[of _ 0])
  have "checkpoint_lock sh2 = lock_of (True, 0, u)" "g = GuardWriter \<longrightarrow> write_lock sh2 = lock_of (True, 0, v)"
    using same_but_marks_fields(6,7)[OF assms(6)] by simp_all
  then have rel: "release_checkpoint_guard g sh2 = Inr (guard_locks g False v0 v u sh2)"
    by (rule release_spec[OF assms(7) m2])
  have "idle_step M ?M3"
    unfolding idle_step_def
  proof (intro conjI allI impI)
    fix i assume "i < length M"
    then show "?M3 ! i = M ! i \<or> free (M ! i) \<and> free (?M3 ! i)"
      using assms(2,3,8) m2(1) by (cases "i = 0") (auto simp: idle_step_def)
  qed (use m2 assms(2) in simp)
  moreover have "conn\<lparr>f_guard := None, ongoing := ongoing conn\<rparr> = conn\<lparr>f_guard := None\<rparr>" by (cases conn) simp
  ultimately show ?thesis
    using rel assms(9,10) guard_round[OF assms(4-6)] guard_locks_marks[OF assms(7), of False v0 g v u]
    by (intro that[of "guard_locks g False v0 v u sh2" ?M3]) (simp_all add: checkpoint_failed_def drop_guard_def same_state)
qed

lemma free_word: "l = lock_of (P, 0, v) \<Longrightarrow> \<not> P \<Longrightarrow> l = lock_of (False, 0, v)"
  by simp

lemma start_acquired:
  assumes "wal_inv N s" "c < N" "ck_state s c = CkStart" "results s c = None" "marks_inv N s M" "free (M ! 0)"
    "write_lock (shared s) = lock_of (\<exists>c<N. write_held s c, 0, v)" "checkpoint_lock (shared s) = lock_of (\<exists>c<N. ck_guard s c \<noteq> None, 0, u)"
    "\<And>d. d < N \<Longrightarrow> ck_guard s d = None" "\<And>d. guard_of mode = GuardWriter \<Longrightarrow> d < N \<Longrightarrow> \<not> write_held s d"
    "acquire_checkpoint_guard mode (shared s) = Inr (Some (guard_of mode), guard_locks (guard_of mode) True (snd (snd (M ! 0))) v u (shared s))"
    "max_frame (shared s) > nbackfills (shared s) \<or> should_restart_log mode"
  shows "\<exists>out conn sh. checkpoint_step mode sync_off random lg (conns s c, shared s, db) = Inr (out, conn, sh, db) \<and>
    wal_inv N (keep_result c mode out ((set_conn c conn sh s)\<lparr>modes := (modes s)(c := mode)\<rparr>)) \<and>
    frame_cache_high_water sh = frame_cache_high_water (shared s)"
proof -
  let ?g = "guard_of mode" and ?v0 = "snd (snd (M ! 0))" and ?conn = "conns s c"
  let ?sh1 = "guard_locks ?g True ?v0 v u (shared s)"
  note i = wal_invD[OF assms(1,2)] and md = marks_invD[OF assms(5)]
  have fg: "f_guard ?conn = None" using locks_local(3)[OF i(2) assms(2)] assms(3) by simp
  have m0: "M ! 0 = (False, 0, ?v0)" using assms(6) by (cases "M ! 0") (simp add: free_def)
  have none: "\<not> (\<exists>c<N. ck_guard s c \<noteq> None)" "?g = GuardWriter \<longrightarrow> \<not> (\<exists>c<N. write_held s c)" using assms(9,10) by auto
  have m1: "marks_are (M[0 := (True, 0, ?v0)]) ?sh1" "length (M[0 := (True, 0, ?v0)]) = 5" using guard_locks_marks[OF md(1)] md(2) by simp_all
  obtain mx M2 sh2 where sf: "coord_max_safe_frame (max_frame (shared s)) ?sh1 = Inr (mx, sh2)" "same_but_marks ?sh1 sh2" "marks_are M2 sh2"
    "idle_step (M[0 := (True, 0, ?v0)]) M2" "mx \<le> max_frame (shared s)" "\<And>d. d < N \<Longrightarrow> reading s d \<Longrightarrow> mx \<le> bound s d"
    by (rule safe_frame[OF assms(1,2,5) m1 _ assms(6)]) auto
  have acq: "acquire_proper_checkpoint_guard mode (?conn, shared s) = Inr (True, ?conn\<lparr>f_guard := Some ?g\<rparr>, ?sh1)"
    using fg assms(11) by (simp add: acquire_proper_checkpoint_guard_def needs_new_guard_def drop_guard_def)
  have start: "checkpoint_start mode sync_off (?conn, shared s) =
      (if (case mode of Truncate (Some ub) \<Rightarrow> mx > ub | _ \<Rightarrow> False) then Inr (CkBusy, ?conn\<lparr>f_guard := Some ?g\<rparr>, sh2)
       else let pages = pages_to_checkpoint (nbackfills (shared s) + 1) (limit mode mx) sh2
            in Inr (CkContinue, ?conn\<lparr>f_guard := Some ?g, ongoing :=
              \<lparr>oc_min_frame = nbackfills (shared s) + 1, oc_max_frame = limit mode mx, oc_current_page = 0,
               oc_state = (if pages \<noteq> [] \<and> \<not> sync_off then CkSyncWal else CkProcessing), oc_pages = pages\<rparr>\<rparr>, sh2))"
    using assms(12) acq sf(1) same_but_marks_fields(5)[OF sf(2)] by (auto simp: checkpoint_start_def limit_def Let_def)
  have hw: "frame_cache_high_water sh2 = frame_cache_high_water (shared s)" using same_but_marks_fields(3)[OF sf(2)] by simp
  show ?thesis
  proof (cases "case mode of Truncate (Some ub) \<Rightarrow> mx > ub | _ \<Rightarrow> False")
    case True
    have cl: "checkpoint_lock (shared s) = lock_of (False, 0, u)" "?g = GuardWriter \<longrightarrow> write_lock (shared s) = lock_of (False, 0, v)"
      using free_word[OF assms(8)] free_word[OF assms(7)] none by blast+
    obtain sh3 M3 where f: "checkpoint_failed (?conn\<lparr>f_guard := Some ?g\<rparr>, sh2) = Inr (?conn\<lparr>f_guard := Some ?g\<rparr>\<lparr>f_guard := None\<rparr>, sh3)"
      "same_but_marks (shared s) sh3" "marks_are M3 sh3" "idle_step M M3"
      by (rule over_limit[OF md(1,2) m0 cl sf(2-4), of "?conn\<lparr>f_guard := Some ?g\<rparr>"]) (use assms(3) in simp_all)
    have "?conn\<lparr>f_guard := None\<rparr> = ?conn" using fg by (cases ?conn) simp
    then have "checkpoint_step mode sync_off random lg (?conn, shared s, db) = Inr (CkBusy, ?conn, sh3, db)"
      using True assms(3) start f(1) by (simp add: checkpoint_step_def)
    moreover have "wal_inv N ((s\<lparr>shared := sh3\<rparr>)\<lparr>modes := (modes (s\<lparr>shared := sh3\<rparr>))(c := mode)\<rparr>)"
      by (rule modes_step[OF idle_marks_step[OF assms(1,2) f(2) assms(5) f(3,4)] assms(2)]) (simp add: assms(3))
    ultimately show ?thesis using same_but_marks_fields(3)[OF f(2)] by (simp add: keep_result_def set_conn_id)
  next
    case False
    define pages where "pages = pages_to_checkpoint (nbackfills (shared s) + 1) (limit mode mx) sh2"
    define st where "st = (if pages \<noteq> [] \<and> \<not> sync_off then CkSyncWal else CkProcessing)"
    define oc where "oc = \<lparr>oc_min_frame = nbackfills (shared s) + 1, oc_max_frame = limit mode mx, oc_current_page = 0,
      oc_state = st, oc_pages = pages\<rparr>"
    define s1 where "s1 = (set_conn c (?conn\<lparr>f_guard := Some ?g, ongoing := oc\<rparr>) ?sh1 s)\<lparr>modes := (modes s)(c := mode)\<rparr>"
    have fc: "frame_cache sh2 = frame_cache (shared s)" using same_but_marks_fields(2)[OF sf(2)] by simp
    have w1: "wal_inv N s1"
      by (rule begin_checkpoint[OF assms(1-10) fc sf(5,6) oc_def[unfolded pages_def] _ s1_def]) (simp_all add: st_def)
    have M1: "marks_inv N s1 (M[0 := (True, 0, ?v0)])"
      by (rule guard_marks[OF i(2) assms(2) _ assms(5), where g = ?g and v = v and u = u])
        (use assms(3) m0 in \<open>auto simp: s1_def others_same_def ck_guard_def restarting_def oc_def st_def\<close>)
    have "wal_inv N (s1\<lparr>shared := sh2\<rparr>)" by (rule idle_marks_step[OF w1 assms(2) _ M1 sf(3,4)]) (simp add: s1_def sf(2))
    moreover have "s1\<lparr>shared := sh2\<rparr> = (set_conn c (?conn\<lparr>f_guard := Some ?g, ongoing := oc\<rparr>) sh2 s)\<lparr>modes := (modes s)(c := mode)\<rparr>"
      by (simp add: s1_def set_conn_def)
    moreover have "checkpoint_step mode sync_off random lg (?conn, shared s, db) = Inr (CkContinue, ?conn\<lparr>f_guard := Some ?g, ongoing := oc\<rparr>, sh2, db)"
      using False assms(3) start by (simp add: checkpoint_step_def Let_def oc_def pages_def st_def)
    ultimately show ?thesis using hw by (simp add: keep_result_def)
  qed
qed

lemma run_checkpoint_eq:
  assumes "wal_inv N s" "c < N" "checkpoint_step mode sync_off random (wal_log s) (conns s c, shared s, db_file s) = Inr (out, conn, sh, db)"
    "frame_cache_high_water sh = frame_cache_high_water (shared s)"
  shows "run_checkpoint c mode sync_off random s =
    Inr (keep_result c mode out ((set_conn c conn sh s)\<lparr>db_file := db, modes := (modes s)(c := mode)\<rparr>))"
proof -
  have "take (frame_cache_high_water (shared s)) (slots s) = slots s" using wal_invD(1)[OF assms(1,2)] by (simp add: log_inv_def index_ok_def)
  then show ?thesis using assms(3,4) by (simp add: run_checkpoint_def set_conn_def)
qed

lemma checkpoint_keeps:
  assumes "wal_inv N s" "wal_op_ok N (WCheckpoint c mode sync_off random) s"
  shows "\<exists>s'. wal_exec (WCheckpoint c mode sync_off random) s = Inr s' \<and> wal_inv N s'"
proof -
  have ok: "c < N" "ck_state s c = CkStart" "results s c = None" using assms(2) by simp_all
  note i = wal_invD[OF assms(1) ok(1)]
  let ?conn = "conns s c" and ?sm = "s\<lparr>modes := (modes s)(c := mode)\<rparr>"
  have fg: "f_guard ?conn = None" using locks_local(3)[OF i(2) ok(1)] ok(2) by simp
  have sm: "wal_inv N ?sm" by (rule modes_step[OF assms(1) ok(1,2)])
  have "\<exists>out conn sh. checkpoint_step mode sync_off random (wal_log s) (?conn, shared s, db_file s) = Inr (out, conn, sh, db_file s) \<and>
    wal_inv N (keep_result c mode out ((set_conn c conn sh s)\<lparr>modes := (modes s)(c := mode)\<rparr>)) \<and>
    frame_cache_high_water sh = frame_cache_high_water (shared s)"
  proof (cases "max_frame (shared s) > nbackfills (shared s) \<or> should_restart_log mode")
    case False
    define res where "res = checkpoint_result_new (max_frame (shared s)) (nbackfills (shared s)) 0"
    have "wal_inv N (?sm\<lparr>results := (results ?sm)(c \<mapsto> (mode, res))\<rparr>)"
      using done_step[OF sm ok(1), of res mode] ok(2,3) by (simp add: res_def checkpoint_result_new_def)
    moreover have "checkpoint_step mode sync_off random (wal_log s) (?conn, shared s, db_file s) = Inr (CkDone res, ?conn, shared s, db_file s)"
      using False ok(2) by (simp add: checkpoint_step_def checkpoint_start_def res_def)
    ultimately show ?thesis by (simp add: keep_result_def set_conn_def)
  next
    case True
    obtain M v u where w: "marks_inv N s M" "write_lock (shared s) = lock_of (\<exists>c<N. write_held s c, 0, v)"
      "checkpoint_lock (shared s) = lock_of (\<exists>c<N. ck_guard s c \<noteq> None, 0, u)" using i(2) by (rule locks_inv_words)
    note acq = acquire_spec[OF marks_invD(1,2)[OF w(1)] w(2,3), of mode]
    show ?thesis
    proof (cases "\<not> (\<exists>c<N. ck_guard s c \<noteq> None) \<and> free (M ! 0) \<and> (guard_of mode = GuardWriter \<longrightarrow> \<not> (\<exists>c<N. write_held s c))")
      case False
      then have a: "acquire_checkpoint_guard mode (shared s) = Inr (None, shared s)" using acq by (simp only: if_False)
      then have "checkpoint_step mode sync_off random (wal_log s) (?conn, shared s, db_file s) = Inr (CkBusy, ?conn, shared s, db_file s)"
        using True ok(2) fg by (simp add: checkpoint_step_def checkpoint_start_def acquire_proper_checkpoint_guard_def needs_new_guard_def
            drop_guard_def failed_start)
      then show ?thesis using sm by (simp add: keep_result_def set_conn_def)
    next
      case free: True
      have a: "acquire_checkpoint_guard mode (shared s) = Inr (Some (guard_of mode), guard_locks (guard_of mode) True (snd (snd (M ! 0))) v u (shared s))"
        unfolding acq using free by (rule if_P)
      show ?thesis by (rule start_acquired[OF assms(1) ok w(1) _ w(2,3) _ _ a True]) (use free in blast)+
    qed
  qed
  then show ?thesis using run_checkpoint_eq[OF assms(1) ok(1)] by (auto simp: set_conn_def)
qed

end
