(* ===== verification/WalCopying.thy ===== *)
theory WalCopying
  imports WalCheckpoint
begin

text \<open>
  The later phases of a checkpoint keep the invariant of the machine: copying, restarting the log,
  handing the guard over to the caller, and what the caller does with it.
\<close>

section \<open>Copying\<close>

lemma copying_state:
  assumes "wal_inv N s" "c < N" "ck_state s c \<in> {CkSyncWal, CkProcessing, CkDetermineResult}"
  obtains g where "f_guard (conns s c) = Some g" "ck_guard s c = Some g" "results s c = None" "copying_inv N s c" "\<not> restarting s c"
    "should_restart_log (modes s c) \<longrightarrow> g = GuardWriter"
proof -
  note i = wal_invD[OF assms(1,2)]
  have st: "ck_state s c \<noteq> CkStart" using assms(3) by auto
  note gs = guard_state(1)[OF i(2) assms(2) st]
  have cp: "copying_inv N s c" using i(6) assms(3) unfolding ck_inv_def by (rule conjunct1[THEN mp])
  moreover have "\<not> restarting s c" using assms(3) by (auto simp: restarting_def)
  moreover obtain g where "f_guard (conns s c) = Some g" using gs by (cases "f_guard (conns s c)") auto
  ultimately show ?thesis using gs by (intro that[of g]) (auto simp: copying_inv_def Let_def)
qed

lemma phase_step:
  assumes "wal_inv N s" "c < N" "ck_state s c \<in> {CkSyncWal, CkProcessing, CkDetermineResult}"
    "s' = set_conn c ((conns s c)\<lparr>ongoing := (ongoing (conns s c))\<lparr>oc_state := st\<rparr>\<rparr>) (shared s) s"
    "st \<noteq> CkStart" "\<And>res. st = CkFinalize res \<Longrightarrow> \<not> should_restart_log (modes s c)" "ck_inv N s' c"
  shows "wal_inv N s'"
proof -
  obtain g where g: "f_guard (conns s c) = Some g" "ck_guard s c = Some g" "results s c = None" "\<not> restarting s c"
    by (rule copying_state[OF assms(1-3)])
  have o: "others_same c s s'" by (simp add: assms(4) others_same_def)
  have content: "same_content s s'" by (simp add: assms(4) same_content_def)
  have cn: "conns s' c = (conns s c)\<lparr>ongoing := (ongoing (conns s c))\<lparr>oc_state := st\<rparr>\<rparr>" "results s' c = None" "modes s' c = modes s c" "shared s' = shared s"
    "base s' c = base s c" "txn s' c = txn s c" using g(3) by (simp_all add: assms(4))
  have gd: "ck_guard s' c = ck_guard s c" using g by (simp add: ck_guard_def cn)
  have rs: "\<not> restarting s' c" using assms(5,6) by (cases st) (simp_all add: restarting_def cn)
  have lo: "local_ok s' c"
    using locks_inv_local[OF wal_invD(2)[OF assms(1,2)] assms(2)] assms(5) g gd by (simp add: local_ok_def cn reading_def)
  show ?thesis
    by (rule quiet_step[OF assms(1,2) o content _ _ _ _ gd _ lo assms(7)]) (simp_all add: cn g(4) rs)
qed

lemma copying_phase:
  assumes "copying_inv N s c" "st = CkDetermineResult \<longrightarrow> oc_current_page (ongoing (conns s c)) = length (oc_pages (ongoing (conns s c)))"
    "s' = set_conn c ((conns s c)\<lparr>ongoing := (ongoing (conns s c))\<lparr>oc_state := st\<rparr>\<rparr>) (shared s) s"
  shows "copying_inv N s' c"
proof -
  have b: "reading s' d = reading s d" "bound s' d = bound s d" for d by (auto simp: assms(3) reading_def bound_def)
  have cn: "conns s' c = (conns s c)\<lparr>ongoing := (ongoing (conns s c))\<lparr>oc_state := st\<rparr>\<rparr>" "modes s' c = modes s c" "shared s' = shared s"
    "slots s' = slots s" "wal_log s' = wal_log s" "db_file s' = db_file s" by (simp_all add: assms(3))
  show ?thesis using assms(1,2) by (simp add: copying_inv_def Let_def cn b)
qed

lemma advance_step:
  assumes "wal_inv N s" "c < N" "ck_state s c \<in> {CkSyncWal, CkProcessing}" "st \<in> {CkProcessing, CkDetermineResult}"
    "st = CkDetermineResult \<longrightarrow> oc_current_page (ongoing (conns s c)) = length (oc_pages (ongoing (conns s c)))"
  shows "wal_inv N (set_conn c ((conns s c)\<lparr>ongoing := (ongoing (conns s c))\<lparr>oc_state := st\<rparr>\<rparr>) (shared s) s)"
proof -
  have ph: "ck_state s c \<in> {CkSyncWal, CkProcessing, CkDetermineResult}" using assms(3) by auto
  obtain g where g: "results s c = None" "copying_inv N s c" by (rule copying_state[OF assms(1,2) ph])
  show ?thesis
    using copying_phase[OF g(2) assms(5) refl] g(1) assms(4)
    by (intro phase_step[OF assms(1,2) ph refl]) (auto simp: ck_inv_def)
qed

text \<open>When a connection holds the guard, the other connections have no checkpoint.\<close>

lemma no_other_checkpoint:
  assumes "wal_inv N s" "c < N" "ck_guard s c \<noteq> None" "d < N" "d \<noteq> c"
    "conns s' d = conns s d" "results s' d = results s d"
  shows "ck_inv N s' d"
proof -
  note i = wal_invD[OF assms(1,4)]
  have n: "ck_guard s d = None" using locks_excl(1)[OF i(2) assms(2,4,5,3)] .
  then have "f_guard (conns s d) = None" by (simp add: ck_guard_def split: option.splits)
  then have st: "ck_state s d = CkStart" using locks_local(3)[OF i(2) assms(4)] by simp
  have "maybe_guard res = None" if "results s d = Some (mode, res)" for mode res
    using n that by (simp add: ck_guard_def split: option.splits)
  then show ?thesis using i(6) st assms(6,7) by (auto simp: ck_inv_def)
qed

lemma copy_step:
  assumes "wal_inv N s" "c < N" "ck_state s c = CkProcessing" "oc_current_page (ongoing (conns s c)) < length (oc_pages (ongoing (conns s c)))"
    "oc_pages (ongoing (conns s c)) ! oc_current_page (ongoing (conns s c)) = (p, f)"
    "s' = (set_conn c ((conns s c)\<lparr>ongoing := (ongoing (conns s c))\<lparr>oc_current_page := oc_current_page (ongoing (conns s c)) + 1\<rparr>\<rparr>) (shared s) s)
       \<lparr>db_file := (db_file s)(p := wal_log s f)\<rparr>"
  shows "wal_inv N s'"
proof -
  let ?oc = "ongoing (conns s c)"
  note i = wal_invD[OF assms(1,2)]
  obtain g where g: "f_guard (conns s c) = Some g" "ck_guard s c = Some g" "results s c = None" "copying_inv N s c"
    by (rule copying_state[OF assms(1,2)]) (simp_all add: assms(3))
  note cp = g(4)[unfolded copying_inv_def Let_def]
  have cn: "conns s' c = (conns s c)\<lparr>ongoing := ?oc\<lparr>oc_current_page := oc_current_page ?oc + 1\<rparr>\<rparr>" "modes s' = modes s" "shared s' = shared s"
    "slots s' = slots s" "wal_log s' = wal_log s" "db_file s' = (db_file s)(p := wal_log s f)" "results s' = results s" "base s' = base s" "txn s' = txn s"
    "committed s' = committed s" by (simp_all add: assms(6))
  have od: "conns s' d = conns s d" if "d \<noteq> c" for d using that by (simp add: assms(6))
  have b: "reading s' d = reading s d" "bound s' d = bound s d" "f_min_frame (conns s' d) = f_min_frame (conns s d)" "writer_inv s' d = writer_inv s d"
    "held_of s' d = held_of s d" "writing s' d = writing s d" for d
    by (cases "d = c"; simp add: cn od reading_def bound_def writer_inv_def held_of_def restarting_def cong: checkpoint_state.case_cong)+
  have new: "newest (slots s) (nbackfills (shared s) + 1) (oc_max_frame ?oc) p = Some f"
    using cp assms(4,5) nth_mem by metis
  have ov: "overlay s' lo hi q = overlay s lo hi q" if "lo \<le> nbackfills (shared s) + 1" "oc_max_frame ?oc \<le> hi" for lo hi q
    by (rule overlay_db[OF newest_not_None[OF new that] cn(4-6)])
  have lg: "log_inv s'" using i(1) ov cp by (simp add: log_inv_def cn)
  have rd: "reader_inv s' d" if d: "d < N" "reading s d" for d
  proof -
    have r: "reader_inv s d" by (rule wal_invD(3)[OF assms(1) d])
    then have "overlay s' (f_min_frame (conns s d)) (bound s d) q = base s d q" for q
      using ov[of "f_min_frame (conns s d)" "bound s d" q] cp d by (simp add: reader_inv_def)
    then show ?thesis using r b[of d] by (cases "d = c") (simp_all add: reader_inv_def cn od)
  qed
  have "db_file s' (fst (oc_pages ?oc ! j)) = wal_log s (snd (oc_pages ?oc ! j))" if "j < oc_current_page ?oc + 1" for j
  proof (cases "j = oc_current_page ?oc")
    case True
    then show ?thesis using assms(5) by (simp add: cn)
  next
    case False
    then have j: "j < oc_current_page ?oc" using that by simp
    then have "fst (oc_pages ?oc ! j) \<noteq> p"
      using cp assms(4,5) nth_eq_iff_index_eq[of "map fst (oc_pages ?oc)" j "oc_current_page ?oc"] by simp
    then show ?thesis using cp j by (simp add: cn)
  qed
  then have cpy: "copying_inv N s' c"
    using cp assms(3,4) by (simp add: copying_inv_def Let_def cn(1-5) b)
  have "ck_inv N s' d" if d: "d < N" for d
  proof (cases "d = c")
    case True
    then show ?thesis using cpy assms(3) g(3) by (simp add: ck_inv_def cn)
  next
    case False
    show ?thesis by (rule no_other_checkpoint[OF assms(1,2) _ d False od[OF False]]) (simp_all add: g(2) cn)
  qed
  moreover have "locks_inv N s'" by (rule locks_inv_cong[OF _ _ i(2)]) (simp_all add: b(5) cn)
  moreover have "conns_inv N s'" using wal_invD(4,5)[OF assms(1)] rd by (simp add: conns_inv_def b cn)
  ultimately show ?thesis using assms(1) lg by (simp add: wal_inv_def checkpoints_inv_eq)
qed

lemma process_keeps:
  assumes "wal_inv N s" "c < N" "ck_state s c \<in> {CkSyncWal, CkProcessing}"
  shows "\<exists>s'. run_checkpoint c (modes s c) False random s = Inr s' \<and> wal_inv N s'"
proof -
  let ?conn = "conns s c" and ?oc = "ongoing (conns s c)"
  have md: "(modes s)(c := modes s c) = modes s" by simp
  consider "ck_state s c = CkSyncWal" | "ck_state s c = CkProcessing" "oc_current_page ?oc < length (oc_pages ?oc)"
    | "ck_state s c = CkProcessing" "\<not> oc_current_page ?oc < length (oc_pages ?oc)" using assms(3) by blast
  then show ?thesis
  proof cases
    case 1
    let ?new = "?conn\<lparr>ongoing := ?oc\<lparr>oc_state := CkProcessing\<rparr>\<rparr>"
    have "checkpoint_step (modes s c) False random (wal_log s) (?conn, shared s, db_file s) = Inr (CkContinue, ?new, shared s, db_file s)"
      using 1 by (simp add: checkpoint_step_def)
    then show ?thesis
      using run_checkpoint_eq[OF assms(1,2)] advance_step[OF assms, of CkProcessing] by (simp add: keep_result_def set_conn_def)
  next
    case 2
    obtain p f where pf: "oc_pages ?oc ! oc_current_page ?oc = (p, f)" by (cases "oc_pages ?oc ! oc_current_page ?oc")
    let ?new = "?conn\<lparr>ongoing := ?oc\<lparr>oc_current_page := oc_current_page ?oc + 1\<rparr>\<rparr>"
    have "checkpoint_step (modes s c) False random (wal_log s) (?conn, shared s, db_file s) = Inr (CkContinue, ?new, shared s, (db_file s)(p := wal_log s f))"
      using 2 pf by (simp add: checkpoint_step_def checkpoint_process_def Let_def)
    then show ?thesis
      using run_checkpoint_eq[OF assms(1,2)] copy_step[OF assms(1,2) 2 pf refl] by (simp add: keep_result_def set_conn_def)
  next
    case 3
    let ?new = "?conn\<lparr>ongoing := ?oc\<lparr>oc_state := CkDetermineResult\<rparr>\<rparr>"
    have ph: "ck_state s c \<in> {CkSyncWal, CkProcessing, CkDetermineResult}" using 3 by simp
    have "copying_inv N s c" by (rule copying_state[OF assms(1,2) ph])
    then have len: "oc_current_page ?oc = length (oc_pages ?oc)" using 3(2) by (simp add: copying_inv_def Let_def)
    have "checkpoint_step (modes s c) False random (wal_log s) (?conn, shared s, db_file s) = Inr (CkContinue, ?new, shared s, db_file s)"
      using 3 by (simp add: checkpoint_step_def checkpoint_process_def Let_def)
    then show ?thesis
      using run_checkpoint_eq[OF assms(1,2)] advance_step[OF assms, of CkDetermineResult] len by (simp add: keep_result_def set_conn_def)
  qed
qed

section \<open>The result\<close>

lemma copied_done:
  assumes "copying_inv N s c" "ck_state s c = CkDetermineResult"
  shows "copied s (oc_max_frame (ongoing (conns s c)))"
proof -
  let ?oc = "ongoing (conns s c)"
  note cp = assms(1)[unfolded copying_inv_def Let_def]
  have "db_file s p = wal_log s f" if "newest (slots s) (nbackfills (shared s) + 1) (oc_max_frame ?oc) p = Some f" for p f
  proof -
    have "(p, f) \<in> set (oc_pages ?oc)" using cp that by simp
    then obtain j where "j < length (oc_pages ?oc)" "oc_pages ?oc ! j = (p, f)" by (auto simp: in_set_conv_nth)
    then show ?thesis using cp assms(2) by (metis fst_conv snd_conv)
  qed
  then show ?thesis using cp by (simp add: copied_def)
qed

definition result_of :: "'c wal_sys \<Rightarrow> nat \<Rightarrow> checkpoint_result" where
  "result_of s c = checkpoint_result_new (max_frame (shared s)) (oc_max_frame (ongoing (conns s c)))
     (oc_max_frame (ongoing (conns s c)) - (oc_min_frame (ongoing (conns s c)) - 1))"

lemma restart_requires: "should_restart_log mode \<Longrightarrow> require_all_backfilled mode"
  by (cases mode) simp_all

lemma fail_marks_keeps:
  assumes "wal_inv N s" "c < N" "ck_state s c \<noteq> CkStart" "\<not> restarting s c" "marks_inv N s M" "same_but_marks (shared s) sh'" "marks_are M' sh'" "idle_step M M'"
  shows "\<exists>conn sh. checkpoint_failed (conns s c, sh') = Inr (conn, sh) \<and> wal_inv N (set_conn c conn sh s) \<and>
    frame_cache_high_water sh = frame_cache_high_water (shared s)"
proof -
  let ?s = "s\<lparr>shared := sh'\<rparr>"
  have w: "wal_inv N ?s" by (rule idle_marks_step[OF assms(1,2,6,5,7,8)])
  have "\<not> restarting ?s c" using assms(4) by (simp add: restarting_def cong: checkpoint_state.case_cong)
  then show ?thesis using fail_keeps[OF w assms(2)] assms(3) same_but_marks_fields(3)[OF assms(6)] by (simp add: set_conn_def)
qed

lemma finalize_step:
  assumes "wal_inv N s" "c < N" "ck_state s c = CkDetermineResult" "\<not> should_restart_log (modes s c)"
  shows "wal_inv N (set_conn c ((conns s c)\<lparr>ongoing := (ongoing (conns s c))\<lparr>oc_state := CkFinalize (result_of s c)\<rparr>\<rparr>) (shared s) s)" (is "wal_inv N ?s")
proof -
  have ph: "ck_state s c \<in> {CkSyncWal, CkProcessing, CkDetermineResult}" using assms(3) by simp
  obtain g where g: "results s c = None" "copying_inv N s c" by (rule copying_state[OF assms(1,2) ph])
  have "copied s (oc_max_frame (ongoing (conns s c)))" by (rule copied_done[OF g(2) assms(3)])
  then have "copied ?s (oc_max_frame (ongoing (conns s c)))" by (simp add: copied_def)
  moreover have "oc_min_frame (ongoing (conns s c)) = nbackfills (shared s) + 1" using g(2) by (simp add: copying_inv_def Let_def)
  ultimately have "ck_inv N ?s c"
    using g(1) assms(4) by (auto simp: ck_inv_def result_ok_def result_of_def checkpoint_result_new_def)
  then show ?thesis using assms(4) by (intro phase_step[OF assms(1,2) ph refl]) auto
qed

lemma restart_marks_nth: "j < 5 \<Longrightarrow> fst (restart_marks ! j)" "j < 5 \<Longrightarrow> fst (snd (restart_marks ! j)) = 0" "length restart_marks = 5"
  by (auto simp: restart_marks_def less_Suc_eq numeral_nat)

text \<open>Nobody reads or writes when the guard of a checkpoint can take all read marks.\<close>

lemma alone_with_guard:
  assumes "wal_inv N s" "c < N" "ck_guard s c = Some GuardWriter" "marks_inv N s M" "\<forall>i\<in>{1..<5}. free (M ! i)"
  shows "j < 5 \<Longrightarrow> holders N s j = {}" "d < N \<Longrightarrow> \<not> reading s d" "d < N \<Longrightarrow> \<not> writing s d"
proof -
  note i = wal_invD[OF assms(1,2)] and md = marks_invD[OF assms(4)]
  show h: "holders N s j = {}" if j: "j < 5" for j
  proof -
    have "fst (snd (M ! j)) = 0"
    proof (cases "j = 0")
      case True
      have "exclusive N s 0" using assms(2,3) by (auto simp: exclusive_def)
      then show ?thesis using True md(2) md(3)[of 0] marks_nth[OF md(1), of 0] by (auto simp: mark_ok_def)
    next
      case False
      then have "free (M ! j)" using assms(5) j by simp
      then show ?thesis by (auto simp: free_def)
    qed
    then show ?thesis using md(4)[OF j] by simp
  qed
  show "\<not> reading s d" if "d < N"
    using h[of "max_frame_read_lock_index (conns s d)"] locks_local(1)[OF i(2) that] that by (auto simp: holders_def)
  show "\<not> writing s d" if "d < N"
  proof (cases "d = c")
    case True
    then show ?thesis using locks_inv_local[OF i(2) assms(2)] assms(3) by (auto simp: local_ok_def)
  next
    case False
    then show ?thesis using locks_excl(2)[OF i(2) assms(2) that] assms(3) by (simp add: write_held_def)
  qed
qed

lemma restart_checkpoint:
  assumes "wal_inv N s" "c < N" "ck_state s c = CkDetermineResult" "should_restart_log (modes s c)"
    "oc_max_frame (ongoing (conns s c)) = max_frame (shared s)" "marks_inv N s M" "\<forall>i\<in>{1..<5}. free (M ! i)"
    "same_but_marks (restarted random (shared s)) sh'" "marks_are restart_marks sh'"
    "s' = (set_conn c ((apply_restart_snapshot (snapshot_of sh') (conns s c))\<lparr>ongoing := (ongoing (conns s c))\<lparr>oc_state := CkFinalize (result_of s c)\<rparr>\<rparr>) sh' s)
      \<lparr>slots := []\<rparr>"
  shows "wal_inv N s'"
proof -
  have ph: "ck_state s c \<in> {CkSyncWal, CkProcessing, CkDetermineResult}" using assms(3) by simp
  obtain g where g: "f_guard (conns s c) = Some g" "ck_guard s c = Some g" "results s c = None" "copying_inv N s c" "should_restart_log (modes s c) \<longrightarrow> g = GuardWriter"
    by (rule copying_state[OF assms(1,2) ph])
  have gw: "ck_guard s c = Some GuardWriter" "f_guard (conns s c) = Some GuardWriter" using g(1,2,5) assms(4) by simp_all
  note i = wal_invD[OF assms(1,2)] and f = restarted_fields[OF assms(8)] and al = alone_with_guard[OF assms(1,2) gw(1) assms(6,7)]
  have o: "others_same c s s'" by (simp add: assms(10) others_same_def)
  have rs: "restart_step c random s s'" by (simp add: restart_step_def assms(10) f)
  have cpd: "copied s (max_frame (shared s))" using copied_done[OF g(4) assms(3)] assms(5) by simp
  note v = restart_views[OF i(1) cpd rs]
  have cn: "shared s' = sh'" "results s' c = None" "modes s' c = modes s c" "txn s' = txn s" using g(3) by (simp_all add: assms(10))
  have cf: "max_frame_read_lock_index (conns s' c) = max_frame_read_lock_index (conns s c)" "writing s' c = writing s c" "f_guard (conns s' c) = Some GuardWriter"
    "vacuum_read_guard (conns s' c) = vacuum_read_guard (conns s c)" "ck_state s' c = CkFinalize (result_of s c)"
    using gw(2) by (simp_all add: assms(10) apply_restart_snapshot_def)
  have gd: "ck_guard s' d = ck_guard s d" for d using gw(1) cf(3) othersD(7)[OF o] by (cases "d = c") (simp_all add: ck_guard_def)
  have h: "max_frame_read_lock_index (conns s' d) = max_frame_read_lock_index (conns s d)" "writing s' d = writing s d" for d
    using cf(1,2) othersD(1)[OF o] by (cases "d = c", simp_all)+
  have rd: "reading s' d = reading s d" "write_held s' d = write_held s d" for d by (simp_all add: reading_def write_held_def h gd)
  have ex: "exclusive N s' j" if "j < 5" for j
    using assms(2,4) gw(1) gd[of c] cf(5) cn(3) by (auto simp: exclusive_def restarting_def)
  have mk: "marks_inv N s' restart_marks"
    using assms(9) ex al(1) restart_marks_nth by (simp add: marks_inv_def cn holders_def h)
  obtain v' u x where words: "write_lock (shared s) = lock_of (\<exists>c<N. write_held s c, 0, v')"
    "checkpoint_lock (shared s) = lock_of (\<exists>c<N. ck_guard s c \<noteq> None, 0, u)" "vacuum_lock (shared s) = lock_of (False, card {d. d < N \<and> reading s d}, x)"
    using i(2) by (rule locks_inv_words)
  have lk: "locks_inv N s'"
    by (rule locks_step[OF i(2) assms(2) o mk, of v' u x])
      (use locks_inv_local[OF i(2) assms(2)] assms(3) al(3)[OF assms(2)] in
        \<open>simp_all add: gd rd h words f cn locks_excl[OF i(2) assms(2)] local_ok_def cf\<close>)
  have "ck_inv N s' d" if d: "d < N" for d
  proof (cases "d = c")
    case True
    have "result_ok s' (modes s c) (Some GuardWriter) (result_of s c)" using assms(4) f by (simp add: result_ok_def cn)
    then show ?thesis using True cf cn by (simp add: ck_inv_def result_of_def checkpoint_result_new_def)
  next
    case False
    show ?thesis by (rule no_other_checkpoint[OF assms(1,2) _ d False othersD(1,4)[OF o False]]) (simp add: gw(1))
  qed
  moreover have "conns_inv N s'" using al(2,3) wal_invD(5)[OF assms(1)] by (simp add: conns_inv_def rd h cn)
  ultimately show ?thesis using assms(1) lk v(1) by (simp add: wal_inv_def checkpoints_inv_eq)
qed

lemma busy_keeps:
  assumes "wal_inv N s" "c < N" "ck_state s c = CkDetermineResult" "marks_inv N s M" "same_but_marks (shared s) sh'" "marks_are M' sh'" "idle_step M M'"
    "checkpoint_determine_result (modes s c) random (conns s c, shared s) = Inr (CkBusy, conns s c, sh')"
  shows "\<exists>s'. run_checkpoint c (modes s c) False random s = Inr s' \<and> wal_inv N s'"
proof -
  have st: "ck_state s c \<noteq> CkStart" "\<not> restarting s c" using assms(3) by (simp_all add: restarting_def)
  obtain conn sh where f: "checkpoint_failed (conns s c, sh') = Inr (conn, sh)" "wal_inv N (set_conn c conn sh s)"
    "frame_cache_high_water sh = frame_cache_high_water (shared s)"
    using fail_marks_keeps[OF assms(1,2) st assms(4-7)] by blast
  have "checkpoint_step (modes s c) False random (wal_log s) (conns s c, shared s, db_file s) = Inr (CkBusy, conn, sh, db_file s)"
    using assms(3,8) f(1) by (simp add: checkpoint_step_def)
  then show ?thesis using run_checkpoint_eq[OF assms(1,2) _ f(3)] f(2) by (simp add: keep_result_def set_conn_def)
qed

lemma determine_keeps:
  assumes "wal_inv N s" "c < N" "ck_state s c = CkDetermineResult"
  shows "\<exists>s'. run_checkpoint c (modes s c) False random s = Inr s' \<and> wal_inv N s'"
proof -
  let ?conn = "conns s c" and ?mode = "modes s c" and ?oc = "ongoing (conns s c)" and ?res = "result_of s c"
  have ph: "ck_state s c \<in> {CkSyncWal, CkProcessing, CkDetermineResult}" using assms(3) by simp
  obtain g where g: "f_guard ?conn = Some g" "ck_guard s c = Some g" "copying_inv N s c" "should_restart_log ?mode \<longrightarrow> g = GuardWriter"
    by (rule copying_state[OF assms(1,2) ph])
  have len: "\<not> oc_current_page ?oc < length (oc_pages ?oc)" using g(3) assms(3) by (simp add: copying_inv_def Let_def)
  obtain M v0 where M: "marks_inv N s M" "M ! 0 = (True, 0, v0)" by (rule guard_words[OF assms(1,2) g(2)])
  note md = marks_invD[OF M(1)]
  have det: "checkpoint_determine_result ?mode random (?conn, shared s) =
      (if require_all_backfilled ?mode \<and> \<not> everything_backfilled ?res then Inr (CkBusy, ?conn, shared s)
       else if should_restart_log ?mode then
         and_then (begin_restart random (shared s)) (\<lambda>(snap, sh).
         case snap of
           None \<Rightarrow> Inr (CkBusy, ?conn, sh)
         | Some sn \<Rightarrow> Inr (CkContinue, (apply_restart_snapshot sn ?conn)\<lparr>ongoing := ?oc\<lparr>oc_state := CkFinalize ?res\<rparr>\<rparr>, sh))
       else Inr (CkContinue, ?conn\<lparr>ongoing := ?oc\<lparr>oc_state := CkFinalize ?res\<rparr>\<rparr>, shared s))"
    unfolding result_of_def One_nat_def using len g(1,4) by (simp add: checkpoint_determine_result_def Let_def not_less)
  consider "require_all_backfilled ?mode" "\<not> everything_backfilled ?res" | "\<not> should_restart_log ?mode" "require_all_backfilled ?mode \<longrightarrow> everything_backfilled ?res"
    | "should_restart_log ?mode" "everything_backfilled ?res" using restart_requires by blast
  then show ?thesis
  proof cases
    case 1
    show ?thesis by (rule busy_keeps[OF assms M(1) _ md(1) idle_refl]) (use 1 det in simp_all)
  next
    case 2
    let ?new = "?conn\<lparr>ongoing := ?oc\<lparr>oc_state := CkFinalize ?res\<rparr>\<rparr>"
    have "checkpoint_step ?mode False random (wal_log s) (?conn, shared s, db_file s) = Inr (CkContinue, ?new, shared s, db_file s)"
      using 2 assms(3) det by (auto simp: checkpoint_step_def)
    then show ?thesis using run_checkpoint_eq[OF assms(1,2)] finalize_step[OF assms 2(1)] by (simp add: keep_result_def set_conn_def)
  next
    case 3
    have f0: "fst (M ! 0)" by (simp add: M(2))
    show ?thesis
    proof (rule begin_restart_cases[OF md(1,2) f0, of random])
      fix M' sh' assume a: "begin_restart random (shared s) = Inr (None, sh')" "same_but_marks (shared s) sh'" "marks_are M' sh'" "idle_step M M'"
      show ?thesis by (rule busy_keeps[OF assms M(1) a(2-4)]) (use 3 a(1) det in simp)
    next
      fix sh' assume a: "\<forall>i\<in>{1..<5}. free (M ! i)" "begin_restart random (shared s) = Inr (Some (snapshot_of sh'), sh')"
        "same_but_marks (restarted random (shared s)) sh'" "marks_are restart_marks sh'"
      let ?new = "(apply_restart_snapshot (snapshot_of sh') ?conn)\<lparr>ongoing := ?oc\<lparr>oc_state := CkFinalize ?res\<rparr>\<rparr>"
      have mx: "oc_max_frame ?oc = max_frame (shared s)"
        using 3(2) by (simp add: everything_backfilled_def result_of_def checkpoint_result_new_def)
      have "checkpoint_step ?mode False random (wal_log s) (?conn, shared s, db_file s) = Inr (CkContinue, ?new, sh', db_file s)"
        using 3 assms(3) det a(2) by (simp add: checkpoint_step_def)
      then have "run_checkpoint c ?mode False random s = Inr ((set_conn c ?new sh' s)\<lparr>slots := []\<rparr>)"
        using restarted_fields(2)[OF a(3)] by (simp add: run_checkpoint_def keep_result_def set_conn_def)
      then show ?thesis using restart_checkpoint[OF assms 3(1) mx M(1) a(1,3,4) refl] by blast
    qed
  qed
qed

end
