(* ===== verification/WalHandover.thy ===== *)
theory WalHandover
  imports WalCopying
begin

text \<open>
  The end of a checkpoint keeps the invariant of the machine: the guard goes to the caller with the
  result, and the caller publishes how much was copied and truncates the log under it.
\<close>

section \<open>Handing the guard over\<close>

lemma finalize_state:
  assumes "wal_inv N s" "c < N" "ck_state s c = CkFinalize res"
  obtains g where "f_guard (conns s c) = Some g" "ck_guard s c = Some g" "results s c = None" "result_ok s (modes s c) (Some g) res" "maybe_guard res = None"
    "\<forall>d<N. restarting s d \<longrightarrow> d = c"
proof -
  note i = wal_invD[OF assms(1,2)]
  have st: "ck_state s c \<noteq> CkStart" using assms(3) by simp
  note gs = guard_state(1)[OF i(2) assms(2) st]
  then obtain g where g: "f_guard (conns s c) = Some g" "ck_guard s c = Some g" by (cases "f_guard (conns s c)") auto
  have "d = c" if "d < N" "restarting s d" for d
  proof (rule ccontr)
    assume "d \<noteq> c"
    then have "ck_guard s d = None" using locks_excl(1)[OF i(2) assms(2) that(1)] g(2) by simp
    moreover have "ck_state s d \<noteq> CkStart" using that(2) by (auto simp: restarting_def)
    ultimately show False using guard_state(1)[OF i(2) that(1)] by auto
  qed
  then show ?thesis using i(6) g gs assms(3) by (intro that[OF g]) (auto simp: ck_inv_def)
qed

lemma handover_step:
  assumes "wal_inv N s" "c < N" "ck_state s c = CkFinalize res" "marks_inv N s M" "same_but_marks (shared s) sh" "marks_are M1 sh" "length M1 = 5"
    "M1 ! 0 = M ! 0" "\<And>j. 0 < j \<Longrightarrow> j < 5 \<Longrightarrow> M1 ! j = (False, snd (M ! j))"
    "conn = (conns s c)\<lparr>f_guard := None, ongoing := (ongoing (conns s c))\<lparr>oc_pages := [], oc_current_page := 0, oc_state := CkStart\<rparr>\<rparr>"
    "s' = (set_conn c conn (sh\<lparr>epoch := e\<rparr>) s)\<lparr>results := (results s)(c \<mapsto> (modes s c, res\<lparr>maybe_guard := f_guard (conns s c)\<rparr>))\<rparr>"
  shows "wal_inv N s'"
proof -
  obtain g where g: "f_guard (conns s c) = Some g" "ck_guard s c = Some g" "results s c = None" "result_ok s (modes s c) (Some g) res" "maybe_guard res = None"
    "\<forall>d<N. restarting s d \<longrightarrow> d = c" by (rule finalize_state[OF assms(1-3)])
  note i = wal_invD[OF assms(1,2)] and md = marks_invD[OF assms(4)]
  obtain ls where ls: "sh = (shared s)\<lparr>read_locks := ls\<rparr>" using assms(5) by (auto simp: same_but_marks_def)
  have o: "others_same c s s'" by (simp add: assms(11) others_same_def)
  have content: "same_content s s'" by (simp add: assms(11) ls same_content_def)
  have cf: "conns s' c = conn" "results s' c = Some (modes s c, res\<lparr>maybe_guard := Some g\<rparr>)" "shared s' = sh\<lparr>epoch := e\<rparr>" "txn s' c = txn s c" "base s' c = base s c"
    by (simp_all add: assms(11) g(1))
  have gd: "ck_guard s' d = ck_guard s d" for d
    using othersD(7)[OF o] g(2) by (cases "d = c") (simp_all add: ck_guard_def cf assms(10))
  have nr: "\<not> restarting s' d" if "d < N" for d
  proof (cases "d = c")
    case True
    then show ?thesis by (simp add: restarting_def cf assms(10))
  next
    case False
    then show ?thesis using othersD(9)[OF o False] g(6) that by blast
  qed
  have h: "max_frame_read_lock_index (conns s' d) = max_frame_read_lock_index (conns s d)" "writing s' d = writing s d" "reading s' d = reading s d" "write_held s' d = write_held s d" for d
    using othersD(1)[OF o] gd[of d] by (cases "d = c"; simp add: cf assms(10) reading_def write_held_def)+
  have mk: "marks_inv N s' M1"
    unfolding marks_inv_def
  proof (intro conjI allI impI)
    show "marks_are M1 (shared s')" using assms(6) by (simp add: cf marks_are_def)
    fix j :: nat assume "j < 5"
    then show "fst (M1 ! j) = exclusive N s' j" "fst (snd (M1 ! j)) = card (holders N s' j)"
      using assms(8) assms(9)[of j] md(3,4)[of j] nr by (cases "j = 0"; auto simp: exclusive_def gd holders_def h)+
  qed (rule assms(7))
  obtain v u x where words: "write_lock (shared s) = lock_of (\<exists>c<N. write_held s c, 0, v)"
    "checkpoint_lock (shared s) = lock_of (\<exists>c<N. ck_guard s c \<noteq> None, 0, u)" "vacuum_lock (shared s) = lock_of (False, card {d. d < N \<and> reading s d}, x)"
    using i(2) by (rule locks_inv_words)
  have loc: "local_ok s' c"
    using locks_inv_local[OF i(2) assms(2)] by (simp add: local_ok_def gd h) (simp add: cf assms(10))
  have lk: "locks_inv N s'"
    by (rule locks_step[OF i(2) assms(2) o mk _ _ _ _ _ loc, of v u x]) (simp_all add: cf ls words gd h locks_excl[OF i(2) assms(2)])
  have val: "read_mark_value j (shared s') = read_mark_value j (shared s)" if "0 < j" "j < 5" for j
    using mark_ops(7)[OF md(1), of j] mark_ops(7)[OF assms(6), of j] assms(9)[OF that] md(2) assms(7) that by (simp add: cf read_mark_value_def)
  have j5: "max_frame_read_lock_index (conns s d) < 5" if "d < N" "reading s d" for d
    using locks_local(1)[OF i(2) that(1)] that(2) by blast
  have bd: "bound s' c = bound s c" using content h(2)[of c] by (simp add: bound_def same_content_def cf assms(10))
  have r: "reader_inv s' c" if "reading s c"
    using i(3)[OF that] content content_overlay[OF content] bd val[OF _ j5[OF assms(2) that]] by (simp add: reader_inv_def same_content_def h cf(5)) (simp add: cf assms(10))
  have w: "writer_inv s' c" if "writing s c"
    using i(4)[OF that] content h(3)[of c] by (simp add: writer_inv_def same_content_def cf(4)) (simp add: cf assms(10))
  have "result_ok s (modes s c) (Some g) (res\<lparr>maybe_guard := Some g\<rparr>)" using g(4) by (simp add: result_ok_def)
  then have ci: "ck_inv N s' c"
    using content_result[OF content] by (simp add: ck_inv_def cf assms(10))
  show ?thesis
    by (rule hold_step_inv[OF assms(1,2) content o lk _ _ _ _ _ ci]) (use r w bd i(5) val j5 in \<open>simp_all add: h cf(4)\<close>)
qed

lemma finalize_marks:
  assumes "wal_inv N s" "c < N" "ck_state s c = CkFinalize res" "marks_inv N s M"
  obtains M1 sh where "(if should_restart_log (modes s c) then end_restart (shared s) else Inr (shared s)) = Inr sh"
    "same_but_marks (shared s) sh" "marks_are M1 sh" "length M1 = 5" "M1 ! 0 = M ! 0" "\<And>j. 0 < j \<Longrightarrow> j < 5 \<Longrightarrow> M1 ! j = (False, snd (M ! j))"
proof -
  obtain g where only: "\<forall>d<N. restarting s d \<longrightarrow> d = c" by (rule finalize_state[OF assms(1-3)])
  note md = marks_invD[OF assms(4)]
  have rc: "restarting s c = should_restart_log (modes s c)" using assms(3) by (simp add: restarting_def)
  have ex: "fst (M ! j) = should_restart_log (modes s c)" if "0 < j" "j < 5" for j
  proof -
    have "exclusive N s j = (\<exists>d<N. restarting s d)" using that(1) by (simp add: exclusive_def)
    also have "\<dots> = restarting s c" using only assms(2) by blast
    finally show ?thesis using md(3)[OF that(2)] rc by blast
  qed
  show ?thesis
  proof (cases "should_restart_log (modes s c)")
    case False
    have "M ! j = (False, snd (M ! j))" if "0 < j" "j < 5" for j
      using ex[OF that] False by (simp add: prod_eq_iff)
    then show ?thesis using False by (intro that[OF _ same_but_marks_refl md(1,2)]) simp_all
  next
    case True
    then have "\<forall>i\<in>set [1..<5]. i < length M \<and> fst (M ! i)" using ex md(2) by auto
    then obtain sh where sh: "unlock_read_marks [1..<5] (shared s) = Inr sh" "same_but_marks (shared s) sh" "marks_are (release_marks {1..<5} M) sh"
      using unlock_read_marks_spec[OF md(1), of "[1..<5]"] by auto
    have "fst (snd (M ! j)) = 0" if "0 < j" "j < 5" for j
      using marks_nth[OF md(1), of j] ex[OF that] True md(2) that by (auto simp: mark_ok_def)
    then show ?thesis using True sh md(2) by (intro that[of sh "release_marks {1..<5} M"]) (auto simp: end_restart_def prod_eq_iff)
  qed
qed

lemma finalize_keeps:
  assumes "wal_inv N s" "c < N" "ck_state s c = CkFinalize res"
  shows "\<exists>s'. run_checkpoint c (modes s c) False random s = Inr s' \<and> wal_inv N s'"
proof -
  obtain g where g: "f_guard (conns s c) = Some g" "ck_guard s c = Some g" "results s c = None" "result_ok s (modes s c) (Some g) res" "maybe_guard res = None"
    by (rule finalize_state[OF assms])
  obtain M where M: "marks_inv N s M" using wal_invD(2)[OF assms(1,2)] by (rule locks_inv_words)
  obtain M1 sh where sh: "(if should_restart_log (modes s c) then end_restart (shared s) else Inr (shared s)) = Inr sh"
    "same_but_marks (shared s) sh" "marks_are M1 sh" "length M1 = 5" "M1 ! 0 = M ! 0" "\<And>j. 0 < j \<Longrightarrow> j < 5 \<Longrightarrow> M1 ! j = (False, snd (M ! j))"
    using finalize_marks[OF assms M] by metis
  define conn where "conn = (conns s c)\<lparr>f_guard := None, ongoing := (ongoing (conns s c))\<lparr>oc_pages := [], oc_current_page := 0, oc_state := CkStart\<rparr>\<rparr>"
  define s1 where "s1 = (set_conn c conn (sh\<lparr>epoch := epoch sh + 1\<rparr>) s)\<lparr>results := (results s)(c \<mapsto> (modes s c, res\<lparr>maybe_guard := f_guard (conns s c)\<rparr>))\<rparr>"
  have i1: "wal_inv N s1" by (rule handover_step[OF assms M sh(2-6) conn_def s1_def])
  have hw: "frame_cache_high_water sh = frame_cache_high_water (shared s)" using sh(2) by (auto simp: same_but_marks_def)
  show ?thesis
  proof (cases "everything_backfilled res \<or> wal_checkpoint_backfilled res > 0")
    case True
    have "checkpoint_step (modes s c) False random (wal_log s) (conns s c, shared s, db_file s) =
      Inr (CkDone (res\<lparr>maybe_guard := f_guard (conns s c)\<rparr>), conn, sh\<lparr>epoch := epoch sh + 1\<rparr>, db_file s)"
      using True sh(1) assms(3) by (simp add: checkpoint_step_def checkpoint_finalize_def bump_checkpoint_epoch_def conn_def)
    then show ?thesis using run_checkpoint_eq[OF assms(1,2)] i1 hw by (simp add: keep_result_def set_conn_def s1_def)
  next
    case False
    then have f: "wal_checkpoint_backfilled res = 0" "\<not> everything_backfilled res" by simp_all
    have gs: "f_guard (conns s1 c) = None" "results s1 c = Some (modes s c, res\<lparr>maybe_guard := Some g\<rparr>)" "conns s1 c = conn" "ck_state s1 c = CkStart"
      by (simp_all add: s1_def conn_def g(1))
    then have g1: "ck_guard s1 c = Some g" by (simp add: ck_guard_def)
    obtain M' v0 v u where w: "marks_inv N s1 M'" "M' ! 0 = (True, 0, v0)"
      "write_lock (shared s1) = lock_of (\<exists>c<N. write_held s1 c, 0, v)" "checkpoint_lock (shared s1) = lock_of (\<exists>c<N. ck_guard s1 c \<noteq> None, 0, u)"
      "release_checkpoint_guard g (shared s1) = Inr (guard_locks g False v0 v u (shared s1))"
      by (rule guard_words[OF i1 assms(2) g1])
    define s2 where "s2 = s1\<lparr>shared := guard_locks g False v0 v u (shared s1), results := (results s1)(c \<mapsto> (modes s c, res))\<rparr>"
    have i2: "wal_inv N s2"
    proof (rule guard_step[OF i1 assms(2) _ w(1) _ w(3,4), where s' = s2 and b = False])
      show "shared s2 = guard_locks g False v0 v u (shared s1)" by (simp add: s2_def)
      show "conns s2 c = (conns s1 c)\<lparr>f_guard := None, ongoing := ongoing (conns s1 c)\<rparr>" using gs(1) by (simp add: s2_def)
    qed (use gs g1 g(5) f w(2) in \<open>auto simp: s2_def others_same_def ck_guard_def restarting_def ck_inv_def\<close>)
    have "checkpoint_step (modes s c) False random (wal_log s) (conns s c, shared s, db_file s) =
      Inr (CkDone res, conn, guard_locks g False v0 v u (sh\<lparr>epoch := epoch sh + 1\<rparr>), db_file s)"
      using f sh(1) assms(3) w(5) g(1) by (simp add: checkpoint_step_def checkpoint_finalize_def bump_checkpoint_epoch_def drop_guard_def conn_def s1_def)
    then show ?thesis using run_checkpoint_eq[OF assms(1,2)] i2 hw by (simp add: keep_result_def set_conn_def s1_def s2_def)
  qed
qed

section \<open>Under the guard of a result\<close>

lemma checkpoint_step_keeps:
  assumes "wal_inv N s" "wal_op_ok N (WCheckpointStep c random) s"
  shows "\<exists>s'. wal_exec (WCheckpointStep c random) s = Inr s' \<and> wal_inv N s'"
proof -
  have c: "c < N" "ck_state s c \<noteq> CkStart" using assms(2) by simp_all
  then show ?thesis
    using process_keeps[OF assms(1) c(1)] determine_keeps[OF assms(1) c(1)] finalize_keeps[OF assms(1) c(1)]
    by (cases "ck_state s c") simp_all
qed

lemma checkpoint_fail_keeps:
  assumes "wal_inv N s" "wal_op_ok N (WCheckpointFail c) s"
  shows "\<exists>s'. wal_exec (WCheckpointFail c) s = Inr s' \<and> wal_inv N s'"
proof -
  have c: "c < N" "ck_state s c \<noteq> CkStart" "\<not> restarting s c" using assms(2) by (auto simp: restarting_def)
  show ?thesis using fail_keeps[OF assms(1) c] by auto
qed

text \<open>A step on the shared state alone by the connection that holds the guard of a result.\<close>

lemma overlay_shared [simp]: "overlay (s\<lparr>shared := sh\<rparr>) = overlay s"
  by (intro ext) (simp add: overlay_def cong: option.case_cong)

lemma guarded_step:
  assumes "wal_inv N s" "c < N" "results s c = Some (mode, res)" "maybe_guard res \<noteq> None"
    "same_locks (shared s) sh" "max_frame sh = max_frame (shared s)" "nbackfills (shared s) \<le> nbackfills sh"
    "transaction_count sh = transaction_count (shared s)" "log_inv (s\<lparr>shared := sh\<rparr>)"
    "\<And>d. d < N \<Longrightarrow> writing s d \<Longrightarrow> initialized sh = initialized (shared s)" "result_ok (s\<lparr>shared := sh\<rparr>) mode (maybe_guard res) res"
  shows "wal_inv N (s\<lparr>shared := sh\<rparr>)"
proof -
  let ?s = "s\<lparr>shared := sh\<rparr>"
  note i = wal_invD[OF assms(1)] and gs = guard_state(2)[OF wal_invD(2)[OF assms(1,2)] assms(2,3)]
  have h: "held_of ?s d = held_of s d" for d by (simp add: held_of_def restarting_def cong: checkpoint_state.case_cong)
  have b: "bound ?s d = bound s d" "reading ?s d = reading s d" for d by (simp_all add: bound_def reading_def assms(6))
  have "locks_inv N ?s" by (rule locks_inv_cong[OF _ _ i(2)[OF assms(2)]]) (simp_all add: h assms(5))
  moreover have "reader_inv ?s d" if "d < N" "reading s d" for d
    by (rule reader_frame[OF i(3)[OF that]]) (simp_all add: assms(6-8) read_mark_same[OF assms(5)])
  moreover have "writer_inv ?s d" if "d < N" "writing s d" for d
    using i(4)[OF that] assms(10)[OF that] by (simp add: writer_inv_def assms(6,8) b)
  moreover have "ck_inv N ?s d" if d: "d < N" for d
  proof (cases "d = c")
    case True
    then show ?thesis using gs assms(3,4,11) by (auto simp: ck_inv_def)
  next
    case False
    show ?thesis by (rule no_other_checkpoint[OF assms(1,2) _ d False]) (simp_all add: gs assms(4))
  qed
  ultimately show ?thesis using assms(1,9) i(5) by (simp add: wal_inv_def conns_inv_def checkpoints_inv_eq b)
qed

lemma copied_views:
  assumes "log_inv s" "copied s mx" "nbackfills (shared s) \<le> mx"
  shows "overlay s (mx + 1) (max_frame (shared s)) p = committed s p"
proof -
  have "overlay s (nbackfills (shared s) + 1) (max_frame (shared s)) p = committed s p" using assms(1) by (simp add: log_inv_def)
  moreover have "overlay s (nbackfills (shared s) + 1) mx p = db_file s p" using assms(2) by (auto simp: overlay_def copied_def split: option.split)
  ultimately show ?thesis
    using overlay_split[of "nbackfills (shared s) + 1" mx "max_frame (shared s)" s p] assms(2,3)
    by (simp add: copied_def overlay_def split: option.splits)
qed

lemma publish_keeps:
  assumes "wal_inv N s" "wal_op_ok N (WPublish c) s"
  shows "\<exists>s'. wal_exec (WPublish c) s = Inr s' \<and> wal_inv N s'"
proof (cases "results s c")
  case None
  then show ?thesis using assms(1) by simp
next
  case (Some mr)
  obtain mode res where mr: "mr = (mode, res)" by (cases mr)
  have c: "c < N" "\<not> should_restart_log mode" "wal_checkpoint_backfilled res > 0" using assms(2) Some mr by simp_all
  note i = wal_invD[OF assms(1) c(1)] and r = Some[unfolded mr]
  let ?mx = "wal_total_backfilled res" and ?sh = "(shared s)\<lparr>nbackfills := wal_total_backfilled res\<rparr>"
  have res: "maybe_guard res \<noteq> None" "copied s ?mx" "nbackfills (shared s) \<le> ?mx"
    using i(6) r c(2,3) unfolding ck_inv_def result_ok_def by (auto split: if_splits)
  have le: "?mx \<le> max_frame (shared s)" using res(2) by (simp add: copied_def)
  have "wal_inv N (s\<lparr>shared := ?sh\<rparr>)"
  proof (rule guarded_step[OF assms(1) c(1) r res(1)])
    show "log_inv (s\<lparr>shared := ?sh\<rparr>)" using i(1) le copied_views[OF i(1) res(2,3)] by (simp add: log_inv_def index_ok_def)
    show "result_ok (s\<lparr>shared := ?sh\<rparr>) mode (maybe_guard res) res" using c(2) le by (simp add: result_ok_def copied_def newest_empty)
  qed (use res(3) in \<open>simp_all add: same_locks_def\<close>)
  then show ?thesis using r res(3) le by (simp add: wal_publish_backfill_def coord_publish_backfill_def)
qed

lemma truncate_keeps:
  assumes "wal_inv N s" "wal_op_ok N (WTruncate c) s"
  shows "\<exists>s'. wal_exec (WTruncate c) s = Inr s' \<and> wal_inv N s'"
proof -
  obtain upto res where c: "c < N" and r: "results s c = Some (Truncate upto, res)" and g: "maybe_guard res \<noteq> None"
    using assms(2) by (auto split: option.splits prod.splits checkpoint_mode.splits)
  note i = wal_invD[OF assms(1) c]
  have ro: "result_ok s (Truncate upto) (maybe_guard res) res" using i(6) r g by (simp add: ck_inv_def)
  then have gw: "maybe_guard res = Some GuardWriter" "max_frame (shared s) = 0" by (simp_all add: result_ok_def)
  have nw: "\<not> writing s d" if "d < N" for d
    using only_writer(2)[OF i(2) that c] guard_state(2)[OF i(2) c r] gw(1) by auto
  let ?sh = "(shared s)\<lparr>initialized := False\<rparr>"
  have "wal_inv N (s\<lparr>shared := ?sh\<rparr>)"
  proof (rule guarded_step[OF assms(1) c r g])
    show "log_inv (s\<lparr>shared := ?sh\<rparr>)" using i(1) gw(2) by (auto simp: log_inv_def index_ok_def)
    show "result_ok (s\<lparr>shared := ?sh\<rparr>) (Truncate upto) (maybe_guard res) res" using gw by (simp add: result_ok_def)
  qed (use nw in \<open>simp_all add: same_locks_def\<close>)
  moreover have "enabled (shared s)" using i(1) by (simp add: log_inv_def)
  ultimately show ?thesis by (simp add: prepare_truncate_def)
qed

end
