(* ===== verification/WalIsolation.thy ===== *)
theory WalIsolation
  imports WalHandover
begin

text \<open>
  Snapshot isolation of the connections on a log: the invariant holds when the log is opened and
  every step keeps it, so no step panics and each connection reads its snapshot.
\<close>

section \<open>Reachable states\<close>

lemmas op_keeps =
  begin_keeps end_keeps begin_write_keeps init_keeps append_keeps commit_keeps rollback_keeps savepoint_keeps end_write_keeps
  checkpoint_keeps checkpoint_step_keeps checkpoint_fail_keeps publish_keeps truncate_keeps release_keeps

lemma exec_keeps:
  assumes "wal_inv N s" "wal_op_ok N op s"
  shows "\<exists>s'. wal_exec op s = Inr s' \<and> wal_inv N s'"
  using assms(2) by (cases op) (simp_all only: op_keeps[OF assms(1)])

inductive wal_reachable :: "nat \<Rightarrow> 'c wal_sys \<Rightarrow> 'c wal_sys \<Rightarrow> bool" for N s0 where
  start: "wal_reachable N s0 s0"
| step: "wal_reachable N s0 s \<Longrightarrow> wal_op_ok N op s \<Longrightarrow> wal_exec op s = Inr s' \<Longrightarrow> wal_reachable N s0 s'"

lemma reachable_inv: "wal_reachable N s0 s \<Longrightarrow> wal_inv N s0 \<Longrightarrow> wal_inv N s"
proof (induction rule: wal_reachable.induct)
  case (step s op s')
  then show ?case using exec_keeps[of N s op] by auto
qed

lemma run_inv: "wal_inv N s \<Longrightarrow> wal_run_ok N ops s \<Longrightarrow> \<exists>s'. wal_run ops s = Inr s' \<and> wal_inv N s'"
proof (induction ops arbitrary: s)
  case (Cons op ops)
  then obtain s' where s': "wal_exec op s = Inr s'" "wal_inv N s'" using exec_keeps[of N s op] by auto
  then show ?case using Cons by auto
qed simp

lemma run_reachable: "wal_run_ok N ops s \<Longrightarrow> wal_run ops s = Inr s' \<Longrightarrow> wal_reachable N s0 s \<Longrightarrow> wal_reachable N s0 s'"
proof (induction ops arbitrary: s)
  case (Cons op ops)
  obtain s1 where s1: "wal_exec op s = Inr s1" "wal_run ops s1 = Inr s'" using Cons.prems(2) by (cases "wal_exec op s") auto
  show ?case
    by (rule Cons.IH[OF _ s1(2)]) (use Cons.prems(1,3) s1(1) wal_reachable.step in auto)
qed simp

lemma inv_reads:
  assumes "wal_inv N s" "c < N" "reading s c"
  shows "read_page s c p = Some (apply_txn (txn s c) (base s c) p)"
  using wal_invD[OF assms(1,2)] assms(3) by (intro read_page_writer) auto

section \<open>Opening a log\<close>

text \<open>The page image in a frame of the log, and the pages of the committed frames.\<close>

definition log_page :: "log_frame list \<Rightarrow> nat \<Rightarrow> byte list" where
  "log_page fs f = (if 0 < f \<and> f \<le> length fs then snd (snd (fs ! (f - 1))) else [])"

definition committed_pages :: "log_frame list \<Rightarrow> (nat \<times> byte list) list" where
  "committed_pages fs = map (\<lambda>(pn, _, pg). (unat pn, pg)) (take (last_commit fs) fs)"

definition wal_open :: "log_frame list \<Rightarrow> (nat \<Rightarrow> byte list) \<Rightarrow> wal_file_shared \<Rightarrow> byte list wal_sys" where
  "wal_open fs db sh =
     \<lparr>shared = sh, conns = \<lambda>_. wal_file_new (last_checksum sh) (max_frame sh), results = \<lambda>_. None, modes = \<lambda>_. Passive None,
      wal_log = log_page fs, db_file = db, slots = map fst (committed_pages fs),
      committed = apply_txn (committed_pages fs) db, base = \<lambda>_. db, txn = \<lambda>_. []\<rparr>"

lemma open_locks:
  assumes "fresh_locks sh"
  shows "locks_inv N (wal_open fs db sh)"
proof -
  let ?s = "wal_open fs db sh" and ?M = "map (\<lambda>v. (False, 0, v)) (0 # 0 # replicate 3 READMARK_NOT_USED) :: mark list"
  have free: "\<not> reading ?s c" "ck_guard ?s c = None" "\<not> restarting ?s c" "\<not> write_held ?s c" "holders N ?s i = {} \<or> i = NO_LOCK_HELD" for c i
    by (auto simp: wal_open_def wal_file_new_def reading_def ck_guard_def restarting_def write_held_def holders_def)
  have l: "lock_new = lock_of (False, 0, 0)" by (simp add: lock_of_def lock_new_def pack_lock_def)
  have len: "length ?M = 5" by simp
  have "marks_are ?M (shared ?s)" using assms by (simp add: marks_are_def fresh_locks_def wal_open_def lock_of_def mark_ok_def list_all_iff)
  moreover have "fst (?M ! i) = exclusive N ?s i \<and> fst (snd (?M ! i)) = card (holders N ?s i)" if "i < 5" for i
  proof -
    have "?M ! i = (False, 0, (0 # 0 # replicate 3 READMARK_NOT_USED) ! i)" using that by (subst nth_map) simp_all
    moreover have "holders N ?s i = {}" using free(5)[of i] that NO_LOCK_HELD_ge(2)[of i] by blast
    ultimately show ?thesis using free(2,3) by (simp add: exclusive_def)
  qed
  ultimately have "marks_inv N ?s ?M" using len by (simp add: marks_inv_def)
  moreover have "write_lock (shared ?s) = lock_of (False, 0, 0)" "checkpoint_lock (shared ?s) = lock_of (False, 0, 0)" "vacuum_lock (shared ?s) = lock_of (False, 0, 0)"
    using assms l by (simp_all add: fresh_locks_def wal_open_def)
  ultimately show ?thesis
    unfolding locks_inv_def using free(1-4) by (auto simp: wal_open_def wal_file_new_def)
qed

lemma open_inv:
  assumes "index_ok (map fst (committed_pages fs)) sh" "max_frame sh = last_commit fs" "nbackfills sh = 0" "initialized sh \<or> max_frame sh = 0"
    "fresh_locks sh" "last_commit fs < 2 ^ 32" "N < 2 ^ 31 - 1"
  shows "wal_inv N (wal_open fs db sh)"
proof -
  let ?s = "wal_open fs db sh" and ?xs = "committed_pages fs"
  have "enabled sh" using assms(5) by (simp add: fresh_locks_def)
  have len: "length ?xs = last_commit fs" using last_commit_le[of fs] by (simp add: committed_pages_def)
  have "log_page fs (Suc i) = snd (?xs ! i)" if "i < length ?xs" for i
    using that len last_commit_le[of fs] by (simp add: log_page_def committed_pages_def case_prod_beta)
  then have "(case newest (map fst ?xs) (0 + 1) (0 + length ?xs) p of Some f \<Rightarrow> log_page fs f | None \<Rightarrow> db p) = apply_txn ?xs db p" for p
    by (intro txn_view) simp_all
  then have "overlay ?s 1 (last_commit fs) p = committed ?s p" for p by (simp add: overlay_def wal_open_def len cong: option.case_cong)
  then have "log_inv ?s"
    using assms \<open>enabled sh\<close> len by (simp add: log_inv_def wal_open_def)
  moreover have "conns_inv N ?s" "checkpoints_inv N ?s"
    by (simp_all add: conns_inv_def checkpoints_inv_def wal_open_def wal_file_new_def reading_def)
  ultimately show ?thesis using open_locks[OF assms(5)] assms(7) by (simp add: wal_inv_def)
qed

text \<open>
  The shared state that opening a file gives, for \<open>N\<close> connections: the file is a log of the frames
  \<open>fs\<close> followed by bytes that are not a valid next frame, or it has no valid header (an empty
  file among them), and then the log is empty. Frame numbers have 32 bits.
\<close>

definition log_of :: "bool \<Rightarrow> byte list \<Rightarrow> log_frame list \<Rightarrow> bool" where
  "log_of big file fs \<longleftrightarrow>
     no_header big file \<and> fs = [] \<or>
     (\<exists>h tail. wal_header_ok h \<and> log_ok (unat (wal_page_size h)) fs \<and> file = wal_image h fs @ tail \<and>
        frame_at h (unat (wal_page_size h)) (chain_end (checksum_1 h, checksum_2 h) (frame_infos h (checksum_1 h, checksum_2 h) fs)) tail = None)"

definition opens :: "nat \<Rightarrow> bool \<Rightarrow> byte list \<Rightarrow> log_frame list \<Rightarrow> wal_file_shared \<Rightarrow> bool" where
  "opens N big file fs sh \<longleftrightarrow>
     log_of big file fs \<and> last_commit fs < 2 ^ 32 \<and> N < 2 ^ 31 - 1 \<and> build_shared_wal big file = Inr sh"

lemma opens_inv:
  assumes "opens N big file fs sh"
  shows "wal_inv N (wal_open fs db sh)"
proof (cases "no_header big file \<and> fs = []")
  case True
  then have "frame_cache sh = []" "frame_cache_high_water sh = 0" "max_frame sh = 0" "nbackfills sh = 0" "fresh_locks sh"
    using build_no_header[of big "file" sh] assms by (simp_all add: opens_def)
  then show ?thesis
    using True assms by (intro open_inv) (simp_all add: opens_def index_ok_def committed_pages_def slots_of_def)
next
  case False
  then obtain h tail where h: "wal_header_ok h" "log_ok (unat (wal_page_size h)) fs" "file = wal_image h fs @ tail"
    "frame_at h (unat (wal_page_size h)) (chain_end (checksum_1 h, checksum_2 h) (frame_infos h (checksum_1 h, checksum_2 h) fs)) tail = None"
    using assms by (auto simp: opens_def log_of_def)
  then have r: "recovered h fs sh" "fresh_locks sh"
    using assms build_shared_wal_recovered[of h fs tail big] by (auto simp: opens_def)
  have "map fst (committed_pages fs) = map (\<lambda>(pn, _). unat pn) (take (last_commit fs) fs)" by (simp add: committed_pages_def case_prod_beta)
  then have "index_ok (map fst (committed_pages fs)) sh" using recovered_index[OF r(1)] by simp
  then show ?thesis using assms r by (intro open_inv) (simp_all add: opens_def recovered_def)
qed

lemma reachable_wal_inv: "opens N big file fs sh \<Longrightarrow> wal_reachable N (wal_open fs db sh) s \<Longrightarrow> wal_inv N s"
  using reachable_inv opens_inv by blast

section \<open>Steps of other connections\<close>

fun op_conn :: "'c wal_op \<Rightarrow> nat" where
  "op_conn (WBegin c _) = c"
| "op_conn (WEnd c) = c"
| "op_conn (WBeginWrite c _ _) = c"
| "op_conn (WInit c _ _ _ _) = c"
| "op_conn (WAppend c _ _ _) = c"
| "op_conn (WCommit c) = c"
| "op_conn (WRollback c) = c"
| "op_conn (WSavepoint c _ _) = c"
| "op_conn (WEndWrite c) = c"
| "op_conn (WCheckpoint c _ _ _) = c"
| "op_conn (WCheckpointStep c _) = c"
| "op_conn (WCheckpointFail c) = c"
| "op_conn (WPublish c) = c"
| "op_conn (WTruncate c) = c"
| "op_conn (WRelease c) = c"

lemma result_ghosts [simp]:
  "base (keep_result c mode out s) = base s" "txn (keep_result c mode out s) = txn s"
  "committed (keep_result c mode out s) = committed s" "conns (keep_result c mode out s) = conns s"
  by (simp_all add: keep_result_def split: checkpoint_outcome.split)

lemma begin_ghosts [simp]:
  "conns (case res of BeginOk _ \<Rightarrow> s\<lparr>base := b\<rparr> | BeginRetry \<Rightarrow> s | BeginBusy \<Rightarrow> s) = conns s"
  "txn (case res of BeginOk _ \<Rightarrow> s\<lparr>base := b\<rparr> | BeginRetry \<Rightarrow> s | BeginBusy \<Rightarrow> s) = txn s"
  "committed (case res of BeginOk _ \<Rightarrow> s\<lparr>base := b\<rparr> | BeginRetry \<Rightarrow> s | BeginBusy \<Rightarrow> s) = committed s"
  "base (case res of BeginOk _ \<Rightarrow> s\<lparr>base := b\<rparr> | BeginRetry \<Rightarrow> s | BeginBusy \<Rightarrow> s) d = (if \<exists>x. res = BeginOk x then b d else base s d)"
  by (cases res; simp)+

lemma exec_others:
  assumes "wal_exec op s = Inr s'" "op_conn op \<noteq> d"
  shows "conns s' d = conns s d \<and> base s' d = base s d \<and> txn s' d = txn s d"
  using assms
  by (cases op) (auto simp: Let_def case_prod_beta run_checkpoint_def split: option.splits)

lemma exec_committed:
  assumes "wal_exec op s = Inr s'" "\<forall>c. op \<noteq> WCommit c"
  shows "committed s' = committed s"
  using assms
  by (cases op) (auto simp: Let_def case_prod_beta run_checkpoint_def split: option.splits)

lemma begin_ok_guard: "wal_try_begin_read_tx sn (conn, sh) = Inr (BeginOk b, conn', sh') \<Longrightarrow> vacuum_read_guard conn'"
  by (auto simp: wal_try_begin_read_tx_def Let_def install_connection_state_def split: prod.splits if_splits option.splits)

lemma run_committed: "wal_run ops s = Inr s' \<Longrightarrow> \<forall>op\<in>set ops. \<forall>c. op \<noteq> WCommit c \<Longrightarrow> committed s' = committed s"
proof (induction ops arbitrary: s)
  case (Cons op ops)
  then obtain s1 where "wal_exec op s = Inr s1" "wal_run ops s1 = Inr s'" by auto
  then show ?case using Cons.IH Cons.prems(2) exec_committed[of op s s1] by auto
qed simp

section \<open>A run\<close>

text \<open>
  A log without frames, two transactions that write page 7, a reader that began between them, and a
  checkpoint that copies as much as that reader allows.
\<close>

definition sample_shared :: wal_file_shared where
  "sample_shared =
     \<lparr>enabled = True, shared_header = sample_header, min_frame = 0, max_frame = 0, nbackfills = 0, transaction_count = 0,
      last_checksum = (checksum_1 sample_header, checksum_2 sample_header), loaded = True, loaded_from_disk_scan = True,
      initialized = True, frame_cache = [], frame_cache_high_water = 0,
      read_locks = map (pack_lock False 0) (0 # 0 # replicate 3 READMARK_NOT_USED),
      vacuum_lock = lock_new, write_lock = lock_new, checkpoint_lock = lock_new, epoch = 0, coverage = coverage_clear\<rparr>"

lemma sample_build: "build_shared_wal False (wal_image sample_header []) = Inr sample_shared"
proof -
  have l: "length (wal_image sample_header []) = WAL_HEADER_SIZE" by (simp add: wal_image_def WAL_HEADER_SIZE_def)
  have hd: "slice (wal_image sample_header []) 0 WAL_HEADER_SIZE = wal_header_bytes sample_header" by (simp add: wal_image_def WAL_HEADER_SIZE_def)
  show ?thesis
    unfolding build_shared_wal_def shared_begin_def hd
    by (simp add: init_read_locks_ok handle_header_read_ok[OF sample_header_ok] l chunk_loop.simps finalize_reader_def finalize_loading_def
      streaming_new_def sample_shared_def Let_def upt_conv_Cons numeral_3_eq_3)
qed

lemma sample_opens: "opens 3 False (wal_image sample_header []) [] sample_shared"
proof -
  have "log_of False (wal_image sample_header []) []"
    unfolding log_of_def using sample_header_ok
    by (intro disjI2 exI[of _ sample_header] exI[of _ "[]"]) (simp add: log_ok_def frame_at_def WAL_FRAME_HEADER_SIZE_def)
  then show ?thesis using sample_build by (simp add: opens_def)
qed

lemmas lock_eval =
  lock_new_def pack_lock_def READMARK_NOT_USED_def lock_read_alone lock_write_def lock_unlock_def lock_unlock_at_def has_writer_def has_readers_def get_value_def set_value_exclusive_def
  compare_exchange_def WRITER_def READER_INC_def READER_COUNT_MASK_def VALUE_MASK_def try_read_mark_shared_def try_read_mark_exclusive_def on_read_lock_def
  try_write_lock_def unlock_write_lock_def unlock_read_mark_def read_mark_value_def set_read_mark_value_exclusive_def

lemmas wal_eval =
  wal_try_begin_read_tx_def coord_try_begin_read_tx_def snapshot_of_def install_connection_state_def sn_min_frame_def connection_snapshot_def
  wal_begin_write_tx_def append_position_def complete_append_frame_def finish_append_frames_commit_def publish_commit_def cache_frame_def
  try_restart_log_before_write_def set_conn_def wal_file_new_def NO_LOCK_HELD_def reading_def Let_def ensure_def prepare_wal_start_def

definition sample_sys :: "byte list wal_sys" where
  "sample_sys = wal_open [] (\<lambda>_. [0]) sample_shared"

definition sample_write :: "byte list wal_op list" where
  "sample_write =
     [WBegin 0 (snapshot_of sample_shared), WBegin 1 (snapshot_of sample_shared), WBeginWrite 0 True 5, WAppend 0 7 [1] (8, 9)]"

definition sample_snapshot :: wal_snapshot where
  "sample_snapshot = (snapshot_of sample_shared)\<lparr>sn_max_frame := 1, sn_last_checksum := (8, 9), sn_transaction_count := 1\<rparr>"

definition sample_ops :: "byte list wal_op list" where
  "sample_ops = sample_write @
     [WCommit 0, WEndWrite 0, WEnd 1, WEnd 0, WBegin 2 sample_snapshot, WBegin 0 sample_snapshot, WBeginWrite 0 True 5, WAppend 0 7 [2] (8, 9),
      WCommit 0, WEndWrite 0, WEnd 0, WCheckpoint 0 (Passive None) True 0, WCheckpointStep 0 0, WCheckpointStep 0 0, WCheckpointStep 0 0,
      WCheckpointStep 0 0, WPublish 0, WRelease 0]"

lemmas checkpoint_eval =
  run_checkpoint_def checkpoint_step_def checkpoint_start_def keep_result_def acquire_proper_checkpoint_guard_def needs_new_guard_def drop_guard_def
  acquire_checkpoint_guard_def try_checkpoint_lock_def unlock_checkpoint_lock_def coord_max_safe_frame_def pages_to_checkpoint_def iter_latest_frames_def
  latest_frame_in_range_def checkpoint_process_def checkpoint_determine_result_def checkpoint_result_new_def checkpoint_finalize_def bump_checkpoint_epoch_def
  everything_backfilled_def wal_publish_backfill_def coord_publish_backfill_def release_guard_def upt_conv_Cons

lemmas sample_eval =
  sample_write_def sample_snapshot_def sample_sys_def wal_open_def sample_shared_def sample_header_def wal_eval lock_eval
  wal_end_write_tx_def wal_end_read_tx_def from_lock_index_def pin_read_mark_def

lemma sample_run:
  "wal_run_ok 3 sample_ops sample_sys"
  "\<exists>s. wal_run sample_ops sample_sys = Inr s \<and> reading s 2 \<and> txn s 2 = [] \<and> base s 2 7 = [1] \<and> max_frame (shared s) = 2 \<and> db_file s 7 = [1]"
  by (simp_all add: sample_ops_def sample_eval checkpoint_eval)

lemma sample_write_run:
  "wal_run_ok 3 sample_write sample_sys"
  "\<exists>s. wal_run sample_write sample_sys = Inr s \<and> reading s 1 \<and> wal_op_ok 3 (WCommit 0) s \<and>
     (\<exists>s1 conn sh. wal_exec (WCommit 0) s = Inr s1 \<and> wal_op_ok 3 (WBegin 2 sample_snapshot) s1 \<and>
        wal_try_begin_read_tx sample_snapshot (conns s1 2, shared s1) = Inr (BeginOk True, conn, sh))"
  by (simp_all add: sample_eval upt_conv_Cons)

end
