(* ===== verification/Spec2Isabelle.thy ===== *)
theory Spec2Isabelle
  imports RecordFormat FreeSpace CacheMachine WalIsolation
begin

text \<open>
  The storage core of the database engine: what is written into a database file and its write-ahead
  log, how it is read back, and how pages are kept in memory in between. Everything models code under
  \<^verbatim>\<open>src/core\<close>.

  \<^bold>\<open>The program.\<close> A row is a record: a header of serial types followed by the values
  (\<^verbatim>\<open>types.rs\<close>). Records are the payload of cells on b-tree pages
  (\<^verbatim>\<open>storage/sqlite3_ondisk.rs\<close>, \<^verbatim>\<open>storage/btree.rs\<close>). Pages live in a page cache
  with a clock hand (\<^verbatim>\<open>storage/page_cache.rs\<close>, \<^verbatim>\<open>storage/pager.rs\<close>). A commit
  appends changed pages as frames to the write-ahead log; connections read through the log under
  read marks, a checkpoint copies frames back into the database file, and opening a database recovers
  the log (\<^verbatim>\<open>storage/wal.rs\<close>, \<^verbatim>\<open>storage/sqlite3_ondisk.rs\<close>).

  \<^bold>\<open>The theories,\<close> bottom up.
  \<^item> \<open>Prelude\<close>: errors as values (\<open>limbo_error\<close>, \<open>result\<close>, where
    \<open>Panic\<close> stands for a panic of the source), slices of byte buffers, big-endian integers.
  \<^item> \<open>Varint\<close>: the varint readers and writers of \<^verbatim>\<open>sqlite3_ondisk.rs\<close>. Every
    reader agrees with the general one, and reading undoes writing.
  \<^item> \<open>SerialType\<close>: \<open>Value\<close>, serial types, the value readers and the writer, UTF-8
    validation. Doubles are bit patterns and the external UTF-8 validator is a parameter.
  \<^item> \<open>RecordFormat\<close>: \<open>ImmutableRecord::build\<close>, \<open>Record::serialize\<close> and
    \<open>ValueIterator\<close>. Building and iterating are inverse, both encoders agree, the shortcuts
    of the iterator agree with stepping through it.
  \<^item> \<open>PageFormat\<close>: page headers, overflow thresholds, and all ways of reading a cell. A page
    is its buffer, its number and its overflow cells.
  \<^item> \<open>PageSpace\<close>: slot search, freeing, defragmentation, insertion and removal of cells on
    one page. \<open>FreeSpace\<close> relates them to an abstract list of free blocks: freeing and
    taking a slot refine operations on the list, and the computed free space is its total.
  \<^item> \<open>PageState\<close>: the flag word, pin count and WAL tag of a page, with its two sentinels. The
    operations on the word refine operations on a set of flags.
  \<^item> \<open>PageCache\<close>: all operations of the cache, its linked entries as a heap of addresses.
    \<open>CacheInvariant\<close> and \<open>CacheOps\<close> give each operation's effect on well-formed
    caches, \<open>CacheMachine\<close> runs arbitrary sequences of them: the invariant holds, no access
    dangles, unwritten pages stay, a victim is found whenever there is one.
  \<^item> \<open>WalFormat\<close>: log header, frame header and the running checksum on little-endian and
    big-endian targets. \<open>WalLock\<close>: the lock word \<open>TursoRwLock\<close> under every
    interleaving of its atomic steps, the load and the change of an operation being two.
  \<^item> \<open>WalRecovery\<close> and \<open>WalCommitted\<close>: the streaming reader that recovers a log;
    a log image, cut anywhere, yields exactly its committed prefix, and a file without a valid header
    an empty log.
  \<^item> \<open>WalIndex\<close>: the index from pages to frames against the list of pages in the slots of
    the log. \<open>WalCoord\<close>: the in-process coordination backend. \<open>WalFile\<close>: one
    connection's transactions and checkpoints. \<open>WalSystem\<close>: several connections as a machine
    over these operations, with the last committed database, the snapshot and the writes of each
    transaction beside the state of the program, and its invariant.
  \<^item> The steps of that machine keep its invariant: \<open>WalViews\<close> (what a view of the log depends
    on), \<open>WalSteps\<close> (append, commit, rollback), \<open>WalReads\<close> (transactions begin and end),
    \<open>WalRestart\<close> (a writer restarts the log), \<open>WalGuards\<close>, \<open>WalCheckpoint\<close>,
    \<open>WalCopying\<close> and \<open>WalHandover\<close> (a checkpoint takes its locks, fixes the frames to copy,
    copies, restarts the log, hands its locks over; the caller publishes, truncates and releases).
    \<open>WalIsolation\<close> collects them, starts from the state that recovery gives, and has a run.
    The properties at the end of this theory are their consequences: no step panics, transactions read
    their snapshots, reads repeat, commits become visible.

  \<^bold>\<open>Conventions.\<close> Operations that mutate take and return their state. A guard of the source
  is a branch, \<open>turso_assert!\<close> and slice bounds are \<open>Inl Panic\<close>. Fixed-width integers
  are words wherever the source wraps or masks, naturals where the source bounds them or where only a
  buffer larger than the address space would overflow them (the sizes of a record that is built). Locks
  are 64-bit words. What a thread loads and what it finds when it changes the word are separate
  arguments; the coordination layer above uses the forms in which they agree.

  \<^bold>\<open>What callers promise.\<close> \<open>wal_op_ok\<close> of \<open>WalSystem\<close> has it: a connection
  begins one read transaction at a time and ends it after its write transaction, appends only to a log
  whose header is written, runs one checkpoint at a time, publishes what it copied only while it has the
  locks and only when the log was not restarted. Frame numbers stay below 2 to the 32 and there are fewer
  connections than a lock word counts. The snapshot that a read transaction begins with is arbitrary, as
  other connections may have moved on since it was loaded. An operation of a connection is one step of the
  machine, except that a checkpoint is a step per page and phase.

  \<^bold>\<open>Fuel and bounds.\<close> The sweep of the cache examines four times as many entries as the
  cache holds, as in the source; \<open>evict_one_live\<close> shows that this suffices. The loop that fixes
  the header size of a record returns \<open>option\<close> and is shown to end with a result. The retry loop
  of a shared lock takes the interfering values as a list that ends. All other recursions are structural
  or have a termination proof.

  \<^bold>\<open>Not modelled.\<close> Operations that span several pages (cursors, balancing, overflow chains),
  the pager's transactions and free list: they are resumable machines around input and output, interleaved
  with the modelled operations. The log coordination between processes (a mapped file and process
  liveness), VACUUM, encryption and page checksums (external ciphers), file access itself. The second
  storage engine (multi-version concurrency control) and everything above storage: the virtual
  machine, translation, the parser, schema, functions, bindings. Comparison of records needs the numeric
  order of doubles, which are bit patterns here. Weak memory ordering is not modelled: an atomic
  operation is one step.
\<close>

section \<open>Properties\<close>

text \<open>
  C1. Any number of connections work on a log that was opened, whether it holds frames, is cut short or
  has no valid header yet, in any order that their callers allow:
  reading, writing, committing and rolling back, with checkpoints of every mode that copy, publish,
  restart and truncate the log in between. No step panics, and in the state reached every connection
  in a transaction reads, for every page, the last committed database of the moment its transaction
  began or last committed, with its own writes on top.
\<close>

theorem wal_snapshot_isolation:
  assumes "opens N big file fs sh" "wal_run_ok N ops (wal_open fs db sh)"
  shows "\<exists>s. wal_run ops (wal_open fs db sh) = Inr s \<and>
     (\<forall>c<N. reading s c \<longrightarrow> (\<forall>p. read_page s c p = Some (apply_txn (txn s c) (base s c) p)))"
  using run_inv[OF opens_inv[OF assms(1)] assms(2)] inv_reads by blast

theorem wal_snapshot_isolation_witness:
  "\<exists>s. wal_run sample_ops sample_sys = Inr s \<and> max_frame (shared s) = 2 \<and> db_file s 7 = [1] \<and> read_page s 2 7 = Some [1]"
proof -
  obtain s where s: "wal_run sample_ops sample_sys = Inr s" "reading s 2" "txn s 2 = []" "base s 2 7 = [1]" "max_frame (shared s) = 2" "db_file s 7 = [1]"
    using sample_run(2) by blast
  show ?thesis using wal_snapshot_isolation[OF sample_opens sample_run(1)[unfolded sample_sys_def]] s by (auto simp: sample_sys_def)
qed

text \<open>
  C7. Reads repeat: a step of any other connection, a commit, a restart of the log or a copy into the
  database file included, succeeds and leaves what a connection in a transaction reads as it was.
\<close>

theorem wal_repeatable_read:
  assumes "opens N big file fs sh" "wal_reachable N (wal_open fs db sh) s" "wal_op_ok N op s" "op_conn op \<noteq> c" "c < N" "reading s c"
  shows "\<exists>s'. wal_exec op s = Inr s' \<and> reading s' c \<and> (\<forall>p. read_page s' c p = read_page s c p)"
proof -
  have i: "wal_inv N s" by (rule reachable_wal_inv[OF assms(1,2)])
  obtain s' where s': "wal_exec op s = Inr s'" "wal_inv N s'" using exec_keeps[OF i assms(3)] by blast
  note o = exec_others[OF s'(1) assms(4)]
  have "reading s' c" using assms(6) o by (simp add: reading_def)
  then show ?thesis using s' inv_reads[OF i assms(5,6)] inv_reads[OF s'(2) assms(5)] o by simp
qed

theorem wal_repeatable_read_witness:
  "\<exists>s s'. wal_run sample_write sample_sys = Inr s \<and> wal_exec (WCommit 0) s = Inr s' \<and> reading s' 1 \<and> read_page s' 1 7 = read_page s 1 7"
proof -
  obtain s where s: "wal_run sample_write sample_sys = Inr s" "reading s 1" "wal_op_ok 3 (WCommit 0) s" using sample_write_run(2) by blast
  have "wal_reachable 3 (wal_open [] (\<lambda>_. [0]) sample_shared) s"
    by (rule run_reachable[OF _ s(1)[unfolded sample_sys_def] wal_reachable.start]) (rule sample_write_run(1)[unfolded sample_sys_def])
  then show ?thesis using wal_repeatable_read[OF sample_opens _ s(3), of "\<lambda>_. [0]" 1] s(1,2) by fastforce
qed

text \<open>
  C16. Commits become visible: a read transaction that begins after a commit and before the next one, on
  any connection, reads every page as the writer read it when it committed.
\<close>

theorem wal_commit_visible:
  assumes "opens N big file fs sh" "wal_reachable N (wal_open fs db sh) s"
    "wal_run_ok N (WCommit c # ops) s" "wal_run (WCommit c # ops) s = Inr s1" "\<forall>op\<in>set ops. \<forall>e. op \<noteq> WCommit e"
    "wal_op_ok N (WBegin d sn) s1" "wal_try_begin_read_tx sn (conns s1 d, shared s1) = Inr (BeginOk b, conn, sh')"
  shows "\<exists>s2. wal_exec (WBegin d sn) s1 = Inr s2 \<and> (\<forall>p. read_page s2 d p = read_page s c p)"
proof -
  have i: "wal_inv N s" by (rule reachable_wal_inv[OF assms(1,2)])
  have c: "c < N" "writing s c" and d: "d < N" "\<not> reading s1 d" using assms(3,6) by simp_all
  note ic = wal_invD[OF i c(1)]
  have w: "reading s c" "base s c = committed s" using ic(3,4) c(2) by (auto simp: writer_inv_def reader_inv_def)
  obtain s0 where s0: "wal_exec (WCommit c) s = Inr s0" "wal_run ops s0 = Inr s1" using assms(4) by auto
  have "committed s0 = apply_txn (txn s c) (committed s)" using s0(1) by (auto simp: Let_def case_prod_beta)
  then have cm: "committed s1 = apply_txn (txn s c) (base s c)" using run_committed[OF s0(2) assms(5)] w(2) by simp
  have i1: "wal_inv N s1" using run_inv[OF i assms(3)] assms(4) by auto
  have "\<not> writing s1 d" using wal_invD(4)[OF i1 d(1)] d(2) by (auto simp: writer_inv_def)
  then have t: "txn s1 d = []" using wal_invD(5)[OF i1 d(1)] by blast
  define s2 where "s2 = (set_conn d conn sh' s1)\<lparr>base := (base s1)(d := committed s1)\<rparr>"
  have e: "wal_exec (WBegin d sn) s1 = Inr s2" using assms(7) by (simp add: s2_def)
  then have i2: "wal_inv N s2" using exec_keeps[OF i1 assms(6)] by (simp del: wal_exec.simps)
  have "vacuum_read_guard (conns s2 d)" using begin_ok_guard[OF assms(7)] by (simp add: s2_def)
  then have r: "reading s2 d" using locks_local(2)[OF wal_invD(2)[OF i2 d(1)] d(1)] by simp
  have "read_page s2 d p = read_page s c p" for p
    using inv_reads[OF i2 d(1) r] inv_reads[OF i c(1) w(1)] t cm by (simp add: s2_def)
  then show ?thesis using e by blast
qed

theorem wal_commit_visible_witness:
  "\<exists>s s1 s2. wal_run sample_write sample_sys = Inr s \<and> wal_exec (WCommit 0) s = Inr s1 \<and>
     wal_exec (WBegin 2 sample_snapshot) s1 = Inr s2 \<and> read_page s2 2 7 = read_page s 0 7"
proof -
  obtain s s1 conn sh where s: "wal_run sample_write sample_sys = Inr s" "wal_op_ok 3 (WCommit 0) s" "wal_exec (WCommit 0) s = Inr s1"
    "wal_op_ok 3 (WBegin 2 sample_snapshot) s1" "wal_try_begin_read_tx sample_snapshot (conns s1 2, shared s1) = Inr (BeginOk True, conn, sh)"
    using sample_write_run(2) by blast
  have r: "wal_reachable 3 (wal_open [] (\<lambda>_. [0]) sample_shared) s"
    by (rule run_reachable[OF _ s(1)[unfolded sample_sys_def] wal_reachable.start]) (rule sample_write_run(1)[unfolded sample_sys_def])
  have "wal_run_ok 3 [WCommit 0] s" "wal_run [WCommit 0] s = Inr s1" using s(2,3) by simp_all
  from wal_commit_visible[OF sample_opens r this _ s(4,5)] s(1,3) show ?thesis by fastforce
qed

end
